(* ===== verification/GoBase.thy ===== *)
theory GoBase
  imports Main "HOL-Library.Word" "HOL-Library.Char_ord" "HOL-Library.List_Lexorder"
    "HOL-Library.Multiset"
begin

text \<open>
  The prelude of the development: the Go values every component uses (byte strings, signed
  64-bit integers and durations, instants), the parts of Go's standard library the code calls
  on them, and the list and string lemmas that the component theories share.

  A Go \<open>string\<close> or \<open>[]byte\<close> is a \<open>string\<close>, a list of bytes. A Go \<open>int64\<close> is an \<open>int\<close> whose
  results are wrapped into the signed range by \<open>wrap64\<close> wherever the code can overflow. An
  instant (\<open>time.Time\<close>) is an \<open>int\<close>, nanoseconds since Go's zero time.
\<close>

named_theorems go_defs \<open>operations of the model, unfolded to analyse a handler\<close>
named_theorems inv_intros \<open>preservation of the components' invariants\<close>

section \<open>Signed 64-bit integers and time\<close>

definition max_i64 :: int where "max_i64 = 9223372036854775807"
definition min_i64 :: int where "min_i64 = -9223372036854775808"

definition wrap64 :: "int \<Rightarrow> int" where
  "wrap64 x = (x + 9223372036854775808) mod 18446744073709551616 - 9223372036854775808"

definition in_i64 :: "int \<Rightarrow> bool" where
  "in_i64 x \<longleftrightarrow> min_i64 \<le> x \<and> x \<le> max_i64"

lemmas i64_defs = max_i64_def min_i64_def in_i64_def

lemma wrap64_in [simp, intro]: "in_i64 (wrap64 x)"
proof -
  have "0 \<le> (x + 9223372036854775808) mod 18446744073709551616"
    and "(x + 9223372036854775808) mod 18446744073709551616 < (18446744073709551616 :: int)"
    by simp_all
  then show ?thesis unfolding wrap64_def i64_defs by linarith
qed

lemma wrap64_id [simp]: "in_i64 x \<Longrightarrow> wrap64 x = x"
  unfolding wrap64_def i64_defs by (subst mod_pos_pos_trivial) auto

lemma wrap64_mod: "0 \<le> x \<Longrightarrow> x < 18446744073709551616 \<Longrightarrow> wrap64 x mod 18446744073709551616 = x"
proof -
  assume x: "0 \<le> x" "x < 18446744073709551616"
  have "wrap64 x mod 18446744073709551616 = (x + 9223372036854775808 - 9223372036854775808) mod 18446744073709551616"
    unfolding wrap64_def by (rule mod_diff_left_eq)
  also have "\<dots> = x mod 18446744073709551616" by (simp only: add_diff_cancel_right')
  also have "\<dots> = x" by (rule mod_pos_pos_trivial [OF x])
  finally show ?thesis .
qed

type_synonym duration = int
type_synonym instant = int

definition nanosecond :: duration where "nanosecond = 1"
definition second :: duration where "second = 1000000000"
definition minute :: duration where "minute = 60000000000"

lemmas dur_defs = nanosecond_def second_def minute_def

text \<open>\<open>Time.Sub\<close> saturates at the ends of the duration range; \<open>Time.Add\<close> moves the instant.\<close>

definition time_sub :: "instant \<Rightarrow> instant \<Rightarrow> duration" where
  "time_sub t u = max min_i64 (min max_i64 (t - u))"

definition time_add :: "instant \<Rightarrow> duration \<Rightarrow> instant" where
  "time_add t d = t + d"

definition time_after :: "instant \<Rightarrow> instant \<Rightarrow> bool" where
  "time_after t u \<longleftrightarrow> t > u"

lemmas time_defs = time_sub_def time_add_def time_after_def

lemma time_sub_ge_iff [simp]: "in_i64 d \<Longrightarrow> 0 < d \<Longrightarrow> d \<le> time_sub t u \<longleftrightarrow> u + d \<le> t"
  by (auto simp: time_sub_def i64_defs)

section \<open>Lists\<close>

lemma drop_Suc_eq_tl: "xs \<noteq> [] \<Longrightarrow> drop (Suc 0) xs = tl xs"
  by (cases xs) auto

lemma dropWhile_head: "dropWhile P xs = [] \<or> \<not> P (hd (dropWhile P xs))"
  by (induction xs) auto

end
