(* ===== verification/GoStrings.thy ===== *)
theory GoStrings
  imports GoBase
begin

text \<open>
  The parts of Go's \<open>strings\<close>, \<open>strconv\<close>, \<open>unicode/utf8\<close> and \<open>net/textproto\<close> packages that the
  exporter calls, as executable functions on byte strings, and the lemmas about them that the
  component theories share.
\<close>

section \<open>Bytes\<close>

definition byte :: "char \<Rightarrow> nat" where "byte c = of_char c"

definition is_digit :: "char \<Rightarrow> bool" where
  "is_digit c \<longleftrightarrow> 48 \<le> byte c \<and> byte c \<le> 57"

definition is_lower :: "char \<Rightarrow> bool" where
  "is_lower c \<longleftrightarrow> 97 \<le> byte c \<and> byte c \<le> 122"

definition is_upper :: "char \<Rightarrow> bool" where
  "is_upper c \<longleftrightarrow> 65 \<le> byte c \<and> byte c \<le> 90"

definition to_upper :: "char \<Rightarrow> char" where
  "to_upper c = (if is_lower c then char_of (byte c - 32) else c)"

definition to_lower :: "char \<Rightarrow> char" where
  "to_lower c = (if is_upper c then char_of (byte c + 32) else c)"

lemma byte_less_256: "byte c < 256"
  by (simp add: byte_def)

lemma byte_char_of [simp]: "byte (char_of n) = n mod 256" for n :: nat
  by (simp add: byte_def)

lemma byte_inject [simp]: "byte c = byte d \<longleftrightarrow> c = d"
  by (simp add: byte_def)

lemma is_upper_to_upper: "is_lower c \<Longrightarrow> is_upper (to_upper c)"
  by (auto simp: is_upper_def to_upper_def is_lower_def)

lemma is_lower_to_lower: "is_upper c \<Longrightarrow> is_lower (to_lower c)"
  by (auto simp: is_upper_def to_lower_def is_lower_def)

lemma not_lower_upper: "is_lower c \<Longrightarrow> \<not> is_upper c"
  by (simp add: is_upper_def is_lower_def)

section \<open>Searching and splitting\<close>

primrec has_prefix :: "string \<Rightarrow> string \<Rightarrow> bool" where
  "has_prefix s [] = True"
| "has_prefix s (p # ps) = (case s of [] \<Rightarrow> False | c # cs \<Rightarrow> c = p \<and> has_prefix cs ps)"

definition has_suffix :: "string \<Rightarrow> string \<Rightarrow> bool" where
  "has_suffix s p = has_prefix (rev s) (rev p)"

definition trim_suffix :: "string \<Rightarrow> string \<Rightarrow> string" where
  "trim_suffix s p = (if has_suffix s p then take (length s - length p) s else s)"

text \<open>\<open>strings.Index\<close>; the \<open>-1\<close> of the source is \<open>None\<close>.\<close>

fun str_index :: "string \<Rightarrow> string \<Rightarrow> nat option" where
  "str_index s p =
     (if has_prefix s p then Some 0
      else case s of [] \<Rightarrow> None | _ # cs \<Rightarrow> map_option Suc (str_index cs p))"

declare str_index.simps [simp del]

fun last_index_char :: "string \<Rightarrow> char \<Rightarrow> nat option" where
  "last_index_char [] c = None"
| "last_index_char (x # xs) c =
     (case last_index_char xs c of
        Some i \<Rightarrow> Some (Suc i)
      | None \<Rightarrow> if x = c then Some 0 else None)"

fun split_char :: "char \<Rightarrow> string \<Rightarrow> string list" where
  "split_char c [] = [[]]"
| "split_char c (x # xs) =
     (if x = c then [] # split_char c xs
      else case split_char c xs of [] \<Rightarrow> [[x]] | w # ws \<Rightarrow> (x # w) # ws)"

text \<open>A text of lines, each ended by a line feed.\<close>

definition join_lines :: "string list \<Rightarrow> string" where
  "join_lines ls = concat (map (\<lambda>l. l @ [CHR 0x0A]) ls)"

lemma split_char_not_Nil [simp]: "split_char c s \<noteq> []"
  by (induction s) (auto split: list.split)

lemma split_char_line: "c \<notin> set l \<Longrightarrow> split_char c (l @ c # s) = l # split_char c s"
  by (induction l) auto

lemma split_char_join:
  "\<forall>l \<in> set ls. CHR 0x0A \<notin> set l \<Longrightarrow> split_char CHR 0x0A (join_lines ls) = ls @ [[]]"
  by (induction ls) (simp_all add: join_lines_def split_char_line)

lemma has_prefix_append: "has_prefix s p \<longleftrightarrow> (\<exists>t. s = p @ t)"
  by (induction p arbitrary: s) (auto split: list.splits)

lemma has_prefix_self [simp]: "has_prefix (p @ t) p"
  by (auto simp: has_prefix_append)

lemma has_suffix_append: "has_suffix s p \<longleftrightarrow> (\<exists>t. s = t @ p)"
  by (auto simp: has_suffix_def has_prefix_append) (metis rev_append rev_rev_ident)

lemma trim_suffix_append [simp]: "trim_suffix (s @ p) p = s"
  by (auto simp: trim_suffix_def has_suffix_append)

lemma str_index_here: "has_prefix s p \<Longrightarrow> str_index s p = Some 0"
  by (simp add: str_index.simps)

lemma str_index_skip:
  "c \<notin> set w \<Longrightarrow> str_index (w @ c # t) (c # p) = map_option ((+) (length w)) (str_index (c # t) (c # p))"
proof (induction w)
  case Nil
  then show ?case by (cases "str_index (c # t) (c # p)") simp_all
next
  case (Cons x w)
  then have "\<not> has_prefix (x # w @ c # t) (c # p)" by auto
  then have "str_index (x # w @ c # t) (c # p) = map_option Suc (str_index (w @ c # t) (c # p))"
    by (subst str_index.simps) (auto split: list.splits)
  then show ?case using Cons by (cases "str_index (c # t) (c # p)") simp_all
qed

lemma str_index_none: "str_index s p = None \<longleftrightarrow> (\<nexists>u t. s = u @ p @ t)"
proof (induction s)
  case Nil
  then show ?case by (subst str_index.simps) (auto simp: has_prefix_append)
next
  case (Cons c s)
  have "(\<exists>u t. c # s = u @ p @ t) \<longleftrightarrow> has_prefix (c # s) p \<or> (\<exists>u t. s = u @ p @ t)"
  proof
    assume "\<exists>u t. c # s = u @ p @ t"
    then obtain u t where "c # s = u @ p @ t" by blast
    then show "has_prefix (c # s) p \<or> (\<exists>u t. s = u @ p @ t)"
      by (cases u) (auto simp: has_prefix_append)
  next
    assume "has_prefix (c # s) p \<or> (\<exists>u t. s = u @ p @ t)"
    then show "\<exists>u t. c # s = u @ p @ t"
      by (metis append_Cons append_Nil has_prefix_append)
  qed
  with Cons show ?case by (subst str_index.simps) simp
qed

section \<open>Numbers\<close>

definition digit_val :: "char \<Rightarrow> nat" where "digit_val c = byte c - 48"

definition digits_val :: "string \<Rightarrow> nat" where
  "digits_val ds = foldl (\<lambda>n c. 10 * n + digit_val c) 0 ds"

text \<open>\<open>strconv.Atoi\<close> on a 64-bit platform and \<open>strconv.ParseUint(s, 10, 64)\<close>.\<close>

definition atoi :: "string \<Rightarrow> int option" where
  "atoi s =
     (let neg = has_prefix s ''-'';
          ds = (if neg \<or> has_prefix s ''+'' then tl s else s);
          v = (if neg then - int (digits_val ds) else int (digits_val ds))
      in if ds = [] \<or> \<not> list_all is_digit ds \<or> \<not> in_i64 v then None else Some v)"

definition parse_uint64 :: "string \<Rightarrow> nat option" where
  "parse_uint64 s =
     (if s = [] \<or> \<not> list_all is_digit s \<or> 18446744073709551615 < digits_val s then None
      else Some (digits_val s))"

lemma atoi_range: "atoi s = Some v \<Longrightarrow> in_i64 v"
  by (auto simp: atoi_def Let_def split: if_splits)

text \<open>\<open>strconv.Itoa\<close> of a non-negative number.\<close>

fun itoa :: "nat \<Rightarrow> string" where
  "itoa n = (if n < 10 then [char_of (48 + n)] else itoa (n div 10) @ [char_of (48 + n mod 10)])"

declare itoa.simps [simp del]

text \<open>\<open>strconv.Itoa\<close>.\<close>

definition print_int :: "int \<Rightarrow> string" where
  "print_int i = (if i < 0 then ''-'' @ itoa (nat (- i)) else itoa (nat i))"

lemma digit_char: "n < 10 \<Longrightarrow> is_digit (char_of (48 + n)) \<and> digit_val (char_of (48 + n)) = n"
  by (simp add: is_digit_def digit_val_def)

lemma digits_val_snoc: "digits_val (ds @ [c]) = 10 * digits_val ds + digit_val c"
  by (simp add: digits_val_def)

lemma itoa_digits: "list_all is_digit (itoa n) \<and> itoa n \<noteq> [] \<and> digits_val (itoa n) = n"
proof (induction n rule: itoa.induct)
  case (1 n)
  show ?case
  proof (cases "n < 10")
    case True
    then show ?thesis using digit_char [of n] by (subst (1 2 3) itoa.simps) (simp add: digits_val_def)
  next
    case False
    then show ?thesis using 1 digit_char [of "n mod 10"]
      by (subst (1 2 3) itoa.simps) (simp add: digits_val_snoc)
  qed
qed

lemma digit_not_sign: "is_digit c \<Longrightarrow> c \<noteq> CHR ''-'' \<and> c \<noteq> CHR ''+''"
  by (auto simp: is_digit_def byte_def)

lemma atoi_digits:
  "list_all is_digit ds \<Longrightarrow> ds \<noteq> [] \<Longrightarrow> int (digits_val ds) \<le> max_i64 \<Longrightarrow> atoi ds = Some (int (digits_val ds))"
  using digit_not_sign [of "hd ds"] by (cases ds) (auto simp: atoi_def Let_def i64_defs)

lemma atoi_itoa: "int n \<le> max_i64 \<Longrightarrow> atoi (itoa n) = Some (int n)"
  using itoa_digits [of n] atoi_digits [of "itoa n"] by simp

text \<open>\<open>strconv.ParseBool\<close>.\<close>

definition parse_bool :: "string \<Rightarrow> bool option" where
  "parse_bool s =
     (if s \<in> set [''1'', ''t'', ''T'', ''TRUE'', ''true'', ''True''] then Some True
      else if s \<in> set [''0'', ''f'', ''F'', ''FALSE'', ''false'', ''False''] then Some False
      else None)"

section \<open>Runes and white space\<close>

text \<open>\<open>utf8.EncodeRune\<close> for a valid code point, also what \<open>string(rune)\<close> does.\<close>

definition encode_rune :: "nat \<Rightarrow> string" where
  "encode_rune r =
     (if r < 128 then [char_of r]
      else if r < 2048 then [char_of (192 + r div 64), char_of (128 + r mod 64)]
      else if r < 65536 then
        [char_of (224 + r div 4096), char_of (128 + r div 64 mod 64), char_of (128 + r mod 64)]
      else
        [char_of (240 + r div 262144), char_of (128 + r div 4096 mod 64),
         char_of (128 + r div 64 mod 64), char_of (128 + r mod 64)])"

text \<open>The code points for which \<open>unicode.IsSpace\<close> holds, and their encodings.\<close>

definition space_runes :: "nat list" where
  "space_runes = [9, 10, 11, 12, 13, 32, 133, 160, 5760, 8192, 8193, 8194, 8195, 8196, 8197, 8198,
     8199, 8200, 8201, 8202, 8232, 8233, 8239, 8287, 12288]"

definition space_seqs :: "string list" where
  "space_seqs = map encode_rune space_runes"

definition leading_space :: "string \<Rightarrow> nat option" where
  "leading_space s = map_option length (find (has_prefix s) space_seqs)"

function trim_left_space :: "string \<Rightarrow> string" where
  "trim_left_space s =
     (case leading_space s of
        Some n \<Rightarrow> if 0 < n \<and> n \<le> length s then trim_left_space (drop n s) else s
      | None \<Rightarrow> s)"
  by pat_completeness auto
termination by (relation "measure length") auto

declare trim_left_space.simps [simp del]

definition trailing_space :: "string \<Rightarrow> nat option" where
  "trailing_space s = map_option length (find (has_suffix s) space_seqs)"

function trim_right_space :: "string \<Rightarrow> string" where
  "trim_right_space s =
     (case trailing_space s of
        Some n \<Rightarrow> if 0 < n \<and> n \<le> length s then trim_right_space (take (length s - n) s) else s
      | None \<Rightarrow> s)"
  by pat_completeness auto
termination by (relation "measure length") auto

declare trim_right_space.simps [simp del]

text \<open>\<open>strings.TrimSpace\<close> and \<open>strings.TrimRight\<close>.\<close>

definition trim_space :: "string \<Rightarrow> string" where
  "trim_space s = trim_right_space (trim_left_space s)"

definition trim_right_set :: "string \<Rightarrow> string \<Rightarrow> string" where
  "trim_right_set s cutset = rev (dropWhile (\<lambda>c. c \<in> set cutset) (rev s))"

text \<open>Printable ASCII other than the space: no encoding of a space starts or ends with such a byte.\<close>

definition visible :: "char \<Rightarrow> bool" where
  "visible c \<longleftrightarrow> 33 \<le> byte c \<and> byte c \<le> 126"

lemma space_seqs_ends: "\<forall>s \<in> set space_seqs. s \<noteq> [] \<and> \<not> visible (hd s) \<and> \<not> visible (last s)"
  by (simp add: space_seqs_def space_runes_def encode_rune_def visible_def)

lemma leading_space_visible: "visible c \<Longrightarrow> leading_space (c # s) = None"
  using space_seqs_ends by (force simp: leading_space_def find_None_iff has_prefix_append neq_Nil_conv)

lemma trailing_space_visible: "s \<noteq> [] \<Longrightarrow> visible (last s) \<Longrightarrow> trailing_space s = None"
  using space_seqs_ends by (fastforce simp: trailing_space_def find_None_iff has_suffix_append)

lemma eq_char_of: "c = char_of n \<longleftrightarrow> byte c = n mod 256" for n :: nat
  using byte_char_of [of n] byte_inject [of c "char_of n"] by auto

lemma byte_blank: "byte CHR 0x20 = 32" by (simp add: byte_def)

lemma leading_space_blank: "leading_space (CHR 0x20 # s) = Some 1"
  by (simp add: leading_space_def space_seqs_def space_runes_def encode_rune_def eq_char_of byte_blank)

lemma trailing_space_blank: "trailing_space (s @ [CHR 0x20]) = Some 1"
  by (simp add: trailing_space_def has_suffix_def space_seqs_def space_runes_def encode_rune_def eq_char_of byte_blank)

lemma trim_left_visible: "visible c \<Longrightarrow> trim_left_space (c # s) = c # s"
  by (subst trim_left_space.simps) (simp add: leading_space_visible)

lemma trim_left_blanks:
  "s \<noteq> [] \<Longrightarrow> visible (hd s) \<Longrightarrow> trim_left_space (replicate n CHR 0x20 @ s) = s"
proof (induction n)
  case 0
  then show ?case by (cases s) (simp_all add: trim_left_visible)
next
  case (Suc n)
  then show ?case by (subst trim_left_space.simps) (simp add: leading_space_blank)
qed

lemma trim_right_visible: "s \<noteq> [] \<Longrightarrow> visible (last s) \<Longrightarrow> trim_right_space s = s"
  by (subst trim_right_space.simps) (simp add: trailing_space_visible)

lemma trim_space_blanks:
  "s \<noteq> [] \<Longrightarrow> visible (hd s) \<Longrightarrow> visible (last s) \<Longrightarrow> trim_space (replicate n CHR 0x20 @ s) = s"
  by (simp add: trim_space_def trim_left_blanks trim_right_visible)

lemma trim_right_blanks:
  "s \<noteq> [] \<Longrightarrow> visible (last s) \<Longrightarrow> trim_right_space (s @ replicate n CHR 0x20) = s"
proof (induction n)
  case 0
  then show ?case by (simp add: trim_right_visible)
next
  case (Suc n)
  have "s @ replicate (Suc n) CHR 0x20 = (s @ replicate n CHR 0x20) @ [CHR 0x20]" by (simp add: replicate_append_same)
  moreover have "trim_right_space ((s @ replicate n CHR 0x20) @ [CHR 0x20]) = trim_right_space (s @ replicate n CHR 0x20)"
    by (subst trim_right_space.simps) (simp only: trailing_space_blank option.case, simp)
  ultimately show ?case using Suc by simp
qed

lemma trim_space_trailing:
  "s \<noteq> [] \<Longrightarrow> visible (hd s) \<Longrightarrow> visible (last s) \<Longrightarrow> trim_space (s @ replicate n CHR 0x20) = s"
proof -
  assume s: "s \<noteq> []" "visible (hd s)" "visible (last s)"
  then have "trim_left_space (s @ replicate n CHR 0x20) = s @ replicate n CHR 0x20"
    by (cases s) (simp_all add: trim_left_visible)
  with s show ?thesis by (simp add: trim_space_def trim_right_blanks)
qed

lemma trim_space_after:
  "s \<noteq> [] \<Longrightarrow> visible (hd s) \<Longrightarrow> visible (last s) \<Longrightarrow> trim_space (s @ [CHR 0x20]) = s"
  using trim_space_trailing [of s 1] by simp

lemma trim_space_visible: "s \<noteq> [] \<Longrightarrow> visible (hd s) \<Longrightarrow> visible (last s) \<Longrightarrow> trim_space s = s"
  using trim_space_blanks [of s 0] by simp

lemma trim_space_Nil [simp]: "trim_space [] = []"
  by (simp add: trim_space_def trim_left_space.simps trim_right_space.simps leading_space_def trailing_space_def
      space_seqs_def space_runes_def encode_rune_def has_suffix_def)

text \<open>\<open>strings.ToLower\<close>: byte by byte for ASCII, the Unicode tables being the argument \<open>uni\<close>.\<close>

definition lower_string :: "(string \<Rightarrow> string) \<Rightarrow> string \<Rightarrow> string" where
  "lower_string uni s = (if list_all (\<lambda>c. byte c < 128) s then map to_lower s else uni s)"

text \<open>\<open>strings.Fields\<close>: the maximal runs without white space; \<open>w\<close> is the run being read.\<close>

function fields_from :: "string \<Rightarrow> string \<Rightarrow> string list" where
  "fields_from w s =
     (if s = [] then (if w = [] then [] else [w])
      else case leading_space s of
        Some n \<Rightarrow> if 0 < n then (if w = [] then [] else [w]) @ fields_from [] (drop n s) else []
      | None \<Rightarrow> fields_from (w @ [hd s]) (tl s))"
  by pat_completeness auto
termination by (relation "measure (length \<circ> snd)") auto

declare fields_from.simps [simp del]

definition str_fields :: "string \<Rightarrow> string list" where
  "str_fields s = fields_from [] s"

lemma fields_from_word:
  "list_all visible v \<Longrightarrow> fields_from w v = (if w @ v = [] then [] else [w @ v])"
proof (induction v arbitrary: w)
  case Nil
  then show ?case by (simp add: fields_from.simps)
next
  case (Cons c v)
  then show ?case by (subst fields_from.simps) (simp add: leading_space_visible)
qed

lemma fields_from_blank:
  "list_all visible v \<Longrightarrow> w @ v \<noteq> [] \<Longrightarrow> fields_from w (v @ CHR 0x20 # s) = (w @ v) # fields_from [] s"
proof (induction v arbitrary: w)
  case Nil
  then show ?case by (subst fields_from.simps) (simp add: leading_space_blank)
next
  case (Cons c v)
  then show ?case by (subst fields_from.simps) (simp add: leading_space_visible)
qed

section \<open>HTTP header names\<close>

text \<open>\<open>http.CanonicalHeaderKey\<close>: a name with a byte that is no token character is kept as it is.\<close>

definition header_punct :: string where
  "header_punct = ''!#$%&'' @ [CHR 0x27] @ ''*+-.^_`|~''"

definition valid_header_byte :: "char \<Rightarrow> bool" where
  "valid_header_byte c \<longleftrightarrow> is_digit c \<or> is_lower c \<or> is_upper c \<or> c \<in> set header_punct"

fun canon_letters :: "bool \<Rightarrow> string \<Rightarrow> string" where
  "canon_letters upper [] = []"
| "canon_letters upper (c # cs) =
     (let c' = (if upper then to_upper c else to_lower c)
      in c' # canon_letters (c' = CHR ''-'') cs)"

definition canonical_header :: "string \<Rightarrow> string" where
  "canonical_header s = (if list_all valid_header_byte s then canon_letters True s else s)"

lemma valid_header_to_upper [simp]: "valid_header_byte (to_upper c) = valid_header_byte c"
  using is_upper_to_upper [of c] by (cases "is_lower c") (auto simp: valid_header_byte_def to_upper_def)

lemma valid_header_to_lower [simp]: "valid_header_byte (to_lower c) = valid_header_byte c"
  using is_lower_to_lower [of c] by (cases "is_upper c") (auto simp: valid_header_byte_def to_lower_def)

lemma to_upper_idem [simp]: "to_upper (to_upper c) = to_upper c"
  using is_upper_to_upper [of c] not_lower_upper [of "to_upper c"] by (auto simp: to_upper_def)

lemma to_lower_idem [simp]: "to_lower (to_lower c) = to_lower c"
  using is_lower_to_lower [of c] not_lower_upper [of "to_lower c"] by (auto simp: to_lower_def)

lemma canon_letters_valid [simp]:
  "list_all valid_header_byte (canon_letters u s) = list_all valid_header_byte s"
  by (induction u s rule: canon_letters.induct) (simp_all add: Let_def)

lemma canon_letters_idem [simp]: "canon_letters u (canon_letters u s) = canon_letters u s"
  by (induction s arbitrary: u) (simp_all add: Let_def)

lemma canonical_header_idem [simp]: "canonical_header (canonical_header s) = canonical_header s"
  by (simp add: canonical_header_def)

text \<open>A name already in canonical form is fixed.\<close>

fun canon_form :: "bool \<Rightarrow> string \<Rightarrow> bool" where
  "canon_form upper [] = True"
| "canon_form upper (c # cs) =
     ((if upper then \<not> is_lower c else \<not> is_upper c) \<and> canon_form (c = CHR ''-'') cs)"

lemma canon_form_fixed: "canon_form u s \<Longrightarrow> canon_letters u s = s"
  by (induction u s rule: canon_form.induct)
    (auto simp: Let_def to_upper_def to_lower_def split: if_splits)

lemma canonical_header_fixed: "canon_form True s \<Longrightarrow> canonical_header s = s"
  by (simp add: canonical_header_def canon_form_fixed)

end
