(* ===== verification/Yaml.thy ===== *)
theory Yaml
  imports GoStrings
begin

text \<open>
  \<^verbatim>\<open>internal/config/yaml.go\<close>: the parser of the YAML subset in which the configuration is written. The
  nodes are pointers in the code, and the frames of its stack point to them. A frame is only ever
  pushed for the node that has just become the last child of the node of the frame below it: the
  node of the frame at height \<open>d\<close> is the one reached from the root in \<open>d\<close> steps to the last child.
  The model keeps the indents of the stack and reads and updates nodes by that path.
\<close>

section \<open>Nodes\<close>

text \<open>A nil scalar, map or list is \<open>None\<close>; an empty non-nil slice is \<open>Some []\<close>.\<close>

datatype node = Node (n_scalar: "string option") (n_map: "(string \<times> node) list option") (n_list: "node list option")

definition is_map :: "node \<Rightarrow> bool" where "is_map n \<longleftrightarrow> n_map n \<noteq> None"

definition is_list :: "node \<Rightarrow> bool" where "is_list n \<longleftrightarrow> n_list n \<noteq> None"

definition as_string :: "node \<Rightarrow> string" where
  "as_string n = (case n_scalar n of None \<Rightarrow> [] | Some s \<Rightarrow> s)"

definition empty_node :: node where "empty_node = Node None None None"

definition last_child :: "node \<Rightarrow> node option" where
  "last_child n =
     (case n_map n of
        Some es \<Rightarrow> if es = [] then None else Some (snd (last es))
      | None \<Rightarrow> (case n_list n of
          Some ns \<Rightarrow> if ns = [] then None else Some (last ns)
        | None \<Rightarrow> None))"

definition set_last :: "node \<Rightarrow> node \<Rightarrow> node" where
  "set_last c n =
     (case n_map n of
        Some es \<Rightarrow> Node (n_scalar n) (Some (butlast es @ [(fst (last es), c)])) (n_list n)
      | None \<Rightarrow> (case n_list n of
          Some ns \<Rightarrow> Node (n_scalar n) None (Some (butlast ns @ [c]))
        | None \<Rightarrow> n))"

primrec node_at :: "nat \<Rightarrow> node \<Rightarrow> node" where
  "node_at 0 n = n"
| "node_at (Suc d) n = (case last_child n of None \<Rightarrow> n | Some c \<Rightarrow> node_at d c)"

primrec update_at :: "nat \<Rightarrow> (node \<Rightarrow> node) \<Rightarrow> node \<Rightarrow> node" where
  "update_at 0 f n = f n"
| "update_at (Suc d) f n = (case last_child n of None \<Rightarrow> n | Some c \<Rightarrow> set_last (update_at d f c) n)"

definition add_entry :: "string \<Rightarrow> node \<Rightarrow> node \<Rightarrow> node" where
  "add_entry k child n =
     Node (n_scalar n) (Some ((case n_map n of None \<Rightarrow> [] | Some es \<Rightarrow> es) @ [(k, child)])) (n_list n)"

definition add_item :: "node \<Rightarrow> node \<Rightarrow> node" where
  "add_item child n =
     Node (n_scalar n) (n_map n) (Some ((case n_list n of None \<Rightarrow> [] | Some ns \<Rightarrow> ns) @ [child]))"

section \<open>Scalars and keys\<close>

definition unquote_yaml :: "string \<Rightarrow> string" where
  "unquote_yaml s =
     (if 2 \<le> length s \<and> ((hd s = CHR 0x22 \<and> last s = CHR 0x22) \<or> (hd s = CHR 0x27 \<and> last s = CHR 0x27))
      then butlast (tl s) else s)"

definition scalar_from_string :: "string \<Rightarrow> node" where
  "scalar_from_string v = Node (Some (unquote_yaml v)) None None"

definition split_kv :: "string \<Rightarrow> (string \<times> string) option" where
  "split_kv s =
     (case str_index s '':'' of
        None \<Rightarrow> None
      | Some ci \<Rightarrow> Some (trim_space (take ci s), trim_space (drop (ci + 1) s)))"

section \<open>Lines\<close>

datatype yaml_error =
    OddIndent nat
  | ItemUnderMap nat
  | KeyUnderList nat
  | CannotParse nat
  | LineTooLong

record yaml_state =
  y_root :: node
  y_stack :: "int list"

definition y_start :: yaml_state where
  "y_start = \<lparr>y_root = Node None (Some []) None, y_stack = [-2]\<rparr>"

text \<open>The stack has its top first; its last frame is never popped.\<close>

fun pop_frames :: "int \<Rightarrow> int list \<Rightarrow> int list" where
  "pop_frames indent (i # j # stk) = (if i \<ge> indent then pop_frames indent (j # stk) else i # j # stk)"
| "pop_frames indent stk = stk"

definition strip_comment :: "string \<Rightarrow> string" where
  "strip_comment raw = (case str_index raw '' #'' of None \<Rightarrow> raw | Some ci \<Rightarrow> take ci raw)"

definition count_indent :: "string \<Rightarrow> nat" where
  "count_indent s = length (takeWhile (\<lambda>c. c = CHR '' '') s)"

definition list_line :: "nat \<Rightarrow> nat \<Rightarrow> string \<Rightarrow> yaml_state \<Rightarrow> yaml_error + yaml_state" where
  "list_line line_no indent body y =
     (let item_body = (if body = ''-'' then [] else trim_space (drop 2 body));
          d = length (y_stack y) - 1;
          parent = node_at d (y_root y)
      in if \<not> is_list parent \<and> is_map parent then Inl (ItemUnderMap line_no)
         else
           let put = (\<lambda>item. update_at d (add_item item) (y_root y)) in
           if item_body = [] then Inr (y\<lparr>y_root := put (Node None (Some []) None)\<rparr>)
           else case split_kv item_body of
             Some (k, v) \<Rightarrow>
               Inr \<lparr>y_root = put (Node None (Some [(k, scalar_from_string v)]) None),
                    y_stack = int indent # y_stack y\<rparr>
           | None \<Rightarrow> Inr (y\<lparr>y_root := put (Node (Some (unquote_yaml item_body)) None None)\<rparr>))"

definition map_line :: "nat \<Rightarrow> nat \<Rightarrow> string \<Rightarrow> yaml_state \<Rightarrow> yaml_error + yaml_state" where
  "map_line line_no indent body y =
     (case split_kv body of
        None \<Rightarrow> Inl (CannotParse line_no)
      | Some (k, v) \<Rightarrow>
          (let d = length (y_stack y) - 1;
               parent = node_at d (y_root y)
           in if \<not> is_map parent \<and> is_list parent then Inl (KeyUnderList line_no)
              else if v = [] then
                Inr \<lparr>y_root = update_at d (add_entry k empty_node) (y_root y), y_stack = int indent # y_stack y\<rparr>
              else Inr (y\<lparr>y_root := update_at d (add_entry k (scalar_from_string v)) (y_root y)\<rparr>)))"

definition yaml_line :: "nat \<Rightarrow> string \<Rightarrow> yaml_state \<Rightarrow> yaml_error + yaml_state" where
  "yaml_line line_no raw0 y =
     (let raw = strip_comment raw0 in
      if has_prefix (trim_space raw) ''#'' then Inr y
      else
        let trimmed = trim_right_set raw [CHR 0x20, CHR 0x09] in
        if trim_space trimmed = [] \<or> trim_space trimmed = ''---'' then Inr y
        else
          let indent = count_indent trimmed in
          if indent mod 2 \<noteq> 0 then Inl (OddIndent line_no)
          else
            let body = drop indent trimmed;
                y' = y\<lparr>y_stack := pop_frames (int indent) (y_stack y)\<rparr>
            in if has_prefix body ''- '' \<or> body = ''-'' then list_line line_no indent body y'
               else map_line line_no indent body y')"

text \<open>
  \<open>bufio.Scanner\<close> with \<open>ScanLines\<close> and a buffer of at most 1 MiB: the lines without their line feed,
  an empty last one not counted, and the error for a line that does not fit. The lines before it
  are processed. A carriage return before the line feed is removed.
\<close>

definition max_token :: nat where "max_token = 1048576"

definition drop_cr :: "string \<Rightarrow> string" where
  "drop_cr s = (if s \<noteq> [] \<and> last s = CHR 0x0D then butlast s else s)"

definition scan_lines :: "string \<Rightarrow> string list" where
  "scan_lines data = (let ls = split_char CHR 0x0A data in if last ls = [] then butlast ls else ls)"

fun yaml_lines :: "nat \<Rightarrow> string list \<Rightarrow> yaml_state \<Rightarrow> yaml_error + yaml_state" where
  "yaml_lines line_no [] y = Inr y"
| "yaml_lines line_no (l # ls) y =
     (if max_token \<le> length l then Inl LineTooLong
      else case yaml_line (Suc line_no) (drop_cr l) y of
        Inl e \<Rightarrow> Inl e
      | Inr y' \<Rightarrow> yaml_lines (Suc line_no) ls y')"

definition parse_yaml_tree :: "string \<Rightarrow> yaml_error + node" where
  "parse_yaml_tree data = map_sum id y_root (yaml_lines 0 (scan_lines data) y_start)"

section \<open>Paths to the last child\<close>

primrec path_ok :: "nat \<Rightarrow> node \<Rightarrow> bool" where
  "path_ok 0 n = True"
| "path_ok (Suc d) n = (case last_child n of None \<Rightarrow> False | Some c \<Rightarrow> path_ok d c)"

lemma last_child_set_last: "last_child n \<noteq> None \<Longrightarrow> last_child (set_last c n) = Some c"
  by (auto simp: last_child_def set_last_def split: option.splits if_splits)

lemma set_last_twice: "last_child n \<noteq> None \<Longrightarrow> set_last c (set_last c' n) = set_last c n"
  by (auto simp: last_child_def set_last_def split: option.splits if_splits)

lemma node_at_update: "path_ok d n \<Longrightarrow> node_at d (update_at d f n) = f (node_at d n)"
  by (induction d arbitrary: n) (auto simp: last_child_set_last split: option.splits)

lemma update_update: "path_ok d n \<Longrightarrow> update_at d f (update_at d g n) = update_at d (\<lambda>x. f (g x)) n"
  by (induction d arbitrary: n) (auto simp: last_child_set_last set_last_twice split: option.splits)

lemma path_ok_update: "path_ok d n \<Longrightarrow> path_ok d (update_at d f n)"
  by (induction d arbitrary: n) (auto simp: last_child_set_last split: option.splits)

lemma path_ok_add: "path_ok (d + e) n \<longleftrightarrow> path_ok d n \<and> path_ok e (node_at d n)"
  by (induction d arbitrary: n) (auto split: option.splits)

lemma node_at_add: "path_ok d n \<Longrightarrow> node_at (d + e) n = node_at e (node_at d n)"
  by (induction d arbitrary: n) (auto split: option.splits)

lemma update_at_add: "path_ok d n \<Longrightarrow> update_at (d + e) f n = update_at d (update_at e f) n"
  by (induction d arbitrary: n) (auto split: option.splits)

lemma path_ok_Suc: "path_ok (Suc d) n \<longleftrightarrow> path_ok d n \<and> last_child (node_at d n) \<noteq> None"
  using path_ok_add [of d 1 n] by (auto split: option.splits)

lemma update_at_cong: "path_ok d n \<Longrightarrow> f (node_at d n) = g (node_at d n) \<Longrightarrow> update_at d f n = update_at d g n"
  by (induction d arbitrary: n) (auto split: option.splits)

lemma node_at_Suc: "path_ok d n \<Longrightarrow> last_child (node_at d n) = Some c \<Longrightarrow> node_at (Suc d) n = c"
  using node_at_add [of d n 1] by simp

lemma update_at_Suc:
  "path_ok d n \<Longrightarrow> last_child (node_at d n) = Some c \<Longrightarrow>
   update_at (Suc d) f n = update_at d (\<lambda>x. set_last (f c) x) n"
  using update_at_add [of d n 1 f] update_at_cong [of d n "update_at 1 f" "\<lambda>x. set_last (f c) x"] by simp

lemma add_entry_child [simp]:
  "last_child (add_entry k c n) = Some c" "set_last c' (add_entry k c n) = add_entry k c' n"
  by (simp_all add: last_child_def set_last_def add_entry_def)

lemma add_item_child [simp]:
  "n_map n = None \<Longrightarrow> last_child (add_item c n) = Some c"
  "n_map n = None \<Longrightarrow> set_last c' (add_item c n) = add_item c' n"
  by (simp_all add: last_child_def set_last_def add_item_def)

lemma pop_pop: "j \<le> i \<Longrightarrow> pop_frames j (pop_frames i stk) = pop_frames j stk"
  by (induction i stk rule: pop_frames.induct) auto

lemma pop_push: "stk \<noteq> [] \<Longrightarrow> pop_frames i (j # stk) = (if i \<le> j then pop_frames i stk else j # stk)"
  by (cases stk) auto

lemma pop_nonempty [simp]: "pop_frames i stk = [] \<longleftrightarrow> stk = []"
  by (induction i stk rule: pop_frames.induct) auto

section \<open>Documents and their text\<close>

text \<open>
  The documents of the subset the configuration uses, and how they are written: two spaces per
  level, a list below its key, the first entry of a list item on the line of its dash, every scalar
  in double quotes.
\<close>

datatype ydoc =
    YScalar string
  | YMap yentries
  | YItems yitems
and yentries =
    ENil
  | ECons string ydoc yentries
and yitems =
    INil
  | IScalar string yitems
  | IMap string string yentries yitems

definition pad :: "nat \<Rightarrow> string" where "pad i = replicate (2 * i) CHR 0x20"

definition quoted :: "string \<Rightarrow> string" where "quoted s = [CHR 0x22] @ s @ [CHR 0x22]"

primrec head_text :: "ydoc \<Rightarrow> string" where
  "head_text (YScalar v) = '' '' @ quoted v"
| "head_text (YMap es) = []"
| "head_text (YItems is) = []"

primrec doc_lines :: "ydoc \<Rightarrow> nat \<Rightarrow> string list"
    and entries_lines :: "yentries \<Rightarrow> nat \<Rightarrow> string list"
    and items_lines :: "yitems \<Rightarrow> nat \<Rightarrow> string list" where
  "doc_lines (YScalar v) i = []"
| "doc_lines (YMap es) i = entries_lines es i"
| "doc_lines (YItems is) i = items_lines is i"
| "entries_lines ENil i = []"
| "entries_lines (ECons k d es) i =
     (pad i @ k @ '':'' @ head_text d) # doc_lines d (Suc i) @ entries_lines es i"
| "items_lines INil i = []"
| "items_lines (IScalar v is) i = (pad i @ ''- '' @ quoted v) # items_lines is i"
| "items_lines (IMap k v es is) i =
     (pad i @ ''- '' @ k @ '': '' @ quoted v) # entries_lines es (Suc i) @ items_lines is i"

definition add_entries :: "(string \<times> node) list \<Rightarrow> node \<Rightarrow> node" where
  "add_entries es n = foldl (\<lambda>n (k, c). add_entry k c n) n es"

definition add_items :: "node list \<Rightarrow> node \<Rightarrow> node" where
  "add_items ns n = foldl (\<lambda>n c. add_item c n) n ns"

definition scalar_node :: "string \<Rightarrow> node" where "scalar_node v = Node (Some v) None None"

primrec doc_tree :: "ydoc \<Rightarrow> node"
    and entries_tree :: "yentries \<Rightarrow> (string \<times> node) list"
    and items_tree :: "yitems \<Rightarrow> node list" where
  "doc_tree (YScalar v) = scalar_node v"
| "doc_tree (YMap es) = add_entries (entries_tree es) empty_node"
| "doc_tree (YItems is) = add_items (items_tree is) empty_node"
| "entries_tree ENil = []"
| "entries_tree (ECons k d es) = (k, doc_tree d) # entries_tree es"
| "items_tree INil = []"
| "items_tree (IScalar v is) = scalar_node v # items_tree is"
| "items_tree (IMap k v es is) =
     add_entries (entries_tree es) (Node None (Some [(k, scalar_node v)]) None) # items_tree is"

text \<open>
  A key is printable without blanks, colons and the characters that start a comment, a quoted scalar
  or an item; a scalar is printable and has no \<open>#\<close> after a blank, and no colon as a list item.
\<close>

definition key_ok :: "string \<Rightarrow> bool" where
  "key_ok k \<longleftrightarrow> k \<noteq> [] \<and> list_all visible k \<and> CHR '':'' \<notin> set k \<and> hd k \<notin> {CHR ''#'', CHR ''-'', CHR 0x22, CHR 0x27}"

definition printable :: "string \<Rightarrow> bool" where
  "printable v \<longleftrightarrow> list_all (\<lambda>c. visible c \<or> c = CHR 0x20) v"

definition value_ok :: "string \<Rightarrow> bool" where
  "value_ok v \<longleftrightarrow> printable v \<and> str_index v '' #'' = None"

primrec doc_ok :: "ydoc \<Rightarrow> bool"
    and entries_ok :: "yentries \<Rightarrow> bool"
    and items_ok :: "yitems \<Rightarrow> bool" where
  "doc_ok (YScalar v) = value_ok v"
| "doc_ok (YMap es) = entries_ok es"
| "doc_ok (YItems is) = items_ok is"
| "entries_ok ENil = True"
| "entries_ok (ECons k d es) = (key_ok k \<and> doc_ok d \<and> entries_ok es)"
| "items_ok INil = True"
| "items_ok (IScalar v is) = (value_ok v \<and> CHR '':'' \<notin> set v \<and> items_ok is)"
| "items_ok (IMap k v es is) = (key_ok k \<and> value_ok v \<and> entries_ok es \<and> items_ok is)"

section \<open>One line\<close>

fun no_hash :: "string \<Rightarrow> bool" where
  "no_hash (c # d # s) = (\<not> (c = CHR 0x20 \<and> d = CHR ''#'') \<and> no_hash (d # s))"
| "no_hash s = True"

lemma no_hash_index: "str_index s '' #'' = None \<longleftrightarrow> no_hash s"
  by (induction s rule: no_hash.induct) (subst str_index.simps; auto simp: str_index.simps)+

lemma no_hash_blank: "no_hash (CHR 0x20 # s) \<longleftrightarrow> no_hash s \<and> (s = [] \<or> hd s \<noteq> CHR ''#'')"
  by (cases s) auto

lemma no_hash_join:
  "no_hash a \<Longrightarrow> no_hash b \<Longrightarrow> b = [] \<or> hd b \<noteq> CHR ''#'' \<Longrightarrow> no_hash (a @ b)"
  by (induction a rule: no_hash.induct) (auto simp: neq_Nil_conv no_hash_blank, (cases b; auto)?)

lemma visible_blank: "\<not> visible CHR 0x20" by (simp add: visible_def byte_def)

lemma no_hash_visible: "list_all visible w \<Longrightarrow> no_hash w"
  by (induction w rule: no_hash.induct) (auto simp: visible_blank)

text \<open>What a line may contain after its indent.\<close>

definition body_ok :: "string \<Rightarrow> bool" where
  "body_ok b \<longleftrightarrow> b \<noteq> [] \<and> printable b \<and> visible (hd b) \<and> visible (last b) \<and> hd b \<noteq> CHR ''#''
     \<and> b \<noteq> ''---'' \<and> no_hash b"

lemma visible_chars [simp]: "\<not> visible CHR 0x20" "visible CHR 0x22" "visible CHR '':''" "visible CHR ''-''"
    "\<not> visible CHR 0x09" "\<not> visible CHR 0x0D" "\<not> visible CHR 0x0A"
  by (simp_all add: visible_def byte_def)

lemma no_hash_pad: "no_hash b \<Longrightarrow> b = [] \<or> hd b \<noteq> CHR ''#'' \<Longrightarrow> no_hash (pad i @ b)"
proof -
  assume "no_hash b" "b = [] \<or> hd b \<noteq> CHR ''#''"
  moreover have "no_hash (replicate n CHR 0x20)" for n
  proof (induction n)
    case (Suc n)
    then show ?case by (cases n) simp_all
  qed simp
  ultimately show ?thesis by (simp add: no_hash_join pad_def)
qed

lemma strip_comment_pad: "body_ok b \<Longrightarrow> strip_comment (pad i @ b) = pad i @ b"
  using no_hash_pad [of b i] no_hash_index [of "pad i @ b"] by (simp add: body_ok_def strip_comment_def)

lemma yaml_line_body:
  assumes b: "body_ok b"
  shows "yaml_line n (pad i @ b) y =
    (let y' = y\<lparr>y_stack := pop_frames (2 * int i) (y_stack y)\<rparr>
     in if has_prefix b ''- '' \<or> b = ''-'' then list_line n (2 * i) b y' else map_line n (2 * i) b y')"
proof -
  have v: "b \<noteq> []" "visible (hd b)" "visible (last b)" using b by (simp_all add: body_ok_def)
  have t: "trim_space (pad i @ b) = b" using trim_space_blanks [OF v] by (simp add: pad_def)
  have r: "trim_right_set (pad i @ b) [CHR 0x20, CHR 0x09] = pad i @ b"
  proof -
    obtain b' c where bc: "b = b' @ [c]" using v(1) by (cases b rule: rev_cases) auto
    then have "c \<noteq> CHR 0x20" "c \<noteq> CHR 0x09" using v(3) by auto
    then show ?thesis by (simp add: trim_right_set_def bc)
  qed
  have "\<not> has_prefix b ''#''" using b v(1) by (cases b) (simp_all add: body_ok_def)
  moreover have "takeWhile (\<lambda>c. c = CHR 0x20) (pad i @ b) = pad i"
  proof -
    have "takeWhile (\<lambda>c. c = CHR 0x20) b = []" using v by (cases b) auto
    then show ?thesis by (simp add: pad_def takeWhile_append)
  qed
  then have "count_indent (pad i @ b) = 2 * i" by (simp add: count_indent_def pad_def)
  moreover have "drop (2 * i) (pad i @ b) = b" by (simp add: pad_def)
  ultimately show ?thesis
    using b by (simp add: yaml_line_def strip_comment_pad t r Let_def body_ok_def)
qed

lemma body_ok_quoted:
  assumes "body_ok w" "value_ok v"
  shows "body_ok (w @ '' '' @ quoted v)"
proof -
  have "no_hash (v @ [CHR 0x22])" using assms(2) by (intro no_hash_join) (simp_all add: value_ok_def no_hash_index)
  then have "no_hash ([CHR 0x22] @ v @ [CHR 0x22])" by (cases v) simp_all
  then have "no_hash ('' '' @ quoted v)" by (simp add: quoted_def no_hash_blank)
  then have "no_hash (w @ '' '' @ quoted v)"
    using assms(1) no_hash_join [of w "'' '' @ quoted v"] by (simp add: body_ok_def)
  then show ?thesis using assms
    by (auto simp: body_ok_def printable_def quoted_def value_ok_def)
qed

lemma body_ok_visible:
  "w \<noteq> [] \<Longrightarrow> list_all visible w \<Longrightarrow> hd w \<noteq> CHR ''#'' \<Longrightarrow> w \<noteq> ''---'' \<Longrightarrow> body_ok w"
  by (auto simp: body_ok_def printable_def list_all_iff no_hash_visible)

lemma body_ok_item: "body_ok b \<Longrightarrow> body_ok (''- '' @ b)"
  by (cases b) (auto simp: body_ok_def printable_def)

lemma key_colon_ok: "key_ok k \<Longrightarrow> body_ok (k @ '':'')"
  by (rule body_ok_visible) (auto simp: key_ok_def)

section \<open>Entries and items\<close>

lemma quoted_text: "trim_space (CHR 0x20 # quoted v) = quoted v" "trim_space (quoted v) = quoted v"
    "unquote_yaml (quoted v) = v" "quoted v \<noteq> []"
proof -
  have q: "quoted v \<noteq> []" "visible (hd (quoted v))" "visible (last (quoted v))" by (simp_all add: quoted_def)
  show "trim_space (CHR 0x20 # quoted v) = quoted v" using trim_space_blanks [OF q, of 1] by simp
  show "trim_space (quoted v) = quoted v" by (rule trim_space_visible [OF q])
qed (simp_all add: unquote_yaml_def quoted_def)

lemma split_kv_key:
  assumes "key_ok k"
  shows "split_kv (k @ '':'' @ t) = Some (k, trim_space t)"
proof -
  have "str_index (k @ '':'' @ t) '':'' = Some (length k)"
    using str_index_skip [of "CHR '':''" k t "[]"] assms by (simp add: key_ok_def str_index_here)
  moreover have "visible (hd k)" "visible (last k)" "k \<noteq> []"
    using assms by (auto simp: key_ok_def list_all_iff)
  ultimately show ?thesis by (simp add: split_kv_def trim_space_visible)
qed

lemma split_kv_none: "CHR '':'' \<notin> set s \<Longrightarrow> split_kv s = None"
  by (auto simp: split_kv_def str_index_none split: option.split)

lemma key_not_item: "key_ok k \<Longrightarrow> \<not> has_prefix (k @ t) ''- ''" "key_ok k \<Longrightarrow> k @ '':'' @ t \<noteq> ''-''"
  by (cases k; auto simp: key_ok_def)+

text \<open>The three kinds of lines of a document, on a stack whose top is the parent after popping.\<close>

lemma entry_line:
  assumes "key_ok k" "doc_ok d" "pop_frames (2 * int i) stk = stk'" "D = length stk' - 1"
    and "is_map (node_at D r) \<or> \<not> is_list (node_at D r)"
  shows "yaml_line n (pad i @ k @ '':'' @ head_text d) \<lparr>y_root = r, y_stack = stk\<rparr> =
    Inr (case d of
        YScalar v \<Rightarrow> \<lparr>y_root = update_at D (add_entry k (scalar_node v)) r, y_stack = stk'\<rparr>
      | _ \<Rightarrow> \<lparr>y_root = update_at D (add_entry k empty_node) r, y_stack = 2 * int i # stk'\<rparr>)"
proof -
  have b: "body_ok (k @ '':'' @ head_text d)"
    using key_colon_ok [OF assms(1)] body_ok_quoted [of "k @ '':''"] assms(2) by (cases d) simp_all
  have n: "\<not> (has_prefix (k @ '':'' @ head_text d) ''- '' \<or> k @ '':'' @ head_text d = ''-'')"
    using key_not_item [OF assms(1)] by blast
  have t: "split_kv (k @ '':'' @ head_text d) = Some (k, case d of YScalar v \<Rightarrow> quoted v | _ \<Rightarrow> [])"
    unfolding split_kv_key [OF assms(1)] by (cases d) (simp_all add: quoted_text)
  show ?thesis
    unfolding yaml_line_body [OF b] Let_def if_not_P [OF n] map_line_def t using assms(3-5)
    by (cases d) (auto simp: quoted_text scalar_from_string_def scalar_node_def Let_def)
qed

lemma scalar_item_line:
  assumes "value_ok v" "CHR '':'' \<notin> set v" "pop_frames (2 * int i) stk = stk'" "D = length stk' - 1"
    and "\<not> is_map (node_at D r)"
  shows "yaml_line n (pad i @ ''- '' @ quoted v) \<lparr>y_root = r, y_stack = stk\<rparr> =
    Inr \<lparr>y_root = update_at D (add_item (scalar_node v)) r, y_stack = stk'\<rparr>"
proof -
  have "body_ok ''-''" by (rule body_ok_visible) simp_all
  from body_ok_quoted [OF this assms(1)] have b: "body_ok (''- '' @ quoted v)" by simp
  have "split_kv (quoted v) = None" using assms(2) by (intro split_kv_none) (simp add: quoted_def)
  then show ?thesis unfolding yaml_line_body [OF b] Let_def using assms(3-5)
    by (simp add: list_line_def quoted_text scalar_node_def Let_def)
qed

lemma map_item_line:
  assumes "key_ok k" "value_ok v" "pop_frames (2 * int i) stk = stk'" "D = length stk' - 1"
    and "\<not> is_map (node_at D r)"
  shows "yaml_line n (pad i @ ''- '' @ k @ '': '' @ quoted v) \<lparr>y_root = r, y_stack = stk\<rparr> =
    Inr \<lparr>y_root = update_at D (add_item (Node None (Some [(k, scalar_node v)]) None)) r,
         y_stack = 2 * int i # stk'\<rparr>"
proof -
  have kv: "body_ok (k @ '':'' @ '' '' @ quoted v)"
    using body_ok_quoted [OF key_colon_ok [OF assms(1)] assms(2)] by simp
  then have b: "body_ok (''- '' @ k @ '': '' @ quoted v)" using body_ok_item by fastforce
  have t: "trim_space (k @ '': '' @ quoted v) = k @ '': '' @ quoted v"
    using kv by (intro trim_space_visible) (auto simp: body_ok_def)
  have s: "split_kv (k @ '': '' @ quoted v) = Some (k, quoted v)"
    using split_kv_key [OF assms(1), of "'' '' @ quoted v"] by (simp add: quoted_text)
  show ?thesis unfolding yaml_line_body [OF b] Let_def using assms(3-5) t s
    by (simp add: list_line_def quoted_text scalar_node_def scalar_from_string_def Let_def)
qed

section \<open>Reading a document back\<close>

definition lines_ok :: "string list \<Rightarrow> bool" where
  "lines_ok ls \<longleftrightarrow> list_all (\<lambda>l. length l < max_token \<and> drop_cr l = l) ls"

lemma lines_ok_simps [simp]:
  "lines_ok []" "lines_ok (l # ls) \<longleftrightarrow> length l < max_token \<and> drop_cr l = l \<and> lines_ok ls"
  "lines_ok (xs @ ys) \<longleftrightarrow> lines_ok xs \<and> lines_ok ys"
  by (simp_all add: lines_ok_def)

lemma yaml_lines_Cons:
  "lines_ok (l # ls) \<Longrightarrow> yaml_line (Suc n) l y = Inr y' \<Longrightarrow> yaml_lines n ((l # ls) @ rest) y = yaml_lines (Suc n) (ls @ rest) y'"
  by simp

lemma add_entries_simps [simp]:
  "add_entries [] n = n" "add_entries ((k, c) # es) n = add_entries es (add_entry k c n)"
  "add_items [] n = n" "add_items (c # ns) n = add_items ns (add_item c n)"
  by (simp_all add: add_entries_def add_items_def)

lemma node_kind [simp]:
  "is_map (add_entry k c n)" "is_list (add_entry k c n) = is_list n"
  "is_list (add_item c n)" "is_map (add_item c n) = is_map n"
  "\<not> is_map empty_node" "\<not> is_list empty_node" "is_map (Node s (Some es) l)" "\<not> is_list (Node s m None)"
  by (simp_all add: is_map_def is_list_def add_entry_def add_item_def empty_node_def)

lemma n_map_kind: "\<not> is_map n \<Longrightarrow> n_map n = None" by (simp add: is_map_def)

text \<open>
  Where a block may start: the stack pops to the frame of its parent, which the path reaches, with a
  node of the right kind.
\<close>

definition at_block :: "bool \<Rightarrow> nat \<Rightarrow> int list \<Rightarrow> int list \<Rightarrow> node \<Rightarrow> bool" where
  "at_block entries i stk stk' r \<longleftrightarrow> stk \<noteq> [] \<and> pop_frames (2 * int i) stk = stk'
     \<and> path_ok (length stk' - 1) r
     \<and> (if entries then \<not> is_list (node_at (length stk' - 1) r) else \<not> is_map (node_at (length stk' - 1) r))"

text \<open>What reading a block amounts to: the lines are consumed, the node of the parent is filled.\<close>

definition reads :: "string list \<Rightarrow> nat \<Rightarrow> (node \<Rightarrow> node) \<Rightarrow> int list \<Rightarrow> int list \<Rightarrow> node \<Rightarrow> bool" where
  "reads ls i f stk stk' r \<longleftrightarrow>
     (\<forall>n rest. \<exists>stk2. stk2 \<noteq> [] \<and> pop_frames (2 * int i) stk2 = stk' \<and>
        yaml_lines n (ls @ rest) \<lparr>y_root = r, y_stack = stk\<rparr> =
        yaml_lines (n + length ls) rest \<lparr>y_root = update_at (length stk' - 1) f r, y_stack = stk2\<rparr>)"

lemma update_at_id: "path_ok d r \<Longrightarrow> update_at d (\<lambda>n. n) r = r"
proof (induction d arbitrary: r)
  case (Suc d)
  then show ?case
    by (auto simp: set_last_def last_child_def split: option.splits if_splits)
      (simp_all add: node.expand prod.collapse)
qed simp

lemma reads_Nil: "at_block b i stk stk' r \<Longrightarrow> reads [] i (\<lambda>n. n) stk stk' r"
  by (auto simp: reads_def at_block_def update_at_id)

lemma reads_line:
  assumes "at_block b i stk stk' r" "lines_ok [l]"
    and "\<And>n. yaml_line n l \<lparr>y_root = r, y_stack = stk\<rparr> = Inr \<lparr>y_root = update_at (length stk' - 1) f r, y_stack = stk'\<rparr>"
  shows "reads [l] i f stk stk' r"
proof -
  have "stk' \<noteq> []" "pop_frames (2 * int i) stk' = stk'"
    using assms(1) by (auto simp: at_block_def pop_pop)
  then show ?thesis using assms(2,3) by (auto simp: reads_def)
qed

lemma reads_cong:
  assumes "at_block b i stk stk' r" "f (node_at (length stk' - 1) r) = g (node_at (length stk' - 1) r)"
  shows "reads ls i f stk stk' r = reads ls i g stk stk' r"
proof -
  have "update_at (length stk' - 1) f r = update_at (length stk' - 1) g r"
    using assms by (intro update_at_cong) (simp_all add: at_block_def)
  then show ?thesis by (simp add: reads_def)
qed

text \<open>One block after another at the same level.\<close>

lemma reads_append:
  assumes "at_block b i stk stk' r" "reads xs i f stk stk' r"
    and "\<And>stk2. at_block b i stk2 stk' (update_at (length stk' - 1) f r) \<Longrightarrow>
           reads ys i g stk2 stk' (update_at (length stk' - 1) f r)"
    and "\<And>n. (if b then is_list (f n) = is_list n else is_map (f n) = is_map n)"
  shows "reads (xs @ ys) i (\<lambda>n. g (f n)) stk stk' r"
  unfolding reads_def
proof (intro allI)
  fix n rest
  have p: "path_ok (length stk' - 1) r" using assms(1) by (simp add: at_block_def)
  obtain stk2 where s2: "stk2 \<noteq> []" "pop_frames (2 * int i) stk2 = stk'"
      "yaml_lines n (xs @ ys @ rest) \<lparr>y_root = r, y_stack = stk\<rparr> =
       yaml_lines (n + length xs) (ys @ rest) \<lparr>y_root = update_at (length stk' - 1) f r, y_stack = stk2\<rparr>"
    using assms(2) unfolding reads_def by blast
  have "at_block b i stk2 stk' (update_at (length stk' - 1) f r)"
    using assms(1,4) s2 by (auto simp: at_block_def path_ok_update node_at_update)
  from assms(3) [OF this] obtain stk3 where "stk3 \<noteq> []" "pop_frames (2 * int i) stk3 = stk'"
      "yaml_lines (n + length xs) (ys @ rest) \<lparr>y_root = update_at (length stk' - 1) f r, y_stack = stk2\<rparr> =
       yaml_lines (n + length xs + length ys) rest
         \<lparr>y_root = update_at (length stk' - 1) g (update_at (length stk' - 1) f r), y_stack = stk3\<rparr>"
    unfolding reads_def by blast
  then show "\<exists>stk2. stk2 \<noteq> [] \<and> pop_frames (2 * int i) stk2 = stk' \<and>
      yaml_lines n ((xs @ ys) @ rest) \<lparr>y_root = r, y_stack = stk\<rparr> =
      yaml_lines (n + length (xs @ ys)) rest
        \<lparr>y_root = update_at (length stk' - 1) (\<lambda>n. g (f n)) r, y_stack = stk2\<rparr>"
    using s2(3) p by (intro exI [of _ stk3]) (simp add: update_update add.assoc)
qed

text \<open>A line that opens a node, followed by the block of that node one level deeper.\<close>

lemma reads_open:
  assumes "at_block b i stk stk' r" "lines_ok [l]"
    and "\<And>n. yaml_line n l \<lparr>y_root = r, y_stack = stk\<rparr> =
           Inr \<lparr>y_root = update_at (length stk' - 1) (add c) r, y_stack = 2 * int i # stk'\<rparr>"
    and "last_child (add c (node_at (length stk' - 1) r)) = Some c"
    and "\<And>c'. set_last c' (add c (node_at (length stk' - 1) r)) = add c' (node_at (length stk' - 1) r)"
    and "if e then \<not> is_list c else \<not> is_map c"
    and "\<And>r'. at_block e (Suc i) (2 * int i # stk') (2 * int i # stk') r' \<Longrightarrow>
           node_at (length (2 * int i # stk') - 1) r' = c \<Longrightarrow>
           reads ls (Suc i) f (2 * int i # stk') (2 * int i # stk') r'"
  shows "reads (l # ls) i (add (f c)) stk stk' r"
  unfolding reads_def
proof (intro allI)
  fix n rest
  let ?d = "length stk' - 1" let ?s = "2 * int i # stk'" let ?r = "update_at ?d (add c) r"
  have p: "path_ok ?d r" and ne: "stk' \<noteq> []" and pp: "pop_frames (2 * int i) stk' = stk'"
    using assms(1) by (auto simp: at_block_def pop_pop)
  have d: "length ?s - 1 = Suc ?d" using ne by (cases stk') simp_all
  have a: "node_at ?d ?r = add c (node_at ?d r)" "path_ok ?d ?r"
    using p by (simp_all add: node_at_update path_ok_update)
  have nc: "node_at (Suc ?d) ?r = c" using a assms(4) by (intro node_at_Suc) simp_all
  moreover have "path_ok (Suc ?d) ?r" using a assms(4) by (simp add: path_ok_Suc del: path_ok.simps)
  ultimately have "at_block e (Suc i) ?s ?s ?r"
    using ne assms(6) by (simp add: at_block_def pop_push d del: length_Cons node_at.simps path_ok.simps)
  from assms(7) [OF this] nc obtain stk2 where s2: "stk2 \<noteq> []" "pop_frames (2 * int (Suc i)) stk2 = ?s"
      "yaml_lines (Suc n) (ls @ rest) \<lparr>y_root = ?r, y_stack = ?s\<rparr> =
       yaml_lines (Suc n + length ls) rest \<lparr>y_root = update_at (Suc ?d) f ?r, y_stack = stk2\<rparr>"
    unfolding reads_def d by blast
  have "pop_frames (2 * int i) stk2 = pop_frames (2 * int i) ?s"
    using pop_pop [of "2 * int i" "2 * int (Suc i)" stk2] s2(2) by simp
  then have st: "pop_frames (2 * int i) stk2 = stk'" using ne pp by (simp add: pop_push)
  have "update_at (Suc ?d) f ?r = update_at ?d (\<lambda>x. set_last (f c) x) ?r"
    using a assms(4) by (intro update_at_Suc) simp_all
  moreover have "update_at ?d (\<lambda>x. set_last (f c) x) ?r = update_at ?d (add (f c)) r"
    unfolding update_update [OF p] by (rule update_at_cong [OF p]) (rule assms(5))
  ultimately have "update_at (Suc ?d) f ?r = update_at ?d (add (f c)) r" by (rule trans)
  note this st
  then show "\<exists>stk2. stk2 \<noteq> [] \<and> pop_frames (2 * int i) stk2 = stk' \<and>
      yaml_lines n ((l # ls) @ rest) \<lparr>y_root = r, y_stack = stk\<rparr> =
      yaml_lines (n + length (l # ls)) rest \<lparr>y_root = update_at ?d (add (f c)) r, y_stack = stk2\<rparr>"
    using s2 assms(2,3) by (intro exI [of _ stk2]) simp
qed

lemma drop_cr_quoted: "drop_cr (p @ quoted v) = p @ quoted v" "drop_cr (p @ q @ quoted v) = p @ q @ quoted v"
  by (simp_all add: drop_cr_def quoted_def)

lemma reads_doc:
  "doc_ok d \<Longrightarrow> lines_ok (doc_lines d i) \<Longrightarrow> at_block e i stk stk' r \<Longrightarrow>
     node_at (length stk' - 1) r = empty_node \<Longrightarrow> (case d of YScalar v \<Rightarrow> False | _ \<Rightarrow> True) \<Longrightarrow>
     reads (doc_lines d i) i (\<lambda>_. doc_tree d) stk stk' r"
  and reads_entries:
  "entries_ok es \<Longrightarrow> lines_ok (entries_lines es i) \<Longrightarrow> at_block True i stk stk' r \<Longrightarrow>
     reads (entries_lines es i) i (add_entries (entries_tree es)) stk stk' r"
  and reads_items:
  "items_ok is \<Longrightarrow> lines_ok (items_lines is i) \<Longrightarrow> at_block False i stk stk' r \<Longrightarrow>
     reads (items_lines is i) i (add_items (items_tree is)) stk stk' r"
proof (induction d and es and "is" arbitrary: i e stk stk' r and i stk stk' r and i stk stk' r)
  case (YScalar v)
  then show ?case by simp
next
  case (YMap es)
  then have b: "at_block True i stk stk' r" by (simp add: at_block_def)
  from YMap(1) [OF _ _ b] YMap(2,3) have "reads (entries_lines es i) i (add_entries (entries_tree es)) stk stk' r" by simp
  then show ?case
    using reads_cong [OF b, of "add_entries (entries_tree es)" "\<lambda>_. doc_tree (YMap es)"] YMap(5) by simp
next
  case (YItems "is")
  then have b: "at_block False i stk stk' r" by (simp add: at_block_def)
  from YItems(1) [OF _ _ b] YItems(2,3) have "reads (items_lines is i) i (add_items (items_tree is)) stk stk' r" by simp
  then show ?case
    using reads_cong [OF b, of "add_items (items_tree is)" "\<lambda>_. doc_tree (YItems is)"] YItems(5) by simp
next
  case ENil
  then show ?case using reads_Nil by (simp add: add_entries_def)
next
  case (ECons k d es)
  let ?l = "pad i @ k @ '':'' @ head_text d"
  have ok: "key_ok k" "doc_ok d" "entries_ok es" "lines_ok [?l]" "lines_ok (doc_lines d (Suc i))"
    using ECons(3,4) by simp_all
  have b: "is_map (node_at (length stk' - 1) r) \<or> \<not> is_list (node_at (length stk' - 1) r)"
    "pop_frames (2 * int i) stk = stk'"
    using ECons(5) by (simp_all add: at_block_def)
  note line = entry_line [OF ok(1,2) b(2) refl b(1)]
  have "reads (?l # doc_lines d (Suc i)) i (add_entry k (doc_tree d)) stk stk' r"
  proof (cases "case d of YScalar v \<Rightarrow> True | _ \<Rightarrow> False")
    case True
    then obtain v where d: "d = YScalar v" by (cases d) simp_all
    show ?thesis using reads_line [OF ECons(5) ok(4), of "add_entry k (doc_tree d)"] line by (simp add: d)
  next
    case False
    then have o: "case d of YScalar v \<Rightarrow> False | _ \<Rightarrow> True" by (cases d) simp_all
    show ?thesis
    proof (rule reads_open [where add = "add_entry k" and c = empty_node and e = True
          and f = "\<lambda>_. doc_tree d" and ls = "doc_lines d (Suc i)", OF ECons(5) ok(4)])
      show "yaml_line n ?l \<lparr>y_root = r, y_stack = stk\<rparr> =
          Inr \<lparr>y_root = update_at (length stk' - 1) (add_entry k empty_node) r, y_stack = 2 * int i # stk'\<rparr>" for n
        using line o by (cases d) simp_all
    next
      fix r' assume "at_block True (Suc i) (2 * int i # stk') (2 * int i # stk') r'"
        "node_at (length (2 * int i # stk') - 1) r' = empty_node"
      from ECons(1) [OF ok(2,5) this o]
      show "reads (doc_lines d (Suc i)) (Suc i) (\<lambda>_. doc_tree d) (2 * int i # stk') (2 * int i # stk') r'" .
    qed simp_all
  qed
  from reads_append [OF ECons(5) this, of "entries_lines es i" "add_entries (entries_tree es)"] ECons(2) ok(3) ECons(4)
  show ?case by simp
next
  case INil
  then show ?case using reads_Nil by (simp add: add_items_def)
next
  case (IScalar v "is")
  let ?l = "pad i @ ''- '' @ quoted v"
  have ok: "value_ok v" "CHR '':'' \<notin> set v" "items_ok is" "lines_ok [?l]" using IScalar(2,3) by simp_all
  have b: "\<not> is_map (node_at (length stk' - 1) r)" "pop_frames (2 * int i) stk = stk'"
    using IScalar(4) by (simp_all add: at_block_def)
  have "reads [?l] i (add_item (scalar_node v)) stk stk' r"
    using reads_line [OF IScalar(4) ok(4), of "add_item (scalar_node v)"]
      scalar_item_line [OF ok(1,2) b(2) refl b(1)] by simp
  from reads_append [OF IScalar(4) this, of "items_lines is i" "add_items (items_tree is)"] IScalar(1) ok(3) IScalar(3)
  show ?case by simp
next
  case (IMap k v es "is")
  let ?l = "pad i @ ''- '' @ k @ '': '' @ quoted v"
  let ?c = "Node None (Some [(k, scalar_node v)]) None"
  have ok: "key_ok k" "value_ok v" "entries_ok es" "items_ok is" "lines_ok [?l]" "lines_ok (entries_lines es (Suc i))"
    using IMap(3,4) by simp_all
  have b: "\<not> is_map (node_at (length stk' - 1) r)" "pop_frames (2 * int i) stk = stk'"
    using IMap(5) by (simp_all add: at_block_def)
  have "reads (?l # entries_lines es (Suc i)) i (add_item (add_entries (entries_tree es) ?c)) stk stk' r"
  proof (rule reads_open [where add = add_item and c = ?c and e = True and f = "add_entries (entries_tree es)"
        and ls = "entries_lines es (Suc i)", OF IMap(5) ok(5)])
    show "yaml_line n ?l \<lparr>y_root = r, y_stack = stk\<rparr> =
        Inr \<lparr>y_root = update_at (length stk' - 1) (add_item ?c) r, y_stack = 2 * int i # stk'\<rparr>" for n
      by (rule map_item_line [OF ok(1,2) b(2) refl b(1)])
  next
    fix r' assume "at_block True (Suc i) (2 * int i # stk') (2 * int i # stk') r'"
    from IMap(1) [OF ok(3,6) this]
    show "reads (entries_lines es (Suc i)) (Suc i) (add_entries (entries_tree es)) (2 * int i # stk') (2 * int i # stk') r'" .
  qed (use b(1) in \<open>simp_all add: n_map_kind\<close>)
  from reads_append [OF IMap(5) this, of "items_lines is i" "add_items (items_tree is)"] IMap(2) ok(4) IMap(4)
  show ?case by simp
qed

section \<open>Properties\<close>

lemma scan_join_lines: "\<forall>l \<in> set ls. CHR 0x0A \<notin> set l \<Longrightarrow> scan_lines (join_lines ls) = ls"
  by (simp add: scan_lines_def split_char_join Let_def)

text \<open>The bytes of a line that is neither split nor shortened by the scanner.\<close>

definition clean_line :: "string \<Rightarrow> bool" where
  "clean_line l \<longleftrightarrow> list_all (\<lambda>c. visible c \<or> c = CHR 0x20) l"

lemma clean_line_scan: "clean_line l \<Longrightarrow> CHR 0x0A \<notin> set l \<and> drop_cr l = l"
  by (cases l rule: rev_cases) (auto simp: clean_line_def drop_cr_def list_all_iff)

lemma clean_parts: "clean_line (x @ y) \<longleftrightarrow> clean_line x \<and> clean_line y" "clean_line (pad i)" "clean_line []"
    "clean_line (c # x) \<longleftrightarrow> (visible c \<or> c = CHR 0x20) \<and> clean_line x"
    "key_ok k \<Longrightarrow> clean_line k" "value_ok v \<Longrightarrow> clean_line (quoted v)"
  by (auto simp: clean_line_def pad_def key_ok_def value_ok_def printable_def quoted_def list_all_iff)

lemma doc_lines_clean: "doc_ok d \<Longrightarrow> list_all clean_line (doc_lines d i)"
  and entries_lines_clean: "entries_ok es \<Longrightarrow> list_all clean_line (entries_lines es i)"
  and items_lines_clean: "items_ok is \<Longrightarrow> list_all clean_line (items_lines is i)"
proof (induction d and es and "is" arbitrary: i and i and i)
  case (ECons k d es)
  then show ?case by (cases d) (simp_all add: clean_parts)
qed (simp_all add: clean_parts)

lemma clean_lines_ok: "list_all clean_line ls \<Longrightarrow> \<forall>l \<in> set ls. length l < max_token \<Longrightarrow> lines_ok ls"
  by (auto simp: lines_ok_def list_all_iff clean_line_scan)

lemma parse_join_lines:
  "list_all clean_line ls \<Longrightarrow> parse_yaml_tree (join_lines ls) = map_sum id y_root (yaml_lines 0 ls y_start)"
  by (simp add: parse_yaml_tree_def scan_join_lines clean_line_scan list_all_iff)

lemma add_entries_node: "add_entries ts (Node s (Some es) l) = Node s (Some (es @ ts)) l"
  by (induction ts arbitrary: es) (auto simp: add_entry_def)

lemma parse_document:
  assumes "entries_ok es" and "\<forall>l \<in> set (entries_lines es 0). length l < max_token"
  shows "parse_yaml_tree (join_lines (entries_lines es 0)) = Inr (Node None (Some (entries_tree es)) None)"
proof -
  let ?ls = "entries_lines es 0"
  have c: "list_all clean_line ?ls" by (rule entries_lines_clean [OF assms(1)])
  have b: "at_block True 0 [-2] [-2] (Node None (Some []) None)"
    by (simp add: at_block_def is_list_def)
  from reads_entries [OF assms(1) clean_lines_ok [OF c assms(2)] b, unfolded reads_def, rule_format, of 0 "[]"]
  obtain stk where "yaml_lines 0 (?ls @ []) \<lparr>y_root = Node None (Some []) None, y_stack = [-2]\<rparr> =
      yaml_lines (0 + length ?ls) [] \<lparr>y_root = update_at 0 (add_entries (entries_tree es)) (Node None (Some []) None), y_stack = stk\<rparr>"
    by auto
  then show ?thesis
    by (simp add: parse_join_lines [OF c] y_start_def add_entries_node)
qed

text \<open>C13. Every document of the subset (nested maps, lists of scalars and of maps, quoted scalars) is read
  back as its tree: the keys in order, every block below its key, every list item with its entries.\<close>

theorem yaml_roundtrip:
  assumes "entries_ok es" and "\<forall>l \<in> set (entries_lines es 0). length l < max_token"
  shows "parse_yaml_tree (join_lines (entries_lines es 0)) = Inr (Node None (Some (entries_tree es)) None)"
  by (rule parse_document [OF assms])

definition demo_doc :: yentries where
  "demo_doc = ECons ''remote_write'' (YItems (IMap ''url'' ''https://h/w''
     (ECons ''basic_auth'' (YMap (ECons ''username'' (YScalar ''u'') ENil)) ENil) INil)) ENil"

lemma visible_word: "visible c \<longleftrightarrow> 33 \<le> (of_char c :: nat) \<and> (of_char c :: nat) \<le> 126"
  by (simp add: visible_def byte_def)

lemma demo_doc_ok: "entries_ok demo_doc"
  by (simp add: demo_doc_def key_ok_def value_ok_def printable_def no_hash_index visible_word)

theorem yaml_roundtrip_witness:
  "parse_yaml_tree (''remote_write:'' @ [CHR 0x0A] @ ''  - url: '' @ quoted ''https://h/w'' @ [CHR 0x0A]
     @ ''    basic_auth:'' @ [CHR 0x0A] @ ''      username: '' @ quoted ''u'' @ [CHR 0x0A]) =
   Inr (Node None (Some [(''remote_write'', Node None None (Some
     [Node None (Some [(''url'', scalar_node ''https://h/w''),
        (''basic_auth'', Node None (Some [(''username'', scalar_node ''u'')]) None)]) None]))]) None)"
proof -
  note ok = demo_doc_ok
  have ls: "entries_lines demo_doc 0 = [''remote_write:'', ''  - url: '' @ quoted ''https://h/w'', ''    basic_auth:'',
      ''      username: '' @ quoted ''u'']"
    by (simp add: demo_doc_def pad_def numeral_eq_Suc)
  then have "\<forall>l \<in> set (entries_lines demo_doc 0). length l < max_token"
    by (simp add: max_token_def quoted_def)
  from yaml_roundtrip [OF ok this] show ?thesis
    unfolding ls by (simp add: join_lines_def demo_doc_def add_entry_def add_item_def empty_node_def)
qed

text \<open>The state after a list item whose first key opens a block of one entry.\<close>

lemma flattened_block:
  assumes "key_ok r" "key_ok k" "key_ok k2" "value_ok v"
    and "length r + length k + length k2 + length v < 1000"
  shows "list_all clean_line [r @ '':'', ''  - '' @ k @ '':'', ''      '' @ k2 @ '': '' @ quoted v]"
    and "yaml_lines 0 [r @ '':'', ''  - '' @ k @ '':'', ''      '' @ k2 @ '': '' @ quoted v] y_start =
      Inr \<lparr>y_root = Node None (Some [(r, Node None None (Some
        [Node None (Some [(k, scalar_node []), (k2, scalar_node v)]) None]))]) None, y_stack = [2, 0, -2]\<rparr>"
proof -
  let ?l1 = "pad 0 @ r @ '':'' @ head_text (YMap ENil)" and ?l2 = "pad 1 @ ''- '' @ k @ '':''"
    and ?l3 = "pad 3 @ k2 @ '':'' @ head_text (YScalar v)"
  have e: "[r @ '':'', ''  - '' @ k @ '':'', ''      '' @ k2 @ '': '' @ quoted v] = [?l1, ?l2, ?l3]"
    by (simp add: pad_def numeral_eq_Suc)
  have c: "list_all clean_line [?l1, ?l2, ?l3]" using assms by (simp add: clean_parts)
  then show "list_all clean_line [r @ '':'', ''  - '' @ k @ '':'', ''      '' @ k2 @ '': '' @ quoted v]" unfolding e .
  have "\<forall>l \<in> set [?l1, ?l2, ?l3]. length l < max_token" using assms(5) by (simp add: pad_def quoted_def max_token_def)
  with c have ok: "lines_ok [?l1, ?l2, ?l3]" by (rule clean_lines_ok)
  let ?r1 = "Node None (Some [(r, empty_node)]) None"
  let ?r2 = "Node None (Some [(r, Node None None (Some [Node None (Some [(k, scalar_node [])]) None]))]) None"
  have 1: "yaml_line 1 ?l1 \<lparr>y_root = Node None (Some []) None, y_stack = [-2]\<rparr> = Inr \<lparr>y_root = ?r1, y_stack = [0, -2]\<rparr>"
    using entry_line [OF assms(1), of "YMap ENil" 0 "[-2]" "[-2]" 0 "Node None (Some []) None" 1]
    by (simp add: add_entry_def)
  have b: "body_ok (''- '' @ k @ '':'')" by (rule body_ok_item) (rule key_colon_ok [OF assms(2)])
  have t: "trim_space (k @ '':'') = k @ '':''"
    using key_colon_ok [OF assms(2)] by (intro trim_space_visible) (auto simp: body_ok_def)
  have 2: "yaml_line 2 ?l2 \<lparr>y_root = ?r1, y_stack = [0, -2]\<rparr> = Inr \<lparr>y_root = ?r2, y_stack = [2, 0, -2]\<rparr>"
    unfolding yaml_line_body [OF b] Let_def using t split_kv_key [OF assms(2), of "[]"]
    by (simp add: list_line_def Let_def add_item_def empty_node_def last_child_def set_last_def
        scalar_from_string_def scalar_node_def unquote_yaml_def is_map_def)
  have 3: "yaml_line 3 ?l3 \<lparr>y_root = ?r2, y_stack = [2, 0, -2]\<rparr> = Inr \<lparr>y_root =
      Node None (Some [(r, Node None None (Some
      [Node None (Some [(k, scalar_node []), (k2, scalar_node v)]) None]))]) None, y_stack = [2, 0, -2]\<rparr>"
    using entry_line [OF assms(3), of "YScalar v" 3 "[2, 0, -2]" "[2, 0, -2]" 2 ?r2 3] assms(4)
    by (simp add: add_entry_def last_child_def set_last_def numeral_2_eq_2)
  show "yaml_lines 0 [r @ '':'', ''  - '' @ k @ '':'', ''      '' @ k2 @ '': '' @ quoted v] y_start =
      Inr \<lparr>y_root = Node None (Some [(r, Node None None (Some
        [Node None (Some [(k, scalar_node []), (k2, scalar_node v)]) None]))]) None, y_stack = [2, 0, -2]\<rparr>"
    unfolding e using ok 1 2 3
    by (auto simp: y_start_def simp del: head_text.simps) (simp add: numeral_2_eq_2 numeral_3_eq_3)
qed

lemma yaml_lines_single:
  "clean_line l \<Longrightarrow> length l < max_token \<Longrightarrow> yaml_line (Suc n) l y = Inr y' \<Longrightarrow> yaml_lines n [l] y = Inr y'"
  by (simp add: clean_line_scan)

lemma yaml_lines_append:
  "yaml_lines n (xs @ ys) y = (case yaml_lines n xs y of Inl e \<Rightarrow> Inl e | Inr y' \<Rightarrow> yaml_lines (n + length xs) ys y')"
  by (induction xs arbitrary: n y) (auto split: sum.split)

text \<open>A block below the first key of a list item is not attached to that key: its entries become entries
  of the item itself, and the key is an empty scalar.\<close>

theorem block_under_first_item_key_is_flattened:
  assumes "key_ok r" "key_ok k" "key_ok k2" "value_ok v"
    and "length r + length k + length k2 + length v < 1000"
  shows "parse_yaml_tree (join_lines [r @ '':'', ''  - '' @ k @ '':'', ''      '' @ k2 @ '': '' @ quoted v]) =
    Inr (Node None (Some [(r, Node None None (Some
      [Node None (Some [(k, scalar_node []), (k2, scalar_node v)]) None]))]) None)"
  unfolding parse_join_lines [OF flattened_block(1) [OF assms]] flattened_block(2) [OF assms] by simp

theorem block_under_first_item_key_is_flattened_witness:
  "parse_yaml_tree (join_lines [''remote_write:'', ''  - basic_auth:'', ''      password: '' @ quoted ''s'']) =
    Inr (Node None (Some [(''remote_write'', Node None None (Some
      [Node None (Some [(''basic_auth'', scalar_node []), (''password'', scalar_node ''s'')]) None]))]) None)"
  using block_under_first_item_key_is_flattened [of "''remote_write''" "''basic_auth''" "''password''" "''s''"]
  by (simp add: key_ok_def value_ok_def printable_def no_hash_index visible_word)

end
