(* ===== verification/GoDuration.thy ===== *)
theory GoDuration
  imports GoStrings
begin

text \<open>
  \<open>time.ParseDuration\<close> of Go's standard library, which the configuration uses for every interval. All
  integers are \<open>uint64\<close> in the library, which checks every step against \<open>2 ^ 63\<close>; only the
  contribution of a fraction, \<open>uint64(float64(f) * (float64(unit) / scale))\<close>, is computed in
  floating point, and is the argument \<open>frac\<close>. Also the fold over a list whose steps can fail, which
  is how the configuration is applied.
\<close>

section \<open>Steps that can fail\<close>

fun try_fold :: "('a \<Rightarrow> 's \<Rightarrow> 'e + 's) \<Rightarrow> 'a list \<Rightarrow> 's \<Rightarrow> 'e + 's" where
  "try_fold f [] s = Inr s"
| "try_fold f (x # xs) s = (case f x s of Inl e \<Rightarrow> Inl e | Inr s' \<Rightarrow> try_fold f xs s')"

lemma try_fold_append:
  "try_fold f (xs @ ys) s = (case try_fold f xs s of Inl e \<Rightarrow> Inl e | Inr s' \<Rightarrow> try_fold f ys s')"
  by (induction xs arbitrary: s) (auto split: sum.split)

lemma try_fold_invariant:
  "try_fold f xs s = Inr s' \<Longrightarrow> P s \<Longrightarrow> (\<And>x t t'. x \<in> set xs \<Longrightarrow> P t \<Longrightarrow> f x t = Inr t' \<Longrightarrow> P t') \<Longrightarrow> P s'"
proof (induction xs arbitrary: s)
  case (Cons a xs)
  then obtain t where t: "f a s = Inr t" "try_fold f xs t = Inr s'" by (auto split: sum.splits)
  have "P t" by (rule Cons.prems(3) [OF _ Cons.prems(2) t(1)]) simp
  then show ?case by (rule Cons.IH [OF t(2)]) (rule Cons.prems(3), simp_all)
qed simp

lemma try_fold_element:
  "try_fold f xs s = Inr s' \<Longrightarrow> x \<in> set xs \<Longrightarrow> \<exists>t t'. f x t = Inr t'"
  by (induction xs arbitrary: s) (auto split: sum.splits)

lemma try_fold_filter:
  "(\<And>x t. x \<in> set xs \<Longrightarrow> \<not> P x \<Longrightarrow> f x t = Inr t) \<Longrightarrow> try_fold f xs s = try_fold f (filter P xs) s"
  by (induction xs arbitrary: s) (auto split: sum.split)

section \<open>Durations\<close>

definition two63 :: nat where "two63 = 9223372036854775808"

text \<open>\<open>leadingInt\<close>: the value and the rest, \<open>None\<close> on overflow.\<close>

fun leading_int :: "nat \<Rightarrow> string \<Rightarrow> (nat \<times> string) option" where
  "leading_int x [] = Some (x, [])"
| "leading_int x (c # s) =
     (if \<not> is_digit c then Some (x, c # s)
      else if x > two63 div 10 then None
      else if x * 10 + digit_val c > two63 then None
      else leading_int (x * 10 + digit_val c) s)"

text \<open>\<open>leadingFraction\<close>: the value, the scale and the rest; digits that do not fit are skipped.\<close>

fun leading_fraction :: "nat \<Rightarrow> nat \<Rightarrow> bool \<Rightarrow> string \<Rightarrow> nat \<times> nat \<times> string" where
  "leading_fraction x scale over [] = (x, scale, [])"
| "leading_fraction x scale over (c # s) =
     (if \<not> is_digit c then (x, scale, c # s)
      else if over then leading_fraction x scale over s
      else if x > (two63 - 1) div 10 \<or> x * 10 + digit_val c > two63 then leading_fraction x scale True s
      else leading_fraction (x * 10 + digit_val c) (scale * 10) over s)"

definition duration_unit :: "string \<Rightarrow> nat option" where
  "duration_unit u =
     (if u = ''ns'' then Some 1
      else if u = ''us'' \<or> u = encode_rune 181 @ ''s'' \<or> u = encode_rune 956 @ ''s'' then Some 1000
      else if u = ''ms'' then Some 1000000
      else if u = ''s'' then Some 1000000000
      else if u = ''m'' then Some 60000000000
      else if u = ''h'' then Some 3600000000000
      else None)"

definition number_byte :: "char \<Rightarrow> bool" where
  "number_byte c \<longleftrightarrow> c = CHR ''.'' \<or> is_digit c"

text \<open>One number with its unit: its nanoseconds and the rest.\<close>

definition duration_term :: "(nat \<Rightarrow> nat \<Rightarrow> nat \<Rightarrow> nat) \<Rightarrow> string \<Rightarrow> (nat \<times> string) option" where
  "duration_term frac s =
     (if s = [] \<or> \<not> number_byte (hd s) then None
      else case leading_int 0 s of
        None \<Rightarrow> None
      | Some (v, s1) \<Rightarrow>
          let pre = (length s1 \<noteq> length s);
              dot = (s1 \<noteq> [] \<and> hd s1 = CHR ''.'');
              (f, scale, s2) = (if dot then leading_fraction 0 1 False (tl s1) else (0, 1, s1));
              post = (dot \<and> length s2 \<noteq> length (tl s1));
              u = takeWhile (\<lambda>c. \<not> number_byte c) s2;
              s3 = dropWhile (\<lambda>c. \<not> number_byte c) s2
          in if \<not> pre \<and> \<not> post then None
             else case duration_unit u of
               None \<Rightarrow> None
             | Some unit \<Rightarrow>
                 if v > two63 div unit then None
                 else let w = v * unit + (if f > 0 then frac f unit scale else 0)
                   in if w > two63 then None else Some (w, s3))"

lemma leading_int_length: "leading_int x s = Some (v, r) \<Longrightarrow> length r \<le> length s"
  by (induction x s rule: leading_int.induct) (auto split: if_splits)

lemma leading_fraction_length: "length (snd (snd (leading_fraction x scale over s))) \<le> length s"
  by (induction x scale over s rule: leading_fraction.induct) (auto simp: le_Suc_eq)

lemma duration_unit_empty [simp]: "duration_unit [] = None"
  by (simp add: duration_unit_def)

lemma duration_term_shorter: "duration_term frac s = Some (w, r) \<Longrightarrow> length r < length s"
proof -
  assume a: "duration_term frac s = Some (w, r)"
  then obtain v s1 where s1: "leading_int 0 s = Some (v, s1)"
    by (auto simp: duration_term_def split: if_splits option.splits)
  define s2 where "s2 = snd (snd (if s1 \<noteq> [] \<and> hd s1 = CHR ''.'' then leading_fraction 0 1 False (tl s1) else (0, 1, s1)))"
  have "length s2 \<le> length s1"
    using leading_fraction_length [of 0 1 False "tl s1"] by (auto simp: s2_def)
  moreover have "r = dropWhile (\<lambda>c. \<not> number_byte c) s2" "takeWhile (\<lambda>c. \<not> number_byte c) s2 \<noteq> []"
    using a s1 by (auto simp: duration_term_def s2_def Let_def split: if_splits option.splits prod.splits)
  then have "length r < length s2"
    using length_append [of "takeWhile (\<lambda>c. \<not> number_byte c) s2" r] by (simp add: takeWhile_dropWhile_id)
  ultimately show ?thesis using leading_int_length [OF s1] by simp
qed

function duration_terms :: "(nat \<Rightarrow> nat \<Rightarrow> nat \<Rightarrow> nat) \<Rightarrow> nat \<Rightarrow> string \<Rightarrow> nat option" where
  "duration_terms frac d s =
     (if s = [] then Some d
      else case duration_term frac s of
        None \<Rightarrow> None
      | Some (w, r) \<Rightarrow> if d + w > two63 then None else duration_terms frac (d + w) r)"
  by pat_completeness auto
termination
  by (relation "measure (\<lambda>(frac, d, s). length s)") (auto dest: duration_term_shorter)

declare duration_terms.simps [simp del]

definition parse_duration_lib :: "(nat \<Rightarrow> nat \<Rightarrow> nat \<Rightarrow> nat) \<Rightarrow> string \<Rightarrow> duration option" where
  "parse_duration_lib frac s0 =
     (let neg = (s0 \<noteq> [] \<and> hd s0 = CHR ''-'');
          s = (if s0 \<noteq> [] \<and> (hd s0 = CHR ''-'' \<or> hd s0 = CHR ''+'') then tl s0 else s0)
      in if s = ''0'' then Some 0
         else if s = [] then None
         else case duration_terms frac 0 s of
           None \<Rightarrow> None
         | Some d \<Rightarrow> if neg then Some (- int d) else if d > two63 - 1 then None else Some (int d))"

lemma duration_terms_bound: "duration_terms frac d s = Some n \<Longrightarrow> d \<le> two63 \<Longrightarrow> n \<le> two63"
proof (induction frac d s rule: duration_terms.induct)
  case (1 frac d s)
  then show ?case by (subst (asm) (2) duration_terms.simps) (auto split: if_splits option.splits)
qed

lemma parse_duration_in_range: "parse_duration_lib frac s = Some d \<Longrightarrow> in_i64 d"
  by (auto simp: parse_duration_lib_def Let_def i64_defs two63_def split: if_splits option.splits
      dest!: duration_terms_bound)

end
