(* ===== verification/Config.thy ===== *)
theory Config
  imports Yaml GoDuration "HOL-Library.AList"
begin

text \<open>
  \<^verbatim>\<open>internal/config/config.go\<close>: the configuration, its defaults, how the parsed tree is applied to
  it, and its validation. Go's maps of headers and labels are association lists in which an
  assignment replaces the value of its key. Reading the file and the two environment variables are
  inputs of \<open>load\<close>; \<open>url.Parse\<close> is the argument \<open>url_scheme\<close>, the scheme of a URL or \<open>None\<close> for
  an error; \<open>frac\<close> is the floating point part of \<open>time.ParseDuration\<close>.
\<close>

section \<open>The configuration\<close>

record metrics_endpoint =
  me_enabled :: bool
  me_listen_address :: string

record proxy_config =
  px_enabled :: bool
  px_listen_addr :: string
  px_exclude_paths :: "string list"

record gpu_config =
  gc_enabled :: bool
  gc_poll_interval :: duration
  gc_sysfs_base :: string

record retry_config =
  re_max_attempts :: int
  re_max_elapsed :: duration
  re_initial_backoff :: duration
  re_max_backoff :: duration

record circuit_config =
  ci_failure_threshold :: int
  ci_window :: duration
  ci_cooldown :: duration

record tls_config =
  tl_insecure_skip_verify :: bool
  tl_ca_file :: string

record basic_auth_config =
  ba_username :: string
  ba_password_file :: string

record rw_config =
  rc_url :: string
  rc_name :: string
  rc_flush_interval :: duration
  rc_timeout :: duration
  rc_insecure_http :: bool
  rc_capacity :: int
  rc_retry :: retry_config
  rc_circuit :: circuit_config
  rc_tls :: tls_config
  rc_basic_auth :: "basic_auth_config option"
  rc_bearer_token_file :: string
  rc_headers :: "(string \<times> string) list"
  rc_external_labels :: "(string \<times> string) list"

record config =
  cf_ollama_url :: string
  cf_listen_addr :: string
  cf_poll_interval :: duration
  cf_metrics_endpoint :: metrics_endpoint
  cf_proxy :: proxy_config
  cf_gpu :: gpu_config
  cf_remote_write :: "rw_config list"
  cf_log_level :: string

definition default_config :: config where
  "default_config =
     \<lparr>cf_ollama_url = ''http://localhost:11434'', cf_listen_addr = '':9400'', cf_poll_interval = 15 * second,
      cf_metrics_endpoint = \<lparr>me_enabled = True, me_listen_address = []\<rparr>,
      cf_proxy = \<lparr>px_enabled = True, px_listen_addr = '':9401'',
        px_exclude_paths = [''/'', ''/api/ps'', ''/api/tags'', ''/api/show'', ''/api/version'']\<rparr>,
      cf_gpu = \<lparr>gc_enabled = True, gc_poll_interval = 0, gc_sysfs_base = ''/sys/class/drm''\<rparr>,
      cf_remote_write = [], cf_log_level = ''info''\<rparr>"

section \<open>Errors\<close>

text \<open>The field or the condition that an error message names; remote write entries by their index.\<close>

datatype config_error =
    ReadError
  | YamlError yaml_error
  | BadField string
  | BadEntryField nat string
  | NotAMap nat
  | PlaintextForbidden nat string
  | InvalidConfig string
  | InvalidEntry nat string
  | ReservedHeader nat string

section \<open>Applying the tree\<close>

type_synonym entry = "string \<times> node"

definition parse_duration :: "(nat \<Rightarrow> nat \<Rightarrow> nat \<Rightarrow> nat) \<Rightarrow> string \<Rightarrow> duration option" where
  "parse_duration frac s = (if s = [] then None else parse_duration_lib frac s)"

text \<open>A value that must parse, stored by \<open>put\<close>.\<close>

definition store :: "config_error \<Rightarrow> 'v option \<Rightarrow> ('v \<Rightarrow> 's \<Rightarrow> 's) \<Rightarrow> 's \<Rightarrow> config_error + 's" where
  "store e v put s = (case v of None \<Rightarrow> Inl e | Some x \<Rightarrow> Inr (put x s))"

text \<open>The loop over the entries of a node; a node that is no map changes nothing.\<close>

definition apply_map :: "(entry \<Rightarrow> 's \<Rightarrow> config_error + 's) \<Rightarrow> node \<Rightarrow> 's \<Rightarrow> config_error + 's" where
  "apply_map f n s = (case n_map n of None \<Rightarrow> Inr s | Some es \<Rightarrow> try_fold f es s)"

definition metrics_entry :: "entry \<Rightarrow> metrics_endpoint \<Rightarrow> config_error + metrics_endpoint" where
  "metrics_entry e m =
     (let v = as_string (snd e) in
      if fst e = ''enabled'' then
        store (BadField ''metrics_endpoint.enabled'') (parse_bool v) (\<lambda>b m. m\<lparr>me_enabled := b\<rparr>) m
      else if fst e = ''listen_address'' then Inr (m\<lparr>me_listen_address := v\<rparr>)
      else Inr m)"

definition proxy_entry :: "entry \<Rightarrow> proxy_config \<Rightarrow> config_error + proxy_config" where
  "proxy_entry e p =
     (let v = as_string (snd e) in
      if fst e = ''enabled'' then
        store (BadField ''proxy.enabled'') (parse_bool v) (\<lambda>b p. p\<lparr>px_enabled := b\<rparr>) p
      else if fst e = ''listen_addr'' then Inr (if v \<noteq> [] then p\<lparr>px_listen_addr := v\<rparr> else p)
      else if fst e = ''exclude_paths'' then
        Inr (case n_list (snd e) of None \<Rightarrow> p | Some items \<Rightarrow> p\<lparr>px_exclude_paths := map as_string items\<rparr>)
      else Inr p)"

definition gpu_entry :: "(nat \<Rightarrow> nat \<Rightarrow> nat \<Rightarrow> nat) \<Rightarrow> entry \<Rightarrow> gpu_config \<Rightarrow> config_error + gpu_config" where
  "gpu_entry frac e g =
     (let v = as_string (snd e) in
      if fst e = ''enabled'' then
        store (BadField ''gpu.enabled'') (parse_bool v) (\<lambda>b g. g\<lparr>gc_enabled := b\<rparr>) g
      else if fst e = ''poll_interval'' then
        (if v = [] then Inr g
         else store (BadField ''gpu.poll_interval'') (parse_duration frac v) (\<lambda>d g. g\<lparr>gc_poll_interval := d\<rparr>) g)
      else if fst e = ''sysfs_base'' then Inr (if v \<noteq> [] then g\<lparr>gc_sysfs_base := v\<rparr> else g)
      else Inr g)"

text \<open>The sections of the root: every entry in turn.\<close>

definition apply_metrics_endpoint :: "node \<Rightarrow> metrics_endpoint \<Rightarrow> config_error + metrics_endpoint" where
  "apply_metrics_endpoint = apply_map metrics_entry"

definition apply_proxy :: "node \<Rightarrow> proxy_config \<Rightarrow> config_error + proxy_config" where
  "apply_proxy = apply_map proxy_entry"

definition apply_gpu :: "(nat \<Rightarrow> nat \<Rightarrow> nat \<Rightarrow> nat) \<Rightarrow> node \<Rightarrow> gpu_config \<Rightarrow> config_error + gpu_config" where
  "apply_gpu frac = apply_map (gpu_entry frac)"

definition queue_entry :: "nat \<Rightarrow> entry \<Rightarrow> int \<Rightarrow> config_error + int" where
  "queue_entry idx e c =
     (if fst e = ''capacity''
      then store (BadEntryField idx ''queue.capacity'') (atoi (as_string (snd e))) (\<lambda>v _. v) c
      else Inr c)"

definition retry_entry ::
    "(nat \<Rightarrow> nat \<Rightarrow> nat \<Rightarrow> nat) \<Rightarrow> nat \<Rightarrow> entry \<Rightarrow> retry_config \<Rightarrow> config_error + retry_config" where
  "retry_entry frac idx e r =
     (let v = as_string (snd e); err = BadEntryField idx (''retry.'' @ fst e) in
      if fst e = ''max_attempts'' then store err (atoi v) (\<lambda>n r. r\<lparr>re_max_attempts := n\<rparr>) r
      else if fst e = ''max_elapsed'' then store err (parse_duration frac v) (\<lambda>d r. r\<lparr>re_max_elapsed := d\<rparr>) r
      else if fst e = ''initial_backoff'' then
        store err (parse_duration frac v) (\<lambda>d r. r\<lparr>re_initial_backoff := d\<rparr>) r
      else if fst e = ''max_backoff'' then store err (parse_duration frac v) (\<lambda>d r. r\<lparr>re_max_backoff := d\<rparr>) r
      else Inr r)"

definition circuit_entry ::
    "(nat \<Rightarrow> nat \<Rightarrow> nat \<Rightarrow> nat) \<Rightarrow> nat \<Rightarrow> entry \<Rightarrow> circuit_config \<Rightarrow> config_error + circuit_config" where
  "circuit_entry frac idx e b =
     (let v = as_string (snd e); err = BadEntryField idx (''circuit_breaker.'' @ fst e) in
      if fst e = ''failure_threshold'' then store err (atoi v) (\<lambda>n b. b\<lparr>ci_failure_threshold := n\<rparr>) b
      else if fst e = ''window'' then store err (parse_duration frac v) (\<lambda>d b. b\<lparr>ci_window := d\<rparr>) b
      else if fst e = ''cooldown'' then store err (parse_duration frac v) (\<lambda>d b. b\<lparr>ci_cooldown := d\<rparr>) b
      else Inr b)"

definition tls_entry :: "nat \<Rightarrow> entry \<Rightarrow> tls_config \<Rightarrow> config_error + tls_config" where
  "tls_entry idx e t =
     (let v = as_string (snd e) in
      if fst e = ''insecure_skip_verify'' then
        store (BadEntryField idx ''tls.insecure_skip_verify'') (parse_bool v)
          (\<lambda>b t. t\<lparr>tl_insecure_skip_verify := b\<rparr>) t
      else if fst e = ''ca_file'' then Inr (t\<lparr>tl_ca_file := v\<rparr>)
      else Inr t)"

text \<open>The sections of a remote write entry.\<close>

definition apply_queue :: "nat \<Rightarrow> node \<Rightarrow> int \<Rightarrow> config_error + int" where
  "apply_queue idx = apply_map (queue_entry idx)"

definition apply_retry :: "(nat \<Rightarrow> nat \<Rightarrow> nat \<Rightarrow> nat) \<Rightarrow> nat \<Rightarrow> node \<Rightarrow> retry_config \<Rightarrow> config_error + retry_config" where
  "apply_retry frac idx = apply_map (retry_entry frac idx)"

definition apply_breaker :: "(nat \<Rightarrow> nat \<Rightarrow> nat \<Rightarrow> nat) \<Rightarrow> nat \<Rightarrow> node \<Rightarrow> circuit_config \<Rightarrow> config_error + circuit_config" where
  "apply_breaker frac idx = apply_map (circuit_entry frac idx)"

definition apply_tls :: "nat \<Rightarrow> node \<Rightarrow> tls_config \<Rightarrow> config_error + tls_config" where
  "apply_tls idx = apply_map (tls_entry idx)"

lemmas apply_sections [simp] = apply_metrics_endpoint_def apply_proxy_def apply_gpu_def apply_queue_def
  apply_retry_def apply_breaker_def apply_tls_def

definition basic_auth_entry :: "nat \<Rightarrow> entry \<Rightarrow> basic_auth_config \<Rightarrow> config_error + basic_auth_config" where
  "basic_auth_entry idx e ba =
     (let v = as_string (snd e) in
      if fst e = ''username'' then Inr (ba\<lparr>ba_username := v\<rparr>)
      else if fst e = ''password'' then Inl (PlaintextForbidden idx ''basic_auth.password'')
      else if fst e = ''password_file'' then Inr (ba\<lparr>ba_password_file := v\<rparr>)
      else Inr ba)"

definition apply_basic_auth :: "nat \<Rightarrow> node \<Rightarrow> config_error + basic_auth_config option" where
  "apply_basic_auth idx n =
     (case n_map n of
        None \<Rightarrow> Inr None
      | Some es \<Rightarrow> map_sum id Some
          (try_fold (basic_auth_entry idx) es \<lparr>ba_username = [], ba_password_file = []\<rparr>))"

text \<open>The loop that copies the scalars of a map into a Go map.\<close>

definition put_entries :: "node \<Rightarrow> (string \<times> string) list \<Rightarrow> (string \<times> string) list" where
  "put_entries n m =
     (case n_map n of
        None \<Rightarrow> m
      | Some es \<Rightarrow> foldl (\<lambda>m (k, v). AList.update k (as_string v) m) m es)"

definition remote_write_field ::
    "(nat \<Rightarrow> nat \<Rightarrow> nat \<Rightarrow> nat) \<Rightarrow> nat \<Rightarrow> entry \<Rightarrow> rw_config \<Rightarrow> config_error + rw_config" where
  "remote_write_field frac idx e rw =
     (let k = fst e; n = snd e; v = as_string n; err = BadEntryField idx k in
      if k = ''url'' then Inr (rw\<lparr>rc_url := v\<rparr>)
      else if k = ''name'' then Inr (rw\<lparr>rc_name := v\<rparr>)
      else if k = ''flush_interval'' then
        store err (parse_duration frac v) (\<lambda>d rw. rw\<lparr>rc_flush_interval := d\<rparr>) rw
      else if k = ''timeout'' then store err (parse_duration frac v) (\<lambda>d rw. rw\<lparr>rc_timeout := d\<rparr>) rw
      else if k = ''insecure_http'' then store err (parse_bool v) (\<lambda>b rw. rw\<lparr>rc_insecure_http := b\<rparr>) rw
      else if k = ''bearer_token'' then Inl (PlaintextForbidden idx ''bearer_token'')
      else if k = ''bearer_token_file'' then Inr (rw\<lparr>rc_bearer_token_file := v\<rparr>)
      else if k = ''queue'' then
        map_sum id (\<lambda>c. rw\<lparr>rc_capacity := c\<rparr>) (apply_queue idx n (rc_capacity rw))
      else if k = ''retry'' then
        map_sum id (\<lambda>r. rw\<lparr>rc_retry := r\<rparr>) (apply_retry frac idx n (rc_retry rw))
      else if k = ''circuit_breaker'' then
        map_sum id (\<lambda>c. rw\<lparr>rc_circuit := c\<rparr>) (apply_breaker frac idx n (rc_circuit rw))
      else if k = ''tls'' then
        map_sum id (\<lambda>t. rw\<lparr>rc_tls := t\<rparr>) (apply_tls idx n (rc_tls rw))
      else if k = ''basic_auth'' then
        map_sum id (\<lambda>ba. rw\<lparr>rc_basic_auth := ba\<rparr>) (apply_basic_auth idx n)
      else if k = ''headers'' then Inr (rw\<lparr>rc_headers := put_entries n (rc_headers rw)\<rparr>)
      else if k = ''external_labels'' then
        Inr (rw\<lparr>rc_external_labels := put_entries n (rc_external_labels rw)\<rparr>)
      else Inr rw)"

definition empty_rw :: rw_config where
  "empty_rw =
     \<lparr>rc_url = [], rc_name = [], rc_flush_interval = 0, rc_timeout = 0, rc_insecure_http = False, rc_capacity = 0,
      rc_retry = \<lparr>re_max_attempts = 0, re_max_elapsed = 0, re_initial_backoff = 0, re_max_backoff = 0\<rparr>,
      rc_circuit = \<lparr>ci_failure_threshold = 0, ci_window = 0, ci_cooldown = 0\<rparr>,
      rc_tls = \<lparr>tl_insecure_skip_verify = False, tl_ca_file = []\<rparr>,
      rc_basic_auth = None, rc_bearer_token_file = [], rc_headers = [], rc_external_labels = []\<rparr>"

definition parse_remote_write_entry ::
    "(nat \<Rightarrow> nat \<Rightarrow> nat \<Rightarrow> nat) \<Rightarrow> nat \<Rightarrow> node \<Rightarrow> config_error + rw_config" where
  "parse_remote_write_entry frac idx n =
     (case n_map n of
        None \<Rightarrow> Inl (NotAMap idx)
      | Some es \<Rightarrow> try_fold (remote_write_field frac idx) es empty_rw)"

definition apply_remote_write ::
    "(nat \<Rightarrow> nat \<Rightarrow> nat \<Rightarrow> nat) \<Rightarrow> node \<Rightarrow> rw_config list \<Rightarrow> config_error + rw_config list" where
  "apply_remote_write frac n out =
     (case n_list n of
        None \<Rightarrow> Inr out
      | Some items \<Rightarrow>
          try_fold (\<lambda>(i, item) out. map_sum id (\<lambda>rw. out @ [rw]) (parse_remote_write_entry frac i item))
            (enumerate 0 items) out)"

definition root_entry :: "(nat \<Rightarrow> nat \<Rightarrow> nat \<Rightarrow> nat) \<Rightarrow> entry \<Rightarrow> config \<Rightarrow> config_error + config" where
  "root_entry frac e c =
     (let k = fst e; n = snd e; v = as_string n in
      if k = ''ollama_url'' then Inr (c\<lparr>cf_ollama_url := v\<rparr>)
      else if k = ''listen_addr'' then Inr (c\<lparr>cf_listen_addr := v\<rparr>)
      else if k = ''poll_interval'' then
        store (BadField ''poll_interval'') (parse_duration frac v) (\<lambda>d c. c\<lparr>cf_poll_interval := d\<rparr>) c
      else if k = ''log_level'' then Inr (c\<lparr>cf_log_level := v\<rparr>)
      else if k = ''metrics_endpoint'' then
        map_sum id (\<lambda>m. c\<lparr>cf_metrics_endpoint := m\<rparr>) (apply_metrics_endpoint n (cf_metrics_endpoint c))
      else if k = ''proxy'' then
        map_sum id (\<lambda>p. c\<lparr>cf_proxy := p\<rparr>) (apply_proxy n (cf_proxy c))
      else if k = ''gpu'' then
        map_sum id (\<lambda>g. c\<lparr>cf_gpu := g\<rparr>) (apply_gpu frac n (cf_gpu c))
      else if k = ''remote_write'' then
        map_sum id (\<lambda>rws. c\<lparr>cf_remote_write := rws\<rparr>) (apply_remote_write frac n (cf_remote_write c))
      else Inr c)"

definition apply_tree :: "(nat \<Rightarrow> nat \<Rightarrow> nat \<Rightarrow> nat) \<Rightarrow> config \<Rightarrow> node \<Rightarrow> config_error + config" where
  "apply_tree frac c root = apply_map (root_entry frac) root c"

section \<open>Validation\<close>

definition reserved_config_headers :: "string list" where
  "reserved_config_headers =
     [''Authorization'', ''Content-Encoding'', ''Content-Type'', ''X-Prometheus-Remote-Write-Version'']"

text \<open>The checks of one endpoint in the order of the code; \<open>None\<close> when all of them pass.\<close>

definition validate_remote_write ::
    "(string \<Rightarrow> string option) \<Rightarrow> nat \<Rightarrow> rw_config \<Rightarrow> config_error option" where
  "validate_remote_write url_scheme idx rw =
     (let err = (\<lambda>f. Some (InvalidEntry idx f)) in
      if rc_url rw = [] then err ''url''
      else case url_scheme (rc_url rw) of
        None \<Rightarrow> err ''url''
      | Some scheme \<Rightarrow>
          if scheme \<noteq> ''https'' \<and> scheme \<noteq> ''http'' then err ''url scheme''
          else if scheme = ''http'' \<and> \<not> rc_insecure_http rw then err ''insecure_http''
          else if rc_basic_auth rw \<noteq> None \<and> rc_bearer_token_file rw \<noteq> [] then err ''mutually exclusive''
          else case find (\<lambda>(k, v). canonical_header k \<in> set reserved_config_headers) (rc_headers rw) of
            Some (k, v) \<Rightarrow> Some (ReservedHeader idx k)
          | None \<Rightarrow>
              if rc_flush_interval rw < 0 then err ''flush_interval''
              else if rc_flush_interval rw > 0 \<and> rc_flush_interval rw < second then err ''flush_interval''
              else if rc_timeout rw < 0 then err ''timeout''
              else if re_max_attempts (rc_retry rw) < 0 then err ''retry.max_attempts''
              else if re_initial_backoff (rc_retry rw) < 0 then err ''retry.initial_backoff''
              else if re_max_backoff (rc_retry rw) < 0 then err ''retry.max_backoff''
              else if re_max_elapsed (rc_retry rw) < 0 then err ''retry.max_elapsed''
              else if ci_window (rc_circuit rw) < 0 then err ''circuit_breaker.window''
              else if ci_cooldown (rc_circuit rw) < 0 then err ''circuit_breaker.cooldown''
              else if rc_capacity rw < 0 then err ''queue.capacity''
              else None)"

fun validate_entries :: "(string \<Rightarrow> string option) \<Rightarrow> nat \<Rightarrow> rw_config list \<Rightarrow> config_error option" where
  "validate_entries url_scheme i [] = None"
| "validate_entries url_scheme i (rw # rws) =
     (case validate_remote_write url_scheme i rw of
        Some e \<Rightarrow> Some e
      | None \<Rightarrow> validate_entries url_scheme (Suc i) rws)"

definition validate :: "(string \<Rightarrow> string option) \<Rightarrow> config \<Rightarrow> config_error option" where
  "validate url_scheme c =
     (if cf_ollama_url c = [] then Some (InvalidConfig ''ollama_url'')
      else if cf_poll_interval c < second then Some (InvalidConfig ''poll_interval'')
      else case validate_entries url_scheme 0 (cf_remote_write c) of
        Some e \<Rightarrow> Some e
      | None \<Rightarrow>
          if \<not> me_enabled (cf_metrics_endpoint c) \<and> cf_remote_write c = []
          then Some (InvalidConfig ''no-op'') else None)"

section \<open>Loading\<close>

datatype file_result = FileMissing | FileUnreadable | FileData string

definition override_env :: "string \<Rightarrow> string \<Rightarrow> config \<Rightarrow> config" where
  "override_env env_ollama env_listen c =
     (let c1 = (if env_ollama \<noteq> [] then c\<lparr>cf_ollama_url := env_ollama\<rparr> else c)
      in if env_listen \<noteq> [] then c1\<lparr>cf_listen_addr := env_listen\<rparr> else c1)"

definition mirror_listen :: "config \<Rightarrow> config" where
  "mirror_listen c =
     (if me_listen_address (cf_metrics_endpoint c) = []
      then c\<lparr>cf_metrics_endpoint := (cf_metrics_endpoint c)\<lparr>me_listen_address := cf_listen_addr c\<rparr>\<rparr>
      else c\<lparr>cf_listen_addr := me_listen_address (cf_metrics_endpoint c)\<rparr>)"

definition read_config :: "(nat \<Rightarrow> nat \<Rightarrow> nat \<Rightarrow> nat) \<Rightarrow> file_result \<Rightarrow> config_error + config" where
  "read_config frac file =
     (case file of
        FileUnreadable \<Rightarrow> Inl ReadError
      | FileMissing \<Rightarrow> Inr default_config
      | FileData data \<Rightarrow>
          (case parse_yaml_tree data of
             Inl e \<Rightarrow> Inl (YamlError e)
           | Inr tree \<Rightarrow> apply_tree frac default_config tree))"

definition load ::
    "(nat \<Rightarrow> nat \<Rightarrow> nat \<Rightarrow> nat) \<Rightarrow> (string \<Rightarrow> string option) \<Rightarrow> file_result \<Rightarrow> string \<Rightarrow> string
       \<Rightarrow> config_error + config" where
  "load frac url_scheme file env_ollama env_listen =
     (case read_config frac file of
        Inl e \<Rightarrow> Inl e
      | Inr c0 \<Rightarrow>
          let c = mirror_listen (override_env env_ollama env_listen c0)
          in case validate url_scheme c of Some e \<Rightarrow> Inl e | None \<Rightarrow> Inr c)"

section \<open>What validation guarantees\<close>

definition entry_valid :: "(string \<Rightarrow> string option) \<Rightarrow> rw_config \<Rightarrow> bool" where
  "entry_valid url_scheme rw \<longleftrightarrow>
     rc_url rw \<noteq> []
     \<and> (url_scheme (rc_url rw) = Some ''https'' \<or> url_scheme (rc_url rw) = Some ''http'' \<and> rc_insecure_http rw)
     \<and> \<not> (rc_basic_auth rw \<noteq> None \<and> rc_bearer_token_file rw \<noteq> [])
     \<and> (\<forall>(k, v) \<in> set (rc_headers rw). canonical_header k \<notin> set reserved_config_headers)
     \<and> (rc_flush_interval rw = 0 \<or> second \<le> rc_flush_interval rw)
     \<and> 0 \<le> rc_timeout rw \<and> 0 \<le> rc_capacity rw
     \<and> 0 \<le> re_max_attempts (rc_retry rw) \<and> 0 \<le> re_max_elapsed (rc_retry rw)
     \<and> 0 \<le> re_initial_backoff (rc_retry rw) \<and> 0 \<le> re_max_backoff (rc_retry rw)
     \<and> 0 \<le> ci_window (rc_circuit rw) \<and> 0 \<le> ci_cooldown (rc_circuit rw)"

lemma if_error_None: "(if b then Some e else x) = None \<longleftrightarrow> \<not> b \<and> x = None"
  by simp

lemma find_error_None:
  "(case find P xs of Some (k, v) \<Rightarrow> Some (e k v) | None \<Rightarrow> x) = None \<longleftrightarrow> find P xs = None \<and> x = None"
  by (auto split: option.split)

lemma validate_remote_write_iff:
  "validate_remote_write url_scheme i rw = None \<longleftrightarrow> entry_valid url_scheme rw"
proof (cases "url_scheme (rc_url rw)")
  case None
  then show ?thesis by (simp add: validate_remote_write_def entry_valid_def)
next
  case (Some scheme)
  have flush: "\<not> rc_flush_interval rw < 0 \<and> \<not> (rc_flush_interval rw > 0 \<and> rc_flush_interval rw < second) \<longleftrightarrow>
      rc_flush_interval rw = 0 \<or> second \<le> rc_flush_interval rw"
    by (auto simp: second_def)
  have scheme: "\<not> (scheme \<noteq> ''https'' \<and> scheme \<noteq> ''http'') \<and> \<not> (scheme = ''http'' \<and> \<not> rc_insecure_http rw) \<longleftrightarrow>
      scheme = ''https'' \<or> scheme = ''http'' \<and> rc_insecure_http rw"
    by auto
  show ?thesis
    unfolding validate_remote_write_def entry_valid_def Let_def if_error_None find_error_None Some option.case
    unfolding flush [symmetric] option.inject scheme [symmetric] find_None_iff by (simp add: not_less case_prod_beta Bex_def Ball_def) blast
qed

lemma validate_entries_iff:
  "validate_entries url_scheme i rws = None \<longleftrightarrow> (\<forall>rw \<in> set rws. entry_valid url_scheme rw)"
proof (induction rws arbitrary: i)
  case (Cons rw rws)
  then show ?case
    using validate_remote_write_iff [of url_scheme i rw]
    by (cases "validate_remote_write url_scheme i rw") auto
qed simp

lemma validate_iff:
  "validate url_scheme c = None \<longleftrightarrow> cf_ollama_url c \<noteq> [] \<and> second \<le> cf_poll_interval c
     \<and> (\<forall>rw \<in> set (cf_remote_write c). entry_valid url_scheme rw)
     \<and> (me_enabled (cf_metrics_endpoint c) \<or> cf_remote_write c \<noteq> [])"
  using validate_entries_iff [of url_scheme 0 "cf_remote_write c"]
  by (auto simp: validate_def split: option.split)

section \<open>Properties\<close>

lemma load_Inr_cases:
  assumes "load frac url_scheme file env_ollama env_listen = Inr c"
  obtains c0 where "read_config frac file = Inr c0" "c = mirror_listen (override_env env_ollama env_listen c0)"
    "validate url_scheme c = None"
  using assms by (auto simp: load_def Let_def split: sum.splits option.splits)

text \<open>C14. Every configuration that Load accepts satisfies the documented constraints: a base URL, a poll
  interval of at least one second, for each endpoint an https URL (or http with the explicit
  opt-in), one kind of credentials, no reserved header in any letter case and no negative duration
  or size, and at least one output; the two listen addresses agree.\<close>

theorem loaded_config_is_valid:
  assumes "load frac url_scheme file env_ollama env_listen = Inr c"
  shows "cf_ollama_url c \<noteq> [] \<and> second \<le> cf_poll_interval c
    \<and> (\<forall>rw \<in> set (cf_remote_write c). entry_valid url_scheme rw)
    \<and> (me_enabled (cf_metrics_endpoint c) \<or> cf_remote_write c \<noteq> [])
    \<and> me_listen_address (cf_metrics_endpoint c) = cf_listen_addr c"
  using assms
proof (cases rule: load_Inr_cases)
  case (1 c0)
  then have "me_listen_address (cf_metrics_endpoint c) = cf_listen_addr c" by (simp add: mirror_listen_def)
  with 1(3) show ?thesis by (simp add: validate_iff)
qed

lemma load_defaults:
  "load frac url_scheme FileMissing [] [] =
     Inr (default_config\<lparr>cf_metrics_endpoint := \<lparr>me_enabled = True, me_listen_address = '':9400''\<rparr>\<rparr>)"
proof -
  let ?c = "default_config\<lparr>cf_metrics_endpoint := \<lparr>me_enabled = True, me_listen_address = '':9400''\<rparr>\<rparr>"
  have "validate url_scheme ?c = None"
    by (simp add: validate_iff default_config_def second_def)
  moreover have "mirror_listen (override_env [] [] default_config) = ?c"
    by (simp add: mirror_listen_def override_env_def default_config_def)
  ultimately show ?thesis by (simp add: load_def read_config_def)
qed

theorem loaded_config_is_valid_witness:
  "me_listen_address (cf_metrics_endpoint (projr (load (\<lambda>_ _ _. 0) (\<lambda>_. None) FileMissing [] []))) =
     cf_listen_addr (projr (load (\<lambda>_ _ _. 0) (\<lambda>_. None) FileMissing [] []))"
  using loaded_config_is_valid [OF load_defaults [of "\<lambda>_ _ _. 0" "\<lambda>_. None"]]
  by (simp add: load_defaults)

section \<open>Integers\<close>

text \<open>Every field that is a Go \<open>int\<close> or \<open>time.Duration\<close> holds a 64-bit value.\<close>

definition rw_ints_ok :: "rw_config \<Rightarrow> bool" where
  "rw_ints_ok rw \<longleftrightarrow>
     in_i64 (rc_flush_interval rw) \<and> in_i64 (rc_timeout rw) \<and> in_i64 (rc_capacity rw)
     \<and> in_i64 (re_max_attempts (rc_retry rw)) \<and> in_i64 (re_max_elapsed (rc_retry rw))
     \<and> in_i64 (re_initial_backoff (rc_retry rw)) \<and> in_i64 (re_max_backoff (rc_retry rw))
     \<and> in_i64 (ci_failure_threshold (rc_circuit rw)) \<and> in_i64 (ci_window (rc_circuit rw))
     \<and> in_i64 (ci_cooldown (rc_circuit rw))"

definition config_ints_ok :: "config \<Rightarrow> bool" where
  "config_ints_ok c \<longleftrightarrow>
     in_i64 (cf_poll_interval c) \<and> in_i64 (gc_poll_interval (cf_gpu c)) \<and> list_all rw_ints_ok (cf_remote_write c)"

lemma parse_duration_i64: "parse_duration frac s = Some d \<Longrightarrow> in_i64 d"
  by (auto simp: parse_duration_def dest: parse_duration_in_range split: if_splits)

lemma atoi_i64: "atoi s = Some i \<Longrightarrow> in_i64 i"
  by (auto simp: atoi_def Let_def split: if_splits)

lemma store_Inr: "store e v put s = Inr s' \<longleftrightarrow> (\<exists>x. v = Some x \<and> s' = put x s)"
  by (auto simp: store_def split: option.split)

lemma map_sum_Inr: "map_sum id g r = Inr y \<longleftrightarrow> (\<exists>x. r = Inr x \<and> y = g x)"
  by (cases r) auto

lemma apply_map_invariant:
  "apply_map f n s = Inr s' \<Longrightarrow> P s \<Longrightarrow> (\<And>e t t'. P t \<Longrightarrow> f e t = Inr t' \<Longrightarrow> P t') \<Longrightarrow> P s'"
  unfolding apply_map_def by (cases "n_map n") (auto elim: try_fold_invariant)

lemma in_i64_zero [simp]: "in_i64 0"
  by (simp add: i64_defs)

lemmas stored_i64 = parse_duration_i64 atoi_i64

lemma queue_entry_i64: "in_i64 c \<Longrightarrow> queue_entry i e c = Inr c' \<Longrightarrow> in_i64 c'"
  by (auto simp: queue_entry_def store_Inr dest: stored_i64 split: if_splits)

lemma retry_entry_i64:
  "rw_ints_ok (rw\<lparr>rc_retry := r\<rparr>) \<Longrightarrow> retry_entry frac i e r = Inr r' \<Longrightarrow> rw_ints_ok (rw\<lparr>rc_retry := r'\<rparr>)"
  by (auto simp: retry_entry_def rw_ints_ok_def Let_def store_Inr dest: stored_i64 split: if_splits)

lemma circuit_entry_i64:
  "rw_ints_ok (rw\<lparr>rc_circuit := b\<rparr>) \<Longrightarrow> circuit_entry frac i e b = Inr b' \<Longrightarrow> rw_ints_ok (rw\<lparr>rc_circuit := b'\<rparr>)"
  by (auto simp: circuit_entry_def rw_ints_ok_def Let_def store_Inr dest: stored_i64 split: if_splits)

lemma remote_write_field_i64:
  assumes "rw_ints_ok rw" "remote_write_field frac i e rw = Inr rw'"
  shows "rw_ints_ok rw'"
proof -
  have "in_i64 c" if "apply_map (queue_entry i) (snd e) (rc_capacity rw) = Inr c" for c
    by (rule apply_map_invariant [where P = in_i64, OF that])
      (use assms(1) in \<open>simp add: rw_ints_ok_def\<close>, rule queue_entry_i64)
  moreover have "rw_ints_ok (rw\<lparr>rc_retry := r\<rparr>)" if "apply_map (retry_entry frac i) (snd e) (rc_retry rw) = Inr r" for r
    by (rule apply_map_invariant [where P = "\<lambda>r. rw_ints_ok (rw\<lparr>rc_retry := r\<rparr>)", OF that])
      (use assms(1) in simp, rule retry_entry_i64)
  moreover have "rw_ints_ok (rw\<lparr>rc_circuit := b\<rparr>)" if "apply_map (circuit_entry frac i) (snd e) (rc_circuit rw) = Inr b" for b
    by (rule apply_map_invariant [where P = "\<lambda>b. rw_ints_ok (rw\<lparr>rc_circuit := b\<rparr>)", OF that])
      (use assms(1) in simp, rule circuit_entry_i64)
  ultimately show ?thesis
    using assms by (auto simp: remote_write_field_def Let_def map_sum_Inr rw_ints_ok_def store_Inr dest: stored_i64 split: if_splits)
qed

lemma parse_entry_i64: "parse_remote_write_entry frac i n = Inr rw \<Longrightarrow> rw_ints_ok rw"
proof -
  have "rw_ints_ok empty_rw" by (simp add: rw_ints_ok_def empty_rw_def)
  then show "parse_remote_write_entry frac i n = Inr rw \<Longrightarrow> rw_ints_ok rw"
    by (auto simp: parse_remote_write_entry_def split: option.splits
        elim: try_fold_invariant remote_write_field_i64)
qed

lemma apply_remote_write_i64:
  assumes "apply_remote_write frac n out = Inr out'" "list_all rw_ints_ok out"
  shows "list_all rw_ints_ok out'"
proof (cases "n_list n")
  case (Some items)
  have "list_all rw_ints_ok t'"
    if "list_all rw_ints_ok t"
      "(\<lambda>(i, item) out. map_sum id (\<lambda>rw. out @ [rw]) (parse_remote_write_entry frac i item)) x t = Inr t'" for x t t'
    using that parse_entry_i64 by (auto simp: map_sum_Inr split: prod.splits)
  with Some assms show ?thesis
    by (auto simp: apply_remote_write_def elim!: try_fold_invariant [where P = "list_all rw_ints_ok"])
qed (use assms in \<open>simp add: apply_remote_write_def\<close>)

lemma gpu_entry_i64:
  "in_i64 (gc_poll_interval g) \<Longrightarrow> gpu_entry frac e g = Inr g' \<Longrightarrow> in_i64 (gc_poll_interval g')"
  by (auto simp: gpu_entry_def Let_def store_Inr dest: stored_i64 split: if_splits)

lemma root_entry_i64:
  assumes "config_ints_ok c" "root_entry frac e c = Inr c'"
  shows "config_ints_ok c'"
proof -
  have "in_i64 (gc_poll_interval g)" if "apply_map (gpu_entry frac) (snd e) (cf_gpu c) = Inr g" for g
    by (rule apply_map_invariant [where P = "\<lambda>g. in_i64 (gc_poll_interval g)", OF that])
      (use assms(1) in \<open>simp add: config_ints_ok_def\<close>, rule gpu_entry_i64)
  then show ?thesis
    using assms apply_remote_write_i64 [of frac "snd e" "cf_remote_write c"]
    by (auto simp: root_entry_def Let_def map_sum_Inr config_ints_ok_def store_Inr dest: stored_i64 split: if_splits)
qed

lemma default_ints_ok: "config_ints_ok default_config"
  by (simp add: config_ints_ok_def default_config_def second_def i64_defs)

lemma read_config_i64: "read_config frac file = Inr c \<Longrightarrow> config_ints_ok c"
  using default_ints_ok
  by (auto simp: read_config_def apply_tree_def split: file_result.splits sum.splits
      elim: apply_map_invariant root_entry_i64)

lemma load_i64: "load frac url_scheme file env_ollama env_listen = Inr c \<Longrightarrow> config_ints_ok c"
  by (auto elim!: load_Inr_cases dest!: read_config_i64
      simp: config_ints_ok_def mirror_listen_def override_env_def Let_def)



section \<open>Precedence and credentials\<close>

text \<open>C25. Precedence: the environment overrides the file, which overrides the defaults; an explicit
  \<open>metrics_endpoint.listen_address\<close> overrides both other sources of the listen address; nothing else
  is changed after the file has been applied.\<close>

theorem configuration_precedence:
  assumes "load frac url_scheme file env_ollama env_listen = Inr c"
  shows "\<exists>c0. read_config frac file = Inr c0 \<and> (file = FileMissing \<longrightarrow> c0 = default_config)
    \<and> cf_ollama_url c = (if env_ollama \<noteq> [] then env_ollama else cf_ollama_url c0)
    \<and> cf_listen_addr c = (if me_listen_address (cf_metrics_endpoint c0) \<noteq> [] then me_listen_address (cf_metrics_endpoint c0)
         else if env_listen \<noteq> [] then env_listen else cf_listen_addr c0)
    \<and> me_enabled (cf_metrics_endpoint c) = me_enabled (cf_metrics_endpoint c0)
    \<and> cf_poll_interval c = cf_poll_interval c0 \<and> cf_proxy c = cf_proxy c0 \<and> cf_gpu c = cf_gpu c0
    \<and> cf_remote_write c = cf_remote_write c0 \<and> cf_log_level c = cf_log_level c0"
  using assms
proof (cases rule: load_Inr_cases)
  case (1 c0)
  have "file = FileMissing \<longrightarrow> c0 = default_config" using 1(1) by (auto simp: read_config_def)
  with 1 show ?thesis
    by (intro exI [of _ c0]) (simp add: mirror_listen_def override_env_def Let_def)
qed

theorem configuration_precedence_witness:
  "cf_listen_addr (projr (load (\<lambda>_ _ _. 0) (\<lambda>_. None) FileMissing [] '':1'')) = '':1''"
proof -
  have "load (\<lambda>_ _ _. 0) (\<lambda>_. None) FileMissing [] '':1'' \<noteq> Inl e" for e
    by (simp add: load_def read_config_def override_env_def mirror_listen_def validate_def default_config_def second_def Let_def)
  then obtain c where c: "load (\<lambda>_ _ _. 0) (\<lambda>_. None) FileMissing [] '':1'' = Inr c"
    by (cases "load (\<lambda>_ _ _. 0) (\<lambda>_. None) FileMissing [] '':1''") auto
  show ?thesis using configuration_precedence [OF c]
    by (auto simp: c read_config_def default_config_def)
qed

text \<open>C17. Plaintext credentials are refused: a configuration that Load accepts has, in the tree of its file,
  no \<open>bearer_token\<close> key in a remote write entry and no \<open>password\<close> key in the block of its
  \<open>basic_auth\<close>.\<close>

theorem plaintext_credentials_rejected:
  assumes "load frac url_scheme (FileData data) env_ollama env_listen = Inr c"
    and "parse_yaml_tree data = Inr root" "n_map root = Some es" "(''remote_write'', n) \<in> set es"
    and "n_list n = Some items" "item \<in> set items"
  shows "\<exists>fs. n_map item = Some fs \<and> ''bearer_token'' \<notin> fst ` set fs \<and>
    (\<forall>b gs. (''basic_auth'', b) \<in> set fs \<longrightarrow> n_map b = Some gs \<longrightarrow> ''password'' \<notin> fst ` set gs)"
proof -
  from assms(1) obtain c0 where "read_config frac (FileData data) = Inr c0" by (rule load_Inr_cases)
  then have "try_fold (root_entry frac) es default_config = Inr c0"
    using assms(2,3) by (simp add: read_config_def apply_tree_def apply_map_def)
  from try_fold_element [OF this assms(4)] obtain t t'
    where "root_entry frac (''remote_write'', n) t = Inr t'" by blast
  then obtain out out' where o: "apply_remote_write frac n out = Inr out'"
    by (cases "apply_remote_write frac n (cf_remote_write t)") (auto simp: root_entry_def)
  from assms(6) obtain i where i: "(i, item) \<in> set (enumerate 0 items)"
    by (metis add.left_neutral in_set_conv_nth nth_enumerate_eq length_enumerate)
  have "try_fold (\<lambda>(i, item) out. map_sum id (\<lambda>rw. out @ [rw]) (parse_remote_write_entry frac i item))
      (enumerate 0 items) out = Inr out'"
    using o assms(5) by (simp add: apply_remote_write_def)
  from try_fold_element [OF this i] obtain rw where rw: "parse_remote_write_entry frac i item = Inr rw"
    by (cases "parse_remote_write_entry frac i item") auto
  then obtain fs where fs: "n_map item = Some fs" "try_fold (remote_write_field frac i) fs empty_rw = Inr rw"
    by (auto simp: parse_remote_write_entry_def split: option.splits)
  note field = try_fold_element [OF fs(2)]
  have "''bearer_token'' \<notin> fst ` set fs"
  proof
    assume "''bearer_token'' \<in> fst ` set fs"
    then obtain v where "(''bearer_token'', v) \<in> set fs" by auto
    from field [OF this] show False by (auto simp: remote_write_field_def)
  qed
  moreover have "''password'' \<notin> fst ` set gs" if b: "(''basic_auth'', b) \<in> set fs" "n_map b = Some gs" for b gs
  proof
    assume "''password'' \<in> fst ` set gs"
    then obtain v where v: "(''password'', v) \<in> set gs" by auto
    from field [OF b(1)] obtain ba where "apply_basic_auth i b = Inr ba"
      by (cases "apply_basic_auth i b") (auto simp: remote_write_field_def)
    then obtain a where "try_fold (basic_auth_entry i) gs \<lparr>ba_username = [], ba_password_file = []\<rparr> = Inr a"
      using b(2) by (cases "try_fold (basic_auth_entry i) gs \<lparr>ba_username = [], ba_password_file = []\<rparr>")
        (auto simp: apply_basic_auth_def)
    from try_fold_element [OF this v] show False by (auto simp: basic_auth_entry_def)
  qed
  ultimately show ?thesis using fs(1) by blast
qed

definition demo_data :: string where
  "demo_data = join_lines (entries_lines demo_doc 0)"

lemma demo_parse: "parse_yaml_tree demo_data = Inr (Node None (Some (entries_tree demo_doc)) None)"
  unfolding demo_data_def
proof (rule parse_document [OF demo_doc_ok])
  show "\<forall>l \<in> set (entries_lines demo_doc 0). length l < max_token"
    by (simp add: demo_doc_def pad_def quoted_def max_token_def)
qed

lemma demo_tree: "entries_tree demo_doc = [(''remote_write'', Node None None (Some
    [Node None (Some [(''url'', scalar_node ''https://h/w''),
       (''basic_auth'', Node None (Some [(''username'', scalar_node ''u'')]) None)]) None]))]"
  by (simp add: demo_doc_def add_entry_def add_item_def empty_node_def)

lemma demo_apply: "apply_tree frac default_config (Node None (Some (entries_tree demo_doc)) None) =
    Inr (default_config\<lparr>cf_remote_write := [empty_rw\<lparr>rc_url := ''https://h/w'',
      rc_basic_auth := Some \<lparr>ba_username = ''u'', ba_password_file = []\<rparr>\<rparr>]\<rparr>)"
  by (simp add: demo_tree apply_tree_def apply_map_def root_entry_def apply_remote_write_def parse_remote_write_entry_def
      remote_write_field_def as_string_def scalar_node_def apply_basic_auth_def basic_auth_entry_def
      default_config_def empty_rw_def)

definition demo_rw :: rw_config where
  "demo_rw = empty_rw\<lparr>rc_url := ''https://h/w'',
     rc_basic_auth := Some \<lparr>ba_username = ''u'', ba_password_file = []\<rparr>\<rparr>"

lemma demo_load:
  "\<exists>c. load frac (\<lambda>_. Some ''https'') (FileData demo_data) [] [] = Inr c \<and> cf_remote_write c = [demo_rw]"
proof -
  let ?c = "mirror_listen (override_env [] [] (default_config\<lparr>cf_remote_write := [demo_rw]\<rparr>))"
  have "validate (\<lambda>_. Some ''https'') ?c = None"
    by (simp add: validate_iff mirror_listen_def override_env_def default_config_def demo_rw_def empty_rw_def entry_valid_def second_def)
  moreover have "cf_remote_write ?c = [demo_rw]"
    by (simp add: mirror_listen_def override_env_def default_config_def)
  ultimately show ?thesis by (simp add: load_def read_config_def demo_parse demo_apply demo_rw_def Let_def)
qed

theorem plaintext_credentials_rejected_witness:
  "\<exists>c fs. load (\<lambda>_ _ _. 0) (\<lambda>_. Some ''https'') (FileData demo_data) [] [] = Inr c \<and>
     (''url'', scalar_node ''https://h/w'') \<in> set fs \<and> ''bearer_token'' \<notin> fst ` set fs"
proof -
  obtain c where c: "load (\<lambda>_ _ _. 0) (\<lambda>_. Some ''https'') (FileData demo_data) [] [] = Inr c"
    using demo_load by blast
  let ?fs = "[(''url'', scalar_node ''https://h/w''),
    (''basic_auth'', Node None (Some [(''username'', scalar_node ''u'')]) None)]"
  let ?n = "Node None None (Some [Node None (Some ?fs) None])"
  from plaintext_credentials_rejected [OF c demo_parse, of "entries_tree demo_doc" ?n "[Node None (Some ?fs) None]"
      "Node None (Some ?fs) None"]
  have "''bearer_token'' \<notin> fst ` set ?fs" by (auto simp: demo_tree)
  with c show ?thesis by (intro exI [of _ c] exI [of _ ?fs]) simp
qed

text \<open>The refusal can be bypassed by the order of the keys: a \<open>password\<close> below \<open>basic_auth\<close> is not seen
  when \<open>basic_auth\<close> is the first key of the list item. The configuration is accepted, and the
  endpoint has no credentials at all.\<close>

theorem plaintext_password_accepted:
  "\<exists>c. load frac (\<lambda>_. Some ''https'') (FileData (join_lines
     [''remote_write:'', ''  - basic_auth:'', ''      password: '' @ quoted ''s'', ''    url: '' @ quoted ''https://h/w'']))
     [] [] = Inr c \<and> cf_remote_write c = [empty_rw\<lparr>rc_url := ''https://h/w''\<rparr>]"
proof -
  let ?l3 = "[''remote_write:'', ''  - basic_auth:'', ''      password: '' @ quoted ''s'']"
  let ?l4 = "pad 2 @ ''url'' @ '':'' @ head_text (YScalar ''https://h/w'')"
  let ?item = "[(''basic_auth'', scalar_node []), (''password'', scalar_node ''s'')]"
  let ?r = "Node None (Some [(''remote_write'', Node None None (Some [Node None (Some ?item) None]))]) None"
  let ?r' = "Node None (Some [(''remote_write'', Node None None (Some
      [Node None (Some (?item @ [(''url'', scalar_node ''https://h/w'')])) None]))]) None"
  have k: "key_ok ''remote_write''" "key_ok ''basic_auth''" "key_ok ''password''" "value_ok ''s''"
    "key_ok ''url''" "value_ok ''https://h/w''"
    by (simp_all add: key_ok_def value_ok_def printable_def no_hash_index visible_word)
  have b: "list_all clean_line ?l3" "yaml_lines 0 ?l3 y_start = Inr \<lparr>y_root = ?r, y_stack = [2, 0, -2]\<rparr>"
    using flattened_block [OF k(1-4)] by simp_all
  have l4: "''    url: '' @ quoted ''https://h/w'' = ?l4" by (simp add: pad_def numeral_eq_Suc)
  have c4: "clean_line ?l4" using k by (simp add: clean_parts visible_word)
  moreover have "length ?l4 < max_token" by (simp add: pad_def quoted_def max_token_def)
  moreover have "yaml_line (Suc 3) ?l4 \<lparr>y_root = ?r, y_stack = [2, 0, -2]\<rparr> = Inr \<lparr>y_root = ?r', y_stack = [2, 0, -2]\<rparr>"
    using entry_line [OF k(5), of "YScalar ''https://h/w''" 2 "[2, 0, -2]" "[2, 0, -2]" 2 ?r "Suc 3"] k(6)
    by (simp add: add_entry_def last_child_def set_last_def numeral_2_eq_2)
  ultimately have "yaml_lines 3 [?l4] \<lparr>y_root = ?r, y_stack = [2, 0, -2]\<rparr> = Inr \<lparr>y_root = ?r', y_stack = [2, 0, -2]\<rparr>"
    by (rule yaml_lines_single)
  moreover have "0 + length ?l3 = 3" by simp
  ultimately have "yaml_lines 0 (?l3 @ [?l4]) y_start = Inr \<lparr>y_root = ?r', y_stack = [2, 0, -2]\<rparr>"
    by (simp only: yaml_lines_append b(2) sum.case)
  then have p: "parse_yaml_tree (join_lines (?l3 @ [?l4])) = Inr ?r'"
    using b(1) c4 by (subst parse_join_lines) simp_all
  let ?c = "default_config\<lparr>cf_remote_write := [empty_rw\<lparr>rc_url := ''https://h/w''\<rparr>]\<rparr>"
  have "apply_tree frac default_config ?r' = Inr ?c"
    by (simp add: apply_tree_def apply_map_def root_entry_def apply_remote_write_def parse_remote_write_entry_def
        remote_write_field_def as_string_def scalar_node_def apply_basic_auth_def default_config_def empty_rw_def)
  moreover have "validate (\<lambda>_. Some ''https'') (mirror_listen (override_env [] [] ?c)) = None"
    by (simp add: validate_iff mirror_listen_def override_env_def default_config_def empty_rw_def entry_valid_def second_def)
  ultimately have "load frac (\<lambda>_. Some ''https'') (FileData (join_lines (?l3 @ [?l4]))) [] [] =
      Inr (mirror_listen (override_env [] [] ?c))"
    using p by (simp add: load_def read_config_def Let_def)
  moreover have "cf_remote_write (mirror_listen (override_env [] [] ?c)) = [empty_rw\<lparr>rc_url := ''https://h/w''\<rparr>]"
    by (simp add: mirror_listen_def override_env_def default_config_def)
  moreover have "?l3 @ [?l4] = [''remote_write:'', ''  - basic_auth:'', ''      password: '' @ quoted ''s'',
      ''    url: '' @ quoted ''https://h/w'']" unfolding l4 by simp
  ultimately show ?thesis by metis
qed

section \<open>Unknown keys\<close>

definition root_keys :: "string list" where
  "root_keys = [''ollama_url'', ''listen_addr'', ''poll_interval'', ''log_level'', ''metrics_endpoint'', ''proxy'',
     ''gpu'', ''remote_write'']"

definition entry_keys :: "string list" where
  "entry_keys = [''url'', ''name'', ''flush_interval'', ''timeout'', ''insecure_http'', ''bearer_token'',
     ''bearer_token_file'', ''queue'', ''retry'', ''circuit_breaker'', ''tls'', ''basic_auth'', ''headers'',
     ''external_labels'']"

text \<open>Unknown keys are ignored, at the top level and in a remote write entry, wherever they stand and
  whatever their value.\<close>

theorem unknown_keys_ignored:
  "apply_tree frac c (Node s (Some es) l) = apply_tree frac c (Node s (Some (filter (\<lambda>e. fst e \<in> set root_keys) es)) l)
   \<and> parse_remote_write_entry frac i (Node s (Some es) l) =
       parse_remote_write_entry frac i (Node s (Some (filter (\<lambda>e. fst e \<in> set entry_keys) es)) l)"
proof
  have "try_fold (root_entry frac) es c = try_fold (root_entry frac) (filter (\<lambda>e. fst e \<in> set root_keys) es) c"
    by (rule try_fold_filter) (simp add: root_entry_def root_keys_def Let_def)
  then show "apply_tree frac c (Node s (Some es) l) =
      apply_tree frac c (Node s (Some (filter (\<lambda>e. fst e \<in> set root_keys) es)) l)"
    by (simp add: apply_tree_def apply_map_def)
  have "try_fold (remote_write_field frac i) es empty_rw =
      try_fold (remote_write_field frac i) (filter (\<lambda>e. fst e \<in> set entry_keys) es) empty_rw"
    by (rule try_fold_filter) (simp add: remote_write_field_def entry_keys_def Let_def)
  then show "parse_remote_write_entry frac i (Node s (Some es) l) =
      parse_remote_write_entry frac i (Node s (Some (filter (\<lambda>e. fst e \<in> set entry_keys) es)) l)"
    by (simp add: parse_remote_write_entry_def)
qed

end
