(* ===== verification/QueueSpec.thy ===== *)
theory QueueSpec
  imports GoBase
begin

text \<open>
  The contract between the remote-write producers (\<open>Pusher.flush\<close>, \<open>Sender.Enqueue\<close>) and the
  consumer loop (\<open>Sender.Run\<close>) on one side and the batch queue on the other: a bounded FIFO
  that drops its oldest element when full, refuses elements once closed, and can be drained
  after it is closed. The clients' lemmas are proved against the contract; the ring buffer of
  \<open>RWQueue\<close> provides it.
\<close>

section \<open>Runs of queue operations\<close>

datatype 'b qop = OpEnq 'b | OpDeq | OpClose

text \<open>
  One run records, beside the queue, the batches it accepted (enqueued while open) and the
  batches that left it, in order, each with whether it was delivered to a consumer or evicted.
\<close>

datatype 'b departure = Delivered 'b | Evicted 'b

primrec departed :: "'b departure \<Rightarrow> 'b" where
  "departed (Delivered b) = b"
| "departed (Evicted b) = b"

record ('q, 'b) qrun =
  run_queue :: 'q
  run_accepted :: "'b list"
  run_left :: "'b departure list"

fun run_op :: "('b \<Rightarrow> 'q \<Rightarrow> 'q \<times> 'b option) \<Rightarrow> ('q \<Rightarrow> 'q \<times> 'b option) \<Rightarrow> ('q \<Rightarrow> 'q) \<Rightarrow> ('q \<Rightarrow> bool)
    \<Rightarrow> ('q, 'b) qrun \<Rightarrow> 'b qop \<Rightarrow> ('q, 'b) qrun" where
  "run_op enq deq shut closed r (OpEnq b) =
     (let (q, d) = enq b (run_queue r)
      in \<lparr>run_queue = q,
          run_accepted = (if closed (run_queue r) then run_accepted r else run_accepted r @ [b]),
          run_left = run_left r @ (case d of None \<Rightarrow> [] | Some x \<Rightarrow> [Evicted x])\<rparr>)"
| "run_op enq deq shut closed r OpDeq =
     (let (q, d) = deq (run_queue r)
      in r\<lparr>run_queue := q,
           run_left := run_left r @ (case d of None \<Rightarrow> [] | Some x \<Rightarrow> [Delivered x])\<rparr>)"
| "run_op enq deq shut closed r OpClose = r\<lparr>run_queue := shut (run_queue r)\<rparr>"

definition run_ops :: "('b \<Rightarrow> 'q \<Rightarrow> 'q \<times> 'b option) \<Rightarrow> ('q \<Rightarrow> 'q \<times> 'b option) \<Rightarrow> ('q \<Rightarrow> 'q) \<Rightarrow> ('q \<Rightarrow> bool)
    \<Rightarrow> 'b qop list \<Rightarrow> ('q, 'b) qrun \<Rightarrow> ('q, 'b) qrun" where
  "run_ops enq deq shut closed ops r = foldl (run_op enq deq shut closed) r ops"

definition start_run :: "'q \<Rightarrow> ('q, 'b) qrun" where
  "start_run q = \<lparr>run_queue = q, run_accepted = [], run_left = []\<rparr>"

text \<open>Consuming until nothing is left: what a consumer loop obtains from a closed queue.\<close>

primrec drain :: "('q \<Rightarrow> 'q \<times> 'b option) \<Rightarrow> nat \<Rightarrow> 'q \<Rightarrow> 'b list \<times> 'q" where
  "drain deq 0 q = ([], q)"
| "drain deq (Suc n) q =
     (case deq q of
        (q', None) \<Rightarrow> ([], q')
      | (q', Some b) \<Rightarrow> (let (bs, q'') = drain deq n q' in (b # bs, q'')))"

section \<open>The contract\<close>

locale drop_oldest_fifo =
  fixes enq :: "'b \<Rightarrow> 'q \<Rightarrow> 'q \<times> 'b option"
    and deq :: "'q \<Rightarrow> 'q \<times> 'b option"
    and shut :: "'q \<Rightarrow> 'q"
    and contents :: "'q \<Rightarrow> 'b list"
    and capacity :: "'q \<Rightarrow> nat"
    and closed :: "'q \<Rightarrow> bool"
    and ok :: "'q \<Rightarrow> bool"
  assumes ok_bound: "ok q \<Longrightarrow> length (contents q) \<le> capacity q"
    and ok_capacity: "ok q \<Longrightarrow> 0 < capacity q"
    and enq_refused: "closed q \<Longrightarrow> enq b q = (q, None)"
    and enq_room: "ok q \<Longrightarrow> \<not> closed q \<Longrightarrow> length (contents q) < capacity q \<Longrightarrow>
          snd (enq b q) = None \<and> contents (fst (enq b q)) = contents q @ [b]"
    and enq_full: "ok q \<Longrightarrow> \<not> closed q \<Longrightarrow> length (contents q) = capacity q \<Longrightarrow>
          snd (enq b q) = Some (hd (contents q)) \<and> contents (fst (enq b q)) = tl (contents q) @ [b]"
    and enq_frame: "ok q \<Longrightarrow> ok (fst (enq b q)) \<and> capacity (fst (enq b q)) = capacity q
          \<and> closed (fst (enq b q)) = closed q"
    and deq_empty: "ok q \<Longrightarrow> contents q = [] \<Longrightarrow> deq q = (q, None)"
    and deq_head: "ok q \<Longrightarrow> contents q = b # bs \<Longrightarrow>
          snd (deq q) = Some b \<and> contents (fst (deq q)) = bs"
    and deq_frame: "ok q \<Longrightarrow> ok (fst (deq q)) \<and> capacity (fst (deq q)) = capacity q
          \<and> closed (fst (deq q)) = closed q"
    and shut_law: "ok q \<Longrightarrow> ok (shut q) \<and> closed (shut q) \<and> contents (shut q) = contents q
          \<and> capacity (shut q) = capacity q"
begin

definition accounted :: "nat \<Rightarrow> ('q, 'b) qrun \<Rightarrow> bool" where
  "accounted c r \<longleftrightarrow> ok (run_queue r) \<and> capacity (run_queue r) = c
     \<and> run_accepted r = map departed (run_left r) @ contents (run_queue r)"

lemma accounted_enq:
  assumes r: "accounted c r"
  shows "accounted c (run_op enq deq shut closed r (OpEnq b))"
proof (cases "closed (run_queue r)")
  case True
  with r show ?thesis by (simp add: accounted_def enq_refused)
next
  case False
  let ?q = "run_queue r"
  have ok: "ok ?q" using r by (simp add: accounted_def)
  obtain q d where e: "enq b ?q = (q, d)" by fastforce
  consider (room) "length (contents ?q) < capacity ?q" | (full) "length (contents ?q) = capacity ?q"
    using ok_bound [OF ok] by linarith
  then show ?thesis
  proof cases
    case room
    with r False e enq_room [OF ok False room, of b] enq_frame [OF ok, of b]
    show ?thesis by (simp add: accounted_def)
  next
    case full
    then have "contents ?q \<noteq> []" using ok_capacity [OF ok] by auto
    with r False e enq_full [OF ok False full, of b] enq_frame [OF ok, of b]
    show ?thesis by (simp add: accounted_def)
  qed
qed

lemma accounted_deq:
  assumes r: "accounted c r"
  shows "accounted c (run_op enq deq shut closed r OpDeq)"
proof -
  let ?q = "run_queue r"
  have ok: "ok ?q" using r by (simp add: accounted_def)
  obtain q d where e: "deq ?q = (q, d)" by fastforce
  show ?thesis
  proof (cases "contents ?q")
    case Nil
    with r deq_empty [OF ok Nil] show ?thesis by (simp add: accounted_def)
  next
    case (Cons b bs)
    with r e deq_head [OF ok Cons] deq_frame [OF ok] show ?thesis
      by (simp add: accounted_def)
  qed
qed

lemma accounted_close:
  "accounted c r \<Longrightarrow> accounted c (run_op enq deq shut closed r OpClose)"
  by (simp add: accounted_def shut_law)

lemma accounted_step: "accounted c r \<Longrightarrow> accounted c (run_op enq deq shut closed r x)"
  by (cases x) (auto simp: accounted_enq accounted_deq accounted_close simp del: run_op.simps)

lemma accounted_run: "accounted c r \<Longrightarrow> accounted c (run_ops enq deq shut closed ops r)"
  by (induction ops arbitrary: r) (simp_all add: run_ops_def accounted_step)

text \<open>Nothing is lost or reordered: what was accepted is what left, in order, then what remains.\<close>

lemma conservation:
  assumes "ok q" and "contents q = []"
  shows "run_accepted (run_ops enq deq shut closed ops (start_run q)) =
           map departed (run_left (run_ops enq deq shut closed ops (start_run q)))
           @ contents (run_queue (run_ops enq deq shut closed ops (start_run q)))"
    and "length (contents (run_queue (run_ops enq deq shut closed ops (start_run q)))) \<le> capacity q"
proof -
  have "accounted (capacity q) (start_run q)"
    using assms by (simp add: accounted_def start_run_def)
  then have a: "accounted (capacity q) (run_ops enq deq shut closed ops (start_run q))"
    by (rule accounted_run)
  then show "run_accepted (run_ops enq deq shut closed ops (start_run q)) =
           map departed (run_left (run_ops enq deq shut closed ops (start_run q)))
           @ contents (run_queue (run_ops enq deq shut closed ops (start_run q)))"
    by (simp add: accounted_def)
  from a show "length (contents (run_queue (run_ops enq deq shut closed ops (start_run q)))) \<le> capacity q"
    using ok_bound [of "run_queue (run_ops enq deq shut closed ops (start_run q))"]
    by (simp add: accounted_def)
qed

lemma drain_contents:
  "ok q \<Longrightarrow> length (contents q) \<le> n \<Longrightarrow> fst (drain deq n q) = contents q
     \<and> contents (snd (drain deq n q)) = []"
proof (induction n arbitrary: q)
  case 0
  then show ?case by simp
next
  case (Suc n)
  obtain q' d where e: "deq q = (q', d)" by fastforce
  show ?case
  proof (cases "contents q")
    case Nil
    with Suc.prems deq_empty show ?thesis by simp
  next
    case (Cons b bs)
    with Suc.prems e deq_head [of q b bs] deq_frame [of q]
    have "d = Some b" "contents q' = bs" "ok q'" by auto
    with Suc.IH [of q'] Suc.prems Cons e show ?thesis
      by (auto split: prod.splits)
  qed
qed

end

end
