(* ===== verification/RWQueue.thy ===== *)
theory RWQueue
  imports QueueSpec
begin

text \<open>
  \<^verbatim>\<open>internal/remotewrite/queue.go\<close>: the fixed-capacity ring buffer of time series batches
  with drop-oldest overflow. Every operation runs under the queue's mutex, so it is one atomic
  step of the model: it returns the new queue and the observer calls it makes, in order.
  \<open>Dequeue\<close> returns \<open>DeqWait\<close> where the code stays in \<open>cond.Wait\<close>.
\<close>

section \<open>State and operations\<close>

datatype qevent =
    OnEnqueue nat
  | OnDequeue nat
  | OnDrop string nat
  | SetCapacity nat

text \<open>A batch is a slice of time series; Go's nil slice is the empty list.\<close>

record 'ts rwq =
  q_buf :: "'ts list list"
  q_head :: nat
  q_size :: nat
  q_cap :: nat
  q_closed :: bool

definition new_queue :: "int \<Rightarrow> 'ts rwq \<times> qevent list" where
  "new_queue capacity =
     (let c = nat (if capacity < 1 then 1 else capacity)
      in (\<lparr>q_buf = replicate c [], q_head = 0, q_size = 0, q_cap = c, q_closed = False\<rparr>,
          [SetCapacity c]))"

definition evict_oldest :: "'ts rwq \<Rightarrow> 'ts rwq \<times> nat" where
  "evict_oldest q =
     (if q_size q = q_cap q
      then (q\<lparr>q_buf := (q_buf q)[q_head q := []],
              q_head := (q_head q + 1) mod q_cap q,
              q_size := q_size q - 1\<rparr>,
            length (q_buf q ! q_head q))
      else (q, 0))"

definition put_tail :: "'ts rwq \<Rightarrow> 'ts list \<Rightarrow> 'ts rwq" where
  "put_tail q batch =
     q\<lparr>q_buf := (q_buf q)[(q_head q + q_size q) mod q_cap q := batch],
       q_size := q_size q + 1\<rparr>"

definition q_enqueue :: "'ts rwq \<Rightarrow> 'ts list \<Rightarrow> 'ts rwq \<times> qevent list" where
  "q_enqueue q batch =
     (if q_closed q then (q, [])
      else
        let (q1, droppedSize) = evict_oldest q;
            q2 = put_tail q1 batch
        in (q2, (if droppedSize > 0 then [OnDrop ''queue_full'' droppedSize] else [])
                @ [OnEnqueue (q_size q2)]))"

datatype 'ts deq_result = DeqBatch "'ts list" | DeqClosed | DeqCtxErr | DeqWait

definition q_dequeue :: "'ts rwq \<Rightarrow> bool \<Rightarrow> 'ts rwq \<times> 'ts deq_result \<times> qevent list" where
  "q_dequeue q ctx_done =
     (if q_size q = 0 \<and> \<not> q_closed q \<and> \<not> ctx_done then (q, DeqWait, [])
      else if q_size q = 0 then (q, (if q_closed q then DeqClosed else DeqCtxErr), [])
      else
        let batch = q_buf q ! q_head q;
            q' = q\<lparr>q_buf := (q_buf q)[q_head q := []],
                   q_head := (q_head q + 1) mod q_cap q,
                   q_size := q_size q - 1\<rparr>
        in (q', DeqBatch batch, [OnDequeue (q_size q')]))"

definition q_len :: "'ts rwq \<Rightarrow> nat" where "q_len q = q_size q"

definition q_capacity :: "'ts rwq \<Rightarrow> nat" where "q_capacity q = q_cap q"

definition q_close :: "'ts rwq \<Rightarrow> 'ts rwq" where "q_close q = q\<lparr>q_closed := True\<rparr>"

section \<open>Abstraction and invariant\<close>

definition slot :: "'ts rwq \<Rightarrow> nat \<Rightarrow> nat" where
  "slot q i = (q_head q + i) mod q_cap q"

definition q_contents :: "'ts rwq \<Rightarrow> 'ts list list" where
  "q_contents q = map (\<lambda>i. q_buf q ! slot q i) [0..<q_size q]"

text \<open>The ring is well formed, and every slot outside the live window holds no batch.\<close>

definition q_ok :: "'ts rwq \<Rightarrow> bool" where
  "q_ok q \<longleftrightarrow> 0 < q_cap q \<and> length (q_buf q) = q_cap q \<and> q_head q < q_cap q
     \<and> q_size q \<le> q_cap q
     \<and> (\<forall>i < q_cap q. q_size q \<le> i \<longrightarrow> q_buf q ! slot q i = [])"

lemma length_q_contents [simp]: "length (q_contents q) = q_size q"
  by (simp add: q_contents_def)

lemma slot_less [simp]: "0 < q_cap q \<Longrightarrow> slot q i < q_cap q"
  by (simp add: slot_def)

text \<open>Within one turn of the ring, a slot is an addition with at most one subtraction.\<close>

lemma ring_mod:
  fixes h i c :: nat
  assumes "h < c" "i \<le> c"
  shows "(h + i) mod c = (if h + i < c then h + i else h + i - c)"
  using assms by (auto simp: mod_if)

lemma ring_mod_inj:
  fixes h i j c :: nat
  assumes "h < c" "i < c" "j < c"
  shows "(h + i) mod c = (h + j) mod c \<longleftrightarrow> i = j"
  using assms by (auto simp: ring_mod split: if_splits)

lemma ring_mod_Suc:
  fixes h i c :: nat
  assumes "h < c"
  shows "((h + 1) mod c + i) mod c = (h + Suc i) mod c"
  by (simp add: mod_simps)

lemma slot_inj: "q_ok q \<Longrightarrow> i < q_cap q \<Longrightarrow> j < q_cap q \<Longrightarrow> slot q i = slot q j \<longleftrightarrow> i = j"
  by (simp add: slot_def q_ok_def ring_mod_inj)

lemma q_contents_eqI:
  assumes "length xs = q_size q" and "\<And>i. i < q_size q \<Longrightarrow> q_buf q ! slot q i = xs ! i"
  shows "q_contents q = xs"
  using assms by (intro nth_equalityI) (simp_all add: q_contents_def)

lemma nth_q_contents: "i < q_size q \<Longrightarrow> q_contents q ! i = q_buf q ! slot q i"
  by (simp add: q_contents_def)

definition pop_head :: "'ts rwq \<Rightarrow> 'ts rwq" where
  "pop_head q = q\<lparr>q_buf := (q_buf q)[q_head q := []],
                  q_head := (q_head q + 1) mod q_cap q,
                  q_size := q_size q - 1\<rparr>"

lemma slot_pop_head: "q_ok q \<Longrightarrow> slot (pop_head q) i = slot q (Suc i)"
  using ring_mod_Suc [of "q_head q" "q_cap q" i] by (simp add: slot_def pop_head_def q_ok_def)

lemma pop_head_sel [simp]:
  "q_buf (pop_head q) = (q_buf q)[q_head q := []]"
  "q_size (pop_head q) = q_size q - 1"
  "q_cap (pop_head q) = q_cap q"
  "q_closed (pop_head q) = q_closed q"
  "q_head (pop_head q) = (q_head q + 1) mod q_cap q"
  by (simp_all add: pop_head_def)

lemma slot_0 [simp]: "q_ok q \<Longrightarrow> slot q 0 = q_head q"
  by (simp add: slot_def q_ok_def)

lemma slot_turn: "q_ok q \<Longrightarrow> slot q (q_cap q) = q_head q"
  by (simp add: slot_def q_ok_def)

lemma slot_Suc_neq_head:
  assumes "q_ok q" "Suc i < q_cap q"
  shows "q_head q \<noteq> slot q (Suc i)"
  using slot_inj [OF assms, of 0] assms(2) slot_0 [OF assms(1)] by auto

lemma pop_head_ok:
  assumes q: "q_ok q" and s: "0 < q_size q"
  shows "q_ok (pop_head q)"
proof -
  have "(q_buf q)[q_head q := []] ! slot q (Suc i) = []" if i: "i < q_cap q" "q_size q - 1 \<le> i" for i
  proof (cases "Suc i = q_cap q")
    case True
    with q show ?thesis using slot_turn [OF q] by (simp add: q_ok_def)
  next
    case False
    with i have Si: "Suc i < q_cap q" by simp
    with q i s slot_Suc_neq_head [OF q Si] show ?thesis by (simp add: q_ok_def)
  qed
  with q s show ?thesis unfolding q_ok_def
    by (auto simp: slot_pop_head [OF q])
qed

lemma pop_head_contents:
  assumes q: "q_ok q" and s: "0 < q_size q"
  shows "q_contents (pop_head q) = tl (q_contents q)"
proof -
  have "q_head q \<noteq> slot q (Suc i)" if "i < q_size q - 1" for i
  proof -
    have "Suc i < q_cap q" using that q by (auto simp: q_ok_def)
    then show ?thesis by (rule slot_Suc_neq_head [OF q])
  qed
  then show ?thesis
    by (intro q_contents_eqI) (simp_all add: slot_pop_head [OF q] nth_tl nth_q_contents)
qed

lemma hd_q_contents: "q_ok q \<Longrightarrow> 0 < q_size q \<Longrightarrow> hd (q_contents q) = q_buf q ! q_head q"
  by (subst hd_conv_nth) (auto simp: nth_q_contents simp flip: length_0_conv)

lemma put_tail_sel [simp]:
  "q_buf (put_tail q b) = (q_buf q)[slot q (q_size q) := b]"
  "q_size (put_tail q b) = Suc (q_size q)"
  "q_cap (put_tail q b) = q_cap q"
  "q_closed (put_tail q b) = q_closed q"
  "q_head (put_tail q b) = q_head q"
  "slot (put_tail q b) = slot q"
  by (simp_all add: put_tail_def slot_def fun_eq_iff)

lemma put_tail_nth:
  assumes "q_ok q" "q_size q < q_cap q" "i < q_cap q"
  shows "q_buf (put_tail q b) ! slot q i = (if i = q_size q then b else q_buf q ! slot q i)"
  using assms slot_inj [OF assms(1,3,2)] by (auto simp: nth_list_update q_ok_def)

lemma put_tail_ok: "q_ok q \<Longrightarrow> q_size q < q_cap q \<Longrightarrow> q_ok (put_tail q b)"
  using put_tail_nth [of q _ b] unfolding q_ok_def by (auto simp del: put_tail_sel(1)) simp

lemma put_tail_contents:
  assumes q: "q_ok q" and s: "q_size q < q_cap q"
  shows "q_contents (put_tail q b) = q_contents q @ [b]"
  by (rule q_contents_eqI)
    (use s in \<open>auto simp: put_tail_nth [OF q s] nth_append nth_q_contents less_Suc_eq simp del: put_tail_sel(1)\<close>)

lemma evict_oldest_full:
  "q_ok q \<Longrightarrow> q_size q = q_cap q \<Longrightarrow> evict_oldest q = (pop_head q, length (hd (q_contents q)))"
  by (simp add: evict_oldest_def pop_head_def hd_q_contents q_ok_def)

lemma evict_oldest_room: "q_size q \<noteq> q_cap q \<Longrightarrow> evict_oldest q = (q, 0)"
  by (simp add: evict_oldest_def)

lemma q_dequeue_batch:
  "q_ok q \<Longrightarrow> 0 < q_size q \<Longrightarrow>
     q_dequeue q ctx_done = (pop_head q, DeqBatch (hd (q_contents q)), [OnDequeue (q_size q - 1)])"
  by (simp add: q_dequeue_def hd_q_contents pop_head_def)

lemma q_dequeue_none:
  "q_size q = 0 \<Longrightarrow> q_dequeue q ctx_done =
     (q, (if q_closed q then DeqClosed else if ctx_done then DeqCtxErr else DeqWait), [])"
  by (simp add: q_dequeue_def)

lemma new_queue_ok: "q_ok (fst (new_queue n))" "q_contents (fst (new_queue n)) = []"
    "q_cap (fst (new_queue n)) = nat (max 1 n)" "\<not> q_closed (fst (new_queue n))"
  by (auto simp: new_queue_def q_ok_def slot_def q_contents_def Let_def)

section \<open>The functional behaviour of Enqueue\<close>

lemma q_enqueue_open:
  assumes q: "q_ok q" and op: "\<not> q_closed q"
  defines "full \<equiv> q_size q = q_cap q"
  shows "q_enqueue q b =
    (put_tail (if full then pop_head q else q) b,
     (if full \<and> hd (q_contents q) \<noteq> [] then [OnDrop ''queue_full'' (length (hd (q_contents q)))] else [])
      @ [OnEnqueue (if full then q_cap q else Suc (q_size q))])"
proof (cases full)
  case True
  moreover have "0 < q_cap q" using q by (simp add: q_ok_def)
  ultimately show ?thesis using q op
    by (simp add: q_enqueue_def evict_oldest_full full_def)
next
  case False
  then show ?thesis using op by (simp add: q_enqueue_def evict_oldest_room full_def)
qed

lemma q_enqueue_closed: "q_closed q \<Longrightarrow> q_enqueue q b = (q, [])"
  by (simp add: q_enqueue_def)

lemma q_enqueue_state:
  assumes q: "q_ok q" and op: "\<not> q_closed q"
  shows "q_ok (fst (q_enqueue q b))"
    and "q_contents (fst (q_enqueue q b)) =
           (if q_size q = q_cap q then tl (q_contents q) else q_contents q) @ [b]"
    and "q_cap (fst (q_enqueue q b)) = q_cap q"
    and "q_closed (fst (q_enqueue q b)) = q_closed q"
proof -
  have bnd: "q_size q \<le> q_cap q" "0 < q_cap q" using q by (auto simp: q_ok_def)
  then have ok': "q_ok (if q_size q = q_cap q then pop_head q else q)"
    using q by (simp add: pop_head_ok)
  have lt: "q_size (if q_size q = q_cap q then pop_head q else q)
      < q_cap (if q_size q = q_cap q then pop_head q else q)"
    using bnd by auto
  show "q_ok (fst (q_enqueue q b))"
    unfolding q_enqueue_open [OF q op] fst_conv by (rule put_tail_ok [OF ok' lt])
  show "q_contents (fst (q_enqueue q b)) =
           (if q_size q = q_cap q then tl (q_contents q) else q_contents q) @ [b]"
    unfolding q_enqueue_open [OF q op] fst_conv put_tail_contents [OF ok' lt]
    using q bnd by (simp add: pop_head_contents)
  show "q_cap (fst (q_enqueue q b)) = q_cap q" "q_closed (fst (q_enqueue q b)) = q_closed q"
    unfolding q_enqueue_open [OF q op] fst_conv by simp_all
qed

section \<open>The ring buffer provides the queue contract\<close>

definition q_push :: "'ts list \<Rightarrow> 'ts rwq \<Rightarrow> 'ts rwq \<times> 'ts list option" where
  "q_push b q = (fst (q_enqueue q b),
     if \<not> q_closed q \<and> q_size q = q_cap q then Some (q_buf q ! q_head q) else None)"

definition q_pop :: "'ts rwq \<Rightarrow> 'ts rwq \<times> 'ts list option" where
  "q_pop q = (case q_dequeue q False of
     (q', DeqBatch b, _) \<Rightarrow> (q', Some b)
   | (q', _, _) \<Rightarrow> (q', None))"

interpretation ring: drop_oldest_fifo q_push q_pop q_close q_contents q_cap q_closed q_ok
proof unfold_locales
  fix q :: "'a rwq" and b :: "'a list" and bs
  assume q: "q_ok q"
  then show "length (q_contents q) \<le> q_cap q" and "0 < q_cap q" by (simp_all add: q_ok_def)
  show "q_ok (fst (q_push b q)) \<and> q_cap (fst (q_push b q)) = q_cap q
      \<and> q_closed (fst (q_push b q)) = q_closed q"
    using q q_enqueue_state [OF q] q_enqueue_closed [of q b]
    by (cases "q_closed q") (simp_all add: q_push_def)
  show "q_ok (q_close q) \<and> q_closed (q_close q) \<and> q_contents (q_close q) = q_contents q
      \<and> q_cap (q_close q) = q_cap q"
    using q by (simp add: q_close_def q_ok_def q_contents_def slot_def)
  show "q_ok (fst (q_pop q)) \<and> q_cap (fst (q_pop q)) = q_cap q
      \<and> q_closed (fst (q_pop q)) = q_closed q"
    using q by (cases "q_size q = 0") (simp_all add: q_pop_def q_dequeue_none q_dequeue_batch pop_head_ok)
next
  fix q :: "'a rwq" and b :: "'a list"
  assume "q_closed q"
  then show "q_push b q = (q, None)" by (simp add: q_push_def q_enqueue_closed)
next
  fix q :: "'a rwq" and b :: "'a list"
  assume "q_ok q" "\<not> q_closed q" "length (q_contents q) < q_cap q"
  then show "snd (q_push b q) = None \<and> q_contents (fst (q_push b q)) = q_contents q @ [b]"
    by (simp add: q_push_def q_enqueue_state)
next
  fix q :: "'a rwq" and b :: "'a list"
  assume a: "q_ok q" "\<not> q_closed q" "length (q_contents q) = q_cap q"
  then have "0 < q_size q" by (simp add: q_ok_def)
  with a show "snd (q_push b q) = Some (hd (q_contents q)) \<and>
      q_contents (fst (q_push b q)) = tl (q_contents q) @ [b]"
    by (simp add: q_push_def q_enqueue_state hd_q_contents)
next
  fix q :: "'a rwq"
  assume "q_ok q" "q_contents q = []"
  then show "q_pop q = (q, None)"
    by (simp add: q_pop_def q_dequeue_none flip: length_0_conv)
next
  fix q :: "'a rwq" and b :: "'a list" and bs
  assume q: "q_ok q" and c: "q_contents q = b # bs"
  then have "0 < q_size q" using length_q_contents [of q] by simp
  with q c show "snd (q_pop q) = Some b \<and> q_contents (fst (q_pop q)) = bs"
    by (simp add: q_pop_def q_dequeue_batch pop_head_contents)
qed

section \<open>Properties of the queue\<close>

text \<open>Enqueue on an open queue refines the abstract bounded FIFO: the ring stays well formed
  (unused slots released), the contents are the old ones without the oldest batch when the ring
  was full, followed by the new batch; the observer hears one \<open>queue_full\<close> drop with the number
  of series lost (none for an empty batch) and the new length, which never exceeds the capacity.\<close>

theorem enqueue_drop_oldest:
  assumes "q_ok q" and "\<not> q_closed q"
  shows "q_ok (fst (q_enqueue q b)) \<and>
    q_contents (fst (q_enqueue q b)) = drop (q_size q + 1 - q_cap q) (q_contents q @ [b]) \<and>
    snd (q_enqueue q b) =
      (if q_size q = q_cap q \<and> hd (q_contents q) \<noteq> []
       then [OnDrop ''queue_full'' (length (hd (q_contents q)))] else [])
      @ [OnEnqueue (min (q_cap q) (q_size q + 1))]"
proof -
  have b: "q_size q \<le> q_cap q" "0 < q_cap q" using assms by (auto simp: q_ok_def)
  then have "q_size q = q_cap q \<Longrightarrow> q_contents q \<noteq> []" by (auto simp flip: length_0_conv)
  then show ?thesis
    using b q_enqueue_state [OF assms, of b] q_enqueue_open [OF assms, of b]
    by (auto simp: drop_Suc_eq_tl min_def)
qed

theorem enqueue_drop_oldest_witness:
  "snd (q_enqueue \<lparr>q_buf = [[1::nat], [2,3]], q_head = 1, q_size = 2, q_cap = 2, q_closed = False\<rparr> [4])
     = [OnDrop ''queue_full'' 2, OnEnqueue 2]"
proof -
  let ?q = "\<lparr>q_buf = [[1::nat], [2,3]], q_head = 1, q_size = 2, q_cap = 2, q_closed = False\<rparr>"
  have "q_ok ?q" by (simp add: q_ok_def)
  moreover have "\<not> q_closed ?q" by simp
  ultimately show ?thesis
    using enqueue_drop_oldest [of ?q "[4]"] by (simp add: q_contents_def slot_def upt_conv_Cons)
qed

text \<open>C28. Over any sequence of Enqueue, Dequeue and Close on a new queue, no accepted batch is lost,
  duplicated or reordered: the accepted batches are exactly those that left (delivered or evicted),
  in order, followed by those still queued, and never more than the capacity are queued.\<close>

theorem queue_conservation:
  "let r = run_ops q_push q_pop q_close q_closed ops (start_run (fst (new_queue n)))
   in run_accepted r = map departed (run_left r) @ q_contents (run_queue r)
      \<and> q_size (run_queue r) \<le> nat (max 1 n)"
  using ring.conservation [OF new_queue_ok(1,2), of ops n]
  by (simp add: Let_def new_queue_ok)

text \<open>Dequeue blocks exactly when the queue is empty, open and the context is live; a non-empty
  queue yields its oldest batch even when it is closed or the context is cancelled, and an empty one
  reports closure before cancellation.\<close>

theorem dequeue_behaviour:
  assumes "q_ok q"
  shows "(fst (snd (q_dequeue q ctx_done)) = DeqWait \<longleftrightarrow>
            q_contents q = [] \<and> \<not> q_closed q \<and> \<not> ctx_done)
    \<and> (q_contents q = b # bs \<longrightarrow>
         fst (snd (q_dequeue q ctx_done)) = DeqBatch b
         \<and> q_contents (fst (q_dequeue q ctx_done)) = bs \<and> q_ok (fst (q_dequeue q ctx_done)))
    \<and> (q_contents q = [] \<longrightarrow> q_closed q \<longrightarrow> fst (snd (q_dequeue q ctx_done)) = DeqClosed)"
proof (cases "q_size q = 0")
  case True
  then have "q_contents q = []" by (simp flip: length_0_conv)
  with True show ?thesis by (simp add: q_dequeue_none)
next
  case False
  then have "q_contents q \<noteq> []" by (simp flip: length_0_conv)
  with False assms show ?thesis
    by (auto simp: q_dequeue_batch pop_head_contents pop_head_ok)
qed

theorem dequeue_behaviour_witness:
  "fst (snd (q_dequeue \<lparr>q_buf = [[7::nat], [8]], q_head = 1, q_size = 2, q_cap = 2, q_closed = True\<rparr> True))
     = DeqBatch [8]"
proof -
  let ?q = "\<lparr>q_buf = [[7::nat], [8]], q_head = 1, q_size = 2, q_cap = 2, q_closed = True\<rparr>"
  have "q_ok ?q" by (simp add: q_ok_def)
  moreover have "q_contents ?q = [8] # [[7]]" by (simp add: q_contents_def slot_def upt_conv_Cons)
  ultimately show ?thesis
    using dequeue_behaviour [of ?q True "[8]" "[[7]]"] by blast
qed

end
