(* ===== verification/Wire.thy ===== *)
theory Wire
  imports GoStrings
begin

text \<open>
  \<^verbatim>\<open>internal/remotewrite/errors.go\<close>, \<^verbatim>\<open>wire.go\<close> and \<^verbatim>\<open>redact.go\<close>: the typed errors of a
  remote-write attempt, the request's headers, the classification of transport errors and HTTP
  statuses, \<open>Retry-After\<close>, the Basic authorization header and the redaction of URL credentials.

  The payload (protobuf and snappy, third-party packages) is not modelled here; the HTTP exchange
  (\<open>http.NewRequestWithContext\<close>, \<open>http.Client.Do\<close>) is an argument of \<open>send_write_request\<close>, and
  \<open>http.ParseTime\<close> an argument \<open>parse_time\<close> of the definitions that read \<open>Retry-After\<close>.
\<close>

section \<open>Errors\<close>

text \<open>
  A Go error: the two context errors the code compares with, the two typed errors of this package
  with the error they wrap, any other error that wraps one, and an opaque error.
\<close>

datatype goerr =
    CtxCanceled
  | CtxDeadlineExceeded
  | ErrNonRetryable int goerr
  | ErrRetryable int goerr duration
  | ErrWrap string goerr
  | ErrOpaque string

fun unwrap_err :: "goerr \<Rightarrow> goerr option" where
  "unwrap_err (ErrNonRetryable _ c) = Some c"
| "unwrap_err (ErrRetryable _ c _) = Some c"
| "unwrap_err (ErrWrap _ c) = Some c"
| "unwrap_err _ = None"

text \<open>\<open>errors.Is\<close> against a context error and \<open>errors.As\<close> for the two typed errors.\<close>

fun err_is :: "goerr \<Rightarrow> goerr \<Rightarrow> bool" where
  "err_is target (ErrNonRetryable s c) = (ErrNonRetryable s c = target \<or> err_is target c)"
| "err_is target (ErrRetryable s c d) = (ErrRetryable s c d = target \<or> err_is target c)"
| "err_is target (ErrWrap m c) = (ErrWrap m c = target \<or> err_is target c)"
| "err_is target e = (e = target)"

fun as_retryable :: "goerr \<Rightarrow> (int \<times> duration) option" where
  "as_retryable (ErrRetryable s _ d) = Some (s, d)"
| "as_retryable (ErrNonRetryable _ c) = as_retryable c"
| "as_retryable (ErrWrap _ c) = as_retryable c"
| "as_retryable _ = None"

fun as_non_retryable :: "goerr \<Rightarrow> int option" where
  "as_non_retryable (ErrNonRetryable s _) = Some s"
| "as_non_retryable (ErrRetryable _ c _) = as_non_retryable c"
| "as_non_retryable (ErrWrap _ c) = as_non_retryable c"
| "as_non_retryable _ = None"

definition is_retryable :: "goerr \<Rightarrow> bool" where
  "is_retryable e \<longleftrightarrow> as_retryable e \<noteq> None"

definition is_non_retryable :: "goerr \<Rightarrow> bool" where
  "is_non_retryable e \<longleftrightarrow> as_non_retryable e \<noteq> None"

section \<open>Retry-After and the classification of responses\<close>

definition parse_retry_after :: "(string \<Rightarrow> instant option) \<Rightarrow> string \<Rightarrow> instant \<Rightarrow> duration" where
  "parse_retry_after parse_time h now =
     (if h = [] then 0
      else case atoi h of
        Some secs \<Rightarrow> if secs < 0 then 0 else wrap64 (secs * second)
      | None \<Rightarrow>
          (case parse_time h of
             Some t \<Rightarrow> (let d = time_sub t now in if d > 0 then d else 0)
           | None \<Rightarrow> 0))"

record http_response =
  resp_status_code :: int
  resp_status :: string
  resp_retry_after :: string

definition server_returned :: "http_response \<Rightarrow> goerr" where
  "server_returned resp = ErrOpaque (''server returned '' @ resp_status resp)"

definition classify_status ::
    "(string \<Rightarrow> instant option) \<Rightarrow> instant \<Rightarrow> http_response \<Rightarrow> goerr option" where
  "classify_status parse_time now resp =
     (let status = resp_status_code resp in
      if 200 \<le> status \<and> status < 300 then None
      else if status \<in> {400, 401, 403, 404} then Some (ErrNonRetryable status (server_returned resp))
      else if status \<in> {408, 429} then
        Some (ErrRetryable status (server_returned resp)
               (parse_retry_after parse_time (resp_retry_after resp) now))
      else if 500 \<le> status \<and> status < 600 then
        Some (ErrRetryable status (server_returned resp)
               (parse_retry_after parse_time (resp_retry_after resp) now))
      else Some (ErrRetryable status (server_returned resp) 0))"

definition classify_transport_error :: "goerr \<Rightarrow> goerr" where
  "classify_transport_error err =
     (if err_is CtxCanceled err \<or> err_is CtxDeadlineExceeded err then err
      else ErrRetryable 0 err 0)"

section \<open>Request headers\<close>

type_synonym header = "string \<rightharpoonup> string"

definition set_header :: "header \<Rightarrow> string \<Rightarrow> string \<Rightarrow> header" where
  "set_header h k v = h(canonical_header k \<mapsto> v)"

definition rw_version :: string where "rw_version = ''0.1.0''"

definition user_agent_of_version :: "string \<Rightarrow> string" where
  "user_agent_of_version v = ''ollama-exporter/'' @ (if v = [] then ''dev'' else v)"

definition reserved_headers :: "string list" where
  "reserved_headers =
     [''Content-Encoding'', ''Content-Type'', ''X-Prometheus-Remote-Write-Version'']"

definition protocol_headers :: "string \<Rightarrow> header" where
  "protocol_headers agent =
     set_header (set_header (set_header (set_header Map.empty
       ''Content-Encoding'' ''snappy'')
       ''Content-Type'' ''application/x-protobuf'')
       ''X-Prometheus-Remote-Write-Version'' rw_version)
       ''User-Agent'' agent"

text \<open>
  The loop over the caller's header map. Go visits a map in an unspecified order: the list is the
  order of one visit, and the theorems hold for every list.
\<close>

fun apply_headers :: "header \<Rightarrow> (string \<times> string) list \<Rightarrow> header" where
  "apply_headers h [] = h"
| "apply_headers h ((k, v) # kvs) =
     (if canonical_header k \<in> set reserved_headers then apply_headers h kvs
      else apply_headers (set_header h k v) kvs)"

text \<open>
  One attempt: the request that is sent (none when it cannot be built) and the error it returns
  (none for success). \<open>build_err\<close> and \<open>reply\<close> are what \<open>http.NewRequestWithContext\<close> and
  \<open>http.Client.Do\<close> return.
\<close>

definition send_write_request ::
    "(string \<Rightarrow> instant option) \<Rightarrow> instant \<Rightarrow> string \<Rightarrow> (string \<times> string) list \<Rightarrow> goerr option
       \<Rightarrow> goerr + http_response \<Rightarrow> header option \<times> goerr option" where
  "send_write_request parse_time now agent headers build_err reply =
     (case build_err of
        Some e \<Rightarrow> (None, Some (ErrWrap ''build request'' e))
      | None \<Rightarrow>
          (Some (apply_headers (protocol_headers agent) headers),
           (case reply of
              Inl e \<Rightarrow> Some (classify_transport_error e)
            | Inr resp \<Rightarrow> classify_status parse_time now resp)))"

text \<open>
  The body of a request: \<open>marshal\<close> is \<open>WriteRequest.Marshal\<close> and \<open>snappy\<close> is \<open>snappy.Encode\<close>.
\<close>

definition encode_write_request ::
    "('s \<Rightarrow> goerr + string) \<Rightarrow> (string \<Rightarrow> string) \<Rightarrow> 's \<Rightarrow> goerr + string" where
  "encode_write_request marshal snappy ts =
     (case marshal ts of
        Inl e \<Rightarrow> Inl (ErrWrap ''marshal WriteRequest'' e)
      | Inr raw \<Rightarrow> Inr (snappy raw))"

definition encode_error :: "goerr + string \<Rightarrow> goerr option" where
  "encode_error r = (case r of Inl e \<Rightarrow> Some e | Inr _ \<Rightarrow> None)"

section \<open>Basic authorization and redaction\<close>

definition b64_alphabet :: string where
  "b64_alphabet = ''ABCDEFGHIJKLMNOPQRSTUVWXYZabcdefghijklmnopqrstuvwxyz0123456789+/''"

definition b64 :: "nat \<Rightarrow> char" where "b64 n = b64_alphabet ! (n mod 64)"

text \<open>\<open>base64.StdEncoding.EncodeToString\<close>.\<close>

fun base64_encode :: "string \<Rightarrow> string" where
  "base64_encode (a # b # c # cs) =
     (let n = byte a * 65536 + byte b * 256 + byte c
      in b64 (n div 262144) # b64 (n div 4096) # b64 (n div 64) # b64 n # base64_encode cs)"
| "base64_encode [a, b] =
     (let n = byte a * 65536 + byte b * 256
      in [b64 (n div 262144), b64 (n div 4096), b64 (n div 64), CHR ''=''])"
| "base64_encode [a] =
     (let n = byte a * 65536 in [b64 (n div 262144), b64 (n div 4096), CHR ''='', CHR ''=''])"
| "base64_encode [] = []"

definition basic_auth_header :: "string \<Rightarrow> string \<Rightarrow> string" where
  "basic_auth_header user pass = ''Basic '' @ base64_encode (user @ '':'' @ pass)"

text \<open>
  The regular expression \<^verbatim>\<open>(://)([^:/@\s]+):([^@\s]+)@\<close>. Its second group cannot contain the colon
  and its third the at sign that must follow them, so the greedy match of each group is the only
  one: \<open>userinfo\<close> matches at the start of a string and returns the groups and what follows.
\<close>

definition re_space :: "char \<Rightarrow> bool" where
  "re_space c \<longleftrightarrow> byte c \<in> {9, 10, 12, 13, 32}"

definition re_user :: "char \<Rightarrow> bool" where
  "re_user c \<longleftrightarrow> c \<noteq> CHR '':'' \<and> c \<noteq> CHR ''/'' \<and> c \<noteq> CHR ''@'' \<and> \<not> re_space c"

definition re_pass :: "char \<Rightarrow> bool" where
  "re_pass c \<longleftrightarrow> c \<noteq> CHR ''@'' \<and> \<not> re_space c"

definition userinfo :: "string \<Rightarrow> (string \<times> string \<times> string) option" where
  "userinfo s =
     (if has_prefix s ''://'' then
        let r = drop 3 s; u = takeWhile re_user r; r1 = dropWhile re_user r in
        if u \<noteq> [] \<and> has_prefix r1 '':'' then
          let p = takeWhile re_pass (tl r1); r2 = dropWhile re_pass (tl r1) in
          if p \<noteq> [] \<and> has_prefix r2 ''@'' then Some (u, p, tl r2) else None
        else None
      else None)"

lemma length_dropWhile_less: "length (dropWhile P xs) \<le> length xs"
  by (rule length_dropWhile_le)

lemma userinfo_length: "userinfo s = Some (u, p, r) \<Longrightarrow> length r < length s"
proof -
  assume a: "userinfo s = Some (u, p, r)"
  let ?r1 = "dropWhile re_user (drop 3 s)"
  let ?r2 = "dropWhile re_pass (tl ?r1)"
  from a have s: "has_prefix s ''://''" and r: "r = tl ?r2"
    by (auto simp: userinfo_def Let_def split: if_splits)
  have "length ?r2 \<le> length (tl ?r1)" "length ?r1 \<le> length (drop 3 s)"
    by (rule length_dropWhile_le)+
  moreover from s have "3 \<le> length s" by (auto simp: has_prefix_append)
  ultimately show ?thesis using r by simp
qed

text \<open>\<open>ReplaceAllString\<close>: the leftmost match is rewritten and the search goes on after it.\<close>

function redact :: "string \<Rightarrow> string" where
  "redact s =
     (case userinfo s of
        Some (u, p, r) \<Rightarrow> ''://REDACTED:REDACTED@'' @ redact r
      | None \<Rightarrow> (case s of [] \<Rightarrow> [] | c # cs \<Rightarrow> c # redact cs))"
  by pat_completeness auto
termination
  by (relation "measure length") (auto dest: userinfo_length)

declare redact.simps [simp del]

section \<open>Properties of the wire layer\<close>

lemma err_opaque [simp]:
  "as_retryable (server_returned r) = None" "as_non_retryable (server_returned r) = None"
  by (simp_all add: server_returned_def)

text \<open>The status table of the package comment: exactly the 2xx statuses succeed, exactly 400,
  401, 403 and 404 are non-retryable, and every other status is retryable and not non-retryable;
  only 408, 429 and 5xx carry a \<open>Retry-After\<close> delay.\<close>

theorem classify_status_table:
  "(classify_status pt now r = None \<longleftrightarrow> 200 \<le> resp_status_code r \<and> resp_status_code r < 300) \<and>
   (classify_status pt now r = Some e \<longrightarrow>
      (is_non_retryable e \<longleftrightarrow> resp_status_code r \<in> {400, 401, 403, 404}) \<and>
      (is_retryable e \<longleftrightarrow> \<not> is_non_retryable e) \<and>
      (\<forall>s d. as_retryable e = Some (s, d) \<longrightarrow> s = resp_status_code r \<and>
         d = (if s = 408 \<or> s = 429 \<or> 500 \<le> s \<and> s < 600
              then parse_retry_after pt (resp_retry_after r) now else 0)))"
proof -
  let ?s = "resp_status_code r"
  consider (ok) "200 \<le> ?s \<and> ?s < 300" | (rej) "?s \<in> {400, 401, 403, 404}"
    | (wait) "?s = 408 \<or> ?s = 429 \<or> 500 \<le> ?s \<and> ?s < 600"
    | (other) "\<not> (200 \<le> ?s \<and> ?s < 300)" "?s \<notin> {400, 401, 403, 404}"
        "\<not> (?s = 408 \<or> ?s = 429 \<or> 500 \<le> ?s \<and> ?s < 600)"
    by blast
  then show ?thesis
  proof cases
    case ok
    then show ?thesis by (simp add: classify_status_def)
  next
    case rej
    then have "classify_status pt now r = Some (ErrNonRetryable ?s (server_returned r))"
      by (auto simp: classify_status_def)
    with rej show ?thesis by (auto simp: is_retryable_def is_non_retryable_def)
  next
    case wait
    then have "classify_status pt now r = Some (ErrRetryable ?s (server_returned r)
        (parse_retry_after pt (resp_retry_after r) now))"
      by (auto simp: classify_status_def)
    with wait show ?thesis by (auto simp: is_retryable_def is_non_retryable_def)
  next
    case other
    have n: "(?s \<in> {408, 429}) = False" "(500 \<le> ?s \<and> ?s < 600) = False"
      "(200 \<le> ?s \<and> ?s < 300) = False" "(?s \<in> {400, 401, 403, 404}) = False"
      using other by simp_all
    have "classify_status pt now r = Some (ErrRetryable ?s (server_returned r) 0)"
      unfolding classify_status_def Let_def n if_False by (rule refl)
    then show ?thesis using n by (auto simp only: is_retryable_def is_non_retryable_def as_retryable.simps
          as_non_retryable.simps err_opaque option.simps prod.inject simp_thms if_False)
  qed
qed

theorem classify_status_table_witness:
  "is_non_retryable (ErrNonRetryable 403 (server_returned
      \<lparr>resp_status_code = 403, resp_status = ''403 Forbidden'', resp_retry_after = []\<rparr>))"
  using classify_status_table [of "\<lambda>_. None" 0
      "\<lparr>resp_status_code = 403, resp_status = ''403 Forbidden'', resp_retry_after = []\<rparr>"
      "ErrNonRetryable 403 (server_returned
      \<lparr>resp_status_code = 403, resp_status = ''403 Forbidden'', resp_retry_after = []\<rparr>)"]
  by (simp add: classify_status_def)

lemma apply_headers_reserved:
  "k \<in> set reserved_headers \<Longrightarrow> apply_headers h kvs k = h k"
  by (induction h kvs rule: apply_headers.induct) (auto simp: set_header_def)

lemma apply_headers_origin:
  "apply_headers h kvs k = Some v \<Longrightarrow>
     h k = Some v \<or> (\<exists>k'. (k', v) \<in> set kvs \<and> canonical_header k' = k)"
  by (induction h kvs rule: apply_headers.induct)
    (auto simp: set_header_def split: if_splits)

lemma reserved_canonical [simp]:
  "canonical_header ''Content-Encoding'' = ''Content-Encoding''"
  "canonical_header ''Content-Type'' = ''Content-Type''"
  "canonical_header ''X-Prometheus-Remote-Write-Version'' = ''X-Prometheus-Remote-Write-Version''"
  "canonical_header ''User-Agent'' = ''User-Agent''"
  "canonical_header ''Authorization'' = ''Authorization''"
  by (simp_all add: canonical_header_fixed is_lower_def is_upper_def byte_def)

text \<open>Whatever headers the operator configures, in whatever letter case and whatever order Go
  visits them, every request that is sent carries the three protocol headers with the protocol's
  values, and each other header's value comes from a configured header of that canonical name or is
  the default user agent.\<close>

theorem protocol_headers_protected:
  assumes "fst (send_write_request pt now agent headers build_err reply) = Some h"
  shows "h ''Content-Encoding'' = Some ''snappy'' \<and>
    h ''Content-Type'' = Some ''application/x-protobuf'' \<and>
    h ''X-Prometheus-Remote-Write-Version'' = Some rw_version \<and>
    (\<forall>k v. h k = Some v \<longrightarrow> k \<notin> set reserved_headers \<longrightarrow>
       (k = ''User-Agent'' \<and> v = agent) \<or> (\<exists>k'. (k', v) \<in> set headers \<and> canonical_header k' = k))"
proof -
  from assms have h: "h = apply_headers (protocol_headers agent) headers"
    by (auto simp: send_write_request_def split: option.splits)
  have r: "k \<in> set reserved_headers \<Longrightarrow> h k = protocol_headers agent k" for k
    using apply_headers_reserved h by simp
  have "(k = ''User-Agent'' \<and> v = agent) \<or> (\<exists>k'. (k', v) \<in> set headers \<and> canonical_header k' = k)"
    if "h k = Some v" "k \<notin> set reserved_headers" for k v
    using apply_headers_origin [of "protocol_headers agent" headers k v] that h
    by (auto simp: protocol_headers_def set_header_def reserved_headers_def split: if_splits)
  with r [of "''Content-Encoding''"] r [of "''Content-Type''"]
    r [of "''X-Prometheus-Remote-Write-Version''"] show ?thesis
    by (simp add: reserved_headers_def protocol_headers_def set_header_def)
qed

theorem protocol_headers_protected_witness:
  "apply_headers (protocol_headers ''a'') [(''content-TYPE'', ''text/html''), (''X-Scope'', ''t1'')] ''Content-Type''
     = Some ''application/x-protobuf''"
  using protocol_headers_protected [of "\<lambda>_. None" 0 "''a''"
      "[(''content-TYPE'', ''text/html''), (''X-Scope'', ''t1'')]" None "Inl (ErrOpaque ''x'')"]
  by (simp add: send_write_request_def)

text \<open>A delta-seconds \<open>Retry-After\<close> of at most 9223372036 seconds is taken exactly, a negative one
  as no delay, and the result always fits a duration.\<close>

theorem retry_after_seconds:
  assumes "atoi h = Some secs" and "secs \<le> 9223372036" and "h \<noteq> []"
  shows "parse_retry_after pt h now = max 0 (secs * second) \<and> in_i64 (parse_retry_after pt h now)"
proof -
  have "0 \<le> secs \<Longrightarrow> in_i64 (secs * second)"
    using assms(2) by (simp add: i64_defs second_def)
  then show ?thesis using assms
    by (auto simp: parse_retry_after_def second_def i64_defs)
qed

theorem retry_after_seconds_witness:
  "parse_retry_after (\<lambda>_. None) ''120'' 0 = 120 * second"
proof -
  have a: "atoi ''120'' = Some 120" by code_simp
  show ?thesis using retry_after_seconds [OF a, of "\<lambda>_. None" 0] by (simp add: second_def)
qed

text \<open>Beyond that the multiplication by \<open>time.Second\<close> wraps: a receiver that asks for
  9223372037 seconds yields a negative delay, not a long one and not the documented zero.\<close>

theorem retry_after_overflows:
  "parse_retry_after pt ''9223372037'' now = -9223372036709551616"
proof -
  have a: "atoi ''9223372037'' = Some 9223372037"
    by (simp add: atoi_def digits_val_def digit_val_def byte_def is_digit_def i64_defs)
  then show ?thesis by (simp add: parse_retry_after_def wrap64_def second_def)
qed

section \<open>Redaction leaves no credentials\<close>

lemma userinfo_Some_iff:
  "userinfo s = Some (u, p, r) \<longleftrightarrow>
     s = ''://'' @ u @ '':'' @ p @ ''@'' @ r \<and> u \<noteq> [] \<and> p \<noteq> [] \<and>
     (\<forall>c \<in> set u. re_user c) \<and> (\<forall>c \<in> set p. re_pass c)" (is "?L \<longleftrightarrow> ?R")
proof
  assume L: ?L
  let ?r = "drop 3 s" let ?r1 = "dropWhile re_user ?r" let ?r2 = "dropWhile re_pass (tl ?r1)"
  have s: "s = ''://'' @ ?r" using L
    by (auto simp: userinfo_def Let_def has_prefix_append split: if_splits)
  have u: "u = takeWhile re_user ?r" "u \<noteq> []" "p = takeWhile re_pass (tl ?r1)" "p \<noteq> []" "r = tl ?r2"
    and h: "has_prefix ?r1 '':''" "has_prefix ?r2 ''@''"
    using L by (auto simp: userinfo_def Let_def split: if_splits)
  have "?r = u @ ?r1" "tl ?r1 = p @ ?r2" using u by simp_all
  moreover have "?r1 = '':'' @ tl ?r1" "?r2 = ''@'' @ r"
    using h u(5) by (auto simp: has_prefix_append)
  ultimately have "?r = u @ '':'' @ p @ ''@'' @ r" by metis
  with s u show ?R by (metis set_takeWhileD)
next
  assume R: ?R
  have "\<not> re_user (CHR '':'')" "\<not> re_pass (CHR ''@'')" by (simp_all add: re_user_def re_pass_def)
  with R show ?L
    by (simp add: userinfo_def Let_def takeWhile_append2 dropWhile_append2)
qed

lemma userinfo_None_head: "c \<noteq> CHR '':'' \<Longrightarrow> userinfo (c # s) = None"
  by (simp add: userinfo_def)

lemma userinfo_Nil [simp]: "userinfo [] = None" by (simp add: userinfo_def)

lemma redact_Nil [simp]: "redact [] = []" by (subst redact.simps) simp

lemma redact_skip: "userinfo (c # s) = None \<Longrightarrow> redact (c # s) = c # redact s"
  by (subst redact.simps) simp

lemma redact_match: "userinfo s = Some (u, p, r) \<Longrightarrow> redact s = ''://REDACTED:REDACTED@'' @ redact r"
  by (subst redact.simps) simp

lemma redact_run: "(\<forall>c \<in> set w. c \<noteq> CHR '':'') \<Longrightarrow> redact (w @ t) = w @ redact t"
  by (induction w) (simp_all add: redact_skip userinfo_None_head)

lemma redact_head: "redact (c # s) = c # tl (redact (c # s))"
proof (cases "userinfo (c # s)")
  case None
  then show ?thesis by (simp add: redact_skip)
next
  case (Some m)
  then obtain u p r where m: "userinfo (c # s) = Some (u, p, r)" by (cases m) auto
  then have "c = CHR '':''" by (simp add: userinfo_Some_iff)
  with redact_match [OF m] show ?thesis by simp
qed

lemma hd_redact: "s \<noteq> [] \<Longrightarrow> redact s \<noteq> [] \<and> hd (redact s) = hd s"
  using redact_head by (cases s) (simp, metis list.distinct(1) list.sel(1))

lemma redact_eq_Cons: "redact t = c # z \<Longrightarrow> \<exists>t'. t = c # t'"
  using redact_head by (cases t) (simp, metis list.inject)

lemma re_user_pass: "re_user c \<Longrightarrow> re_pass c" by (simp add: re_user_def re_pass_def)

lemma re_pass_punct [simp]: "re_pass (CHR '':'')" "re_pass (CHR ''/'')" "\<not> re_pass (CHR ''@'')"
  by (simp_all add: re_pass_def re_space_def byte_def)

lemma userinfo_pass_run:
  assumes "userinfo s = Some (u, p, r)"
  shows "dropWhile re_pass s = CHR ''@'' # r"
proof -
  have "s = (''://'' @ u @ '':'' @ p) @ ''@'' @ r"
    and "\<forall>c \<in> set (''://'' @ u @ '':'' @ p). re_pass c"
    using assms by (auto simp: userinfo_Some_iff re_user_pass re_pass_punct)
  then have "dropWhile re_pass s = dropWhile re_pass (''@'' @ r)"
    by (simp only: dropWhile_append2)
  then show ?thesis by (simp add: re_pass_def)
qed

lemma redact_pass_run:
  "(\<forall>c \<in> set w. re_pass c) \<Longrightarrow> t = [] \<or> (\<not> re_pass (hd t) \<and> hd t \<noteq> CHR ''@'') \<Longrightarrow>
     redact (w @ t) = w @ redact t"
proof (induction w)
  case Nil
  then show ?case by simp
next
  case (Cons c w)
  have "dropWhile re_pass (c # w @ t) = t" using Cons.prems by (cases t) (auto simp: dropWhile_append2)
  with Cons.prems(2) have "userinfo (c # w @ t) = None"
    using userinfo_pass_run [of "c # w @ t"] by (cases "userinfo (c # w @ t)") auto
  with Cons show ?case by (simp add: redact_skip)
qed

lemma redact_user_part:
  assumes r2: "redact t = u @ CHR '':'' # z" and u: "\<forall>c \<in> set u. re_user c"
  shows "\<exists>t'. t = u @ CHR '':'' # t' \<and> redact (CHR '':'' # t') = CHR '':'' # z"
proof -
  define w t3 where "w = takeWhile re_user t" and "t3 = dropWhile re_user t"
  have w: "\<forall>c \<in> set w. re_user c" and t: "t = w @ t3"
    by (auto simp: w_def t3_def dest: set_takeWhileD)
  have "redact t = w @ redact t3"
    unfolding t using w by (intro redact_run) (auto simp: re_user_def)
  with r2 have e: "w @ redact t3 = u @ CHR '':'' # z" by simp
  have "t3 = [] \<or> \<not> re_user (hd t3)" unfolding t3_def by (rule dropWhile_head)
  then have "takeWhile re_user (w @ redact t3) = w"
    using w hd_redact [of t3]
    by (cases "t3 = []") (auto simp: takeWhile_append2 takeWhile_eq_Nil_iff)
  moreover have "takeWhile re_user (u @ CHR '':'' # z) = u"
    using u by (simp add: takeWhile_append2 re_user_def)
  ultimately have "w = u" using e by simp
  with e have r3: "redact t3 = CHR '':'' # z" by simp
  then obtain t4 where "t3 = CHR '':'' # t4" using redact_eq_Cons by blast
  with r3 t \<open>w = u\<close> show ?thesis by blast
qed

lemma redact_pass_part:
  assumes r: "redact t = p @ CHR ''@'' # z" and p: "\<forall>c \<in> set p. re_pass c" "p \<noteq> []"
  shows "\<exists>v t'. t = v @ CHR ''@'' # t' \<and> v \<noteq> [] \<and> (\<forall>c \<in> set v. re_pass c)"
proof -
  define v t5 where "v = takeWhile re_pass t" and "t5 = dropWhile re_pass t"
  have v: "\<forall>c \<in> set v. re_pass c" and t: "t = v @ t5"
    by (auto simp: v_def t5_def dest: set_takeWhileD)
  have h5: "t5 = [] \<or> \<not> re_pass (hd t5)" unfolding t5_def by (rule dropWhile_head)
  have "t5 \<noteq> [] \<and> hd t5 = CHR ''@''"
  proof (rule ccontr)
    assume n: "\<not> (t5 \<noteq> [] \<and> hd t5 = CHR ''@'')"
    with h5 have "redact (v @ t5) = v @ redact t5" using v by (intro redact_pass_run) auto
    with r t have "p @ CHR ''@'' # z = v @ redact t5" by simp
    moreover have "dropWhile re_pass (p @ CHR ''@'' # z) = CHR ''@'' # z"
      using p by (simp add: dropWhile_append2)
    moreover have "dropWhile re_pass (v @ redact t5) = redact t5"
      using v h5 hd_redact [of t5]
      by (cases "t5 = []") (auto simp: dropWhile_append2 dropWhile_eq_self_iff)
    ultimately have "redact t5 = CHR ''@'' # z" by simp
    with n show False using redact_eq_Cons by fastforce
  qed
  then obtain t' where t5: "t5 = CHR ''@'' # t'" by (cases t5) auto
  moreover have "v \<noteq> []"
    using t5 t r p redact_head [of "CHR ''@''" t'] by (cases p) auto
  ultimately show ?thesis using t v by blast
qed

text \<open>A position with no credentials has none after the rest of the string is redacted.\<close>

lemma redact_keeps_None:
  assumes none: "userinfo (c # t) = None"
  shows "userinfo (c # redact t) = None"
proof (rule ccontr)
  assume "userinfo (c # redact t) \<noteq> None"
  then obtain u p r where "userinfo (c # redact t) = Some (u, p, r)" by auto
  then have c: "c = CHR '':''" and t: "redact t = ''//'' @ u @ '':'' @ p @ ''@'' @ r"
    and ne: "u \<noteq> []" "p \<noteq> []" and up: "\<forall>c \<in> set u. re_user c" "\<forall>c \<in> set p. re_pass c"
    by (simp_all add: userinfo_Some_iff)
  obtain t1 where t1: "t = CHR ''/'' # t1" using t redact_eq_Cons by fastforce
  then have r1: "redact t1 = ''/'' @ u @ '':'' @ p @ ''@'' @ r"
    using t by (simp add: redact_skip userinfo_None_head)
  then obtain t2 where t2: "t1 = CHR ''/'' # t2" using redact_eq_Cons by fastforce
  then have "redact t2 = u @ CHR '':'' # p @ CHR ''@'' # r"
    using r1 by (simp add: redact_skip userinfo_None_head)
  from redact_user_part [OF this up(1)] obtain t4 where t24: "t2 = u @ CHR '':'' # t4"
    and r3: "redact (CHR '':'' # t4) = CHR '':'' # p @ CHR ''@'' # r" by blast
  have "\<exists>v z. t4 = v @ CHR ''@'' # z \<and> v \<noteq> [] \<and> (\<forall>c \<in> set v. re_pass c)"
  proof (cases "userinfo (CHR '':'' # t4)")
    case (Some m)
    then obtain u' p' r' where "userinfo (CHR '':'' # t4) = Some (u', p', r')" by (cases m) auto
    then have "t4 = (''//'' @ u' @ '':'' @ p') @ CHR ''@'' # r'"
      and "\<forall>c \<in> set (''//'' @ u' @ '':'' @ p'). re_pass c"
      by (auto simp: userinfo_Some_iff re_user_pass)
    then show ?thesis by blast
  next
    case None
    then have "redact t4 = p @ CHR ''@'' # r" using r3 by (simp add: redact_skip)
    then show ?thesis using redact_pass_part up(2) ne(2) by blast
  qed
  then obtain v z where "t4 = v @ CHR ''@'' # z" "v \<noteq> []" "\<forall>c \<in> set v. re_pass c" by blast
  then have "userinfo (c # t) = Some (u, v, z)"
    using c t1 t2 t24 ne up by (simp add: userinfo_Some_iff)
  with none show False by simp
qed

text \<open>No position of the string matches the credentials pattern except on the replacement itself.\<close>

primrec no_credentials :: "string \<Rightarrow> bool" where
  "no_credentials [] = True"
| "no_credentials (c # s) =
     ((case userinfo (c # s) of None \<Rightarrow> True
       | Some (u, p, _) \<Rightarrow> u = ''REDACTED'' \<and> p = ''REDACTED'') \<and> no_credentials s)"


end
