(* ===== verification/GateSpec.thy ===== *)
theory GateSpec
  imports GoBase
begin

text \<open>
  The contract between the batch sender and its circuit breaker, as the sender uses it: a gate
  that is either open for traffic or blocked until an instant, that a success opens, and that does
  not change when it refuses. \<open>Breaker\<close> provides it; \<open>Sender\<close> is the client.
\<close>

text \<open>Asking the gate at a sequence of instants, threading its state through the calls.\<close>

primrec ask_all :: "(instant \<Rightarrow> 'g \<Rightarrow> bool \<times> 'g) \<Rightarrow> instant list \<Rightarrow> 'g \<Rightarrow> bool list \<times> 'g" where
  "ask_all ask [] g = ([], g)"
| "ask_all ask (t # ts) g =
     (let (b, g') = ask t g; (bs, g'') = ask_all ask ts g' in (b # bs, g''))"

locale failure_gate =
  fixes ask :: "instant \<Rightarrow> 'g \<Rightarrow> bool \<times> 'g"
    and failed :: "instant \<Rightarrow> 'g \<Rightarrow> 'g"
    and succeeded :: "'g \<Rightarrow> 'g"
    and blocked_until :: "'g \<Rightarrow> instant option"
    and ok :: "'g \<Rightarrow> bool"
  assumes ask_blocked: "ok g \<Longrightarrow> blocked_until g = Some u \<Longrightarrow> t < u \<Longrightarrow> ask t g = (False, g)"
    and ask_cooled: "ok g \<Longrightarrow> blocked_until g = Some u \<Longrightarrow> u \<le> t \<Longrightarrow>
          fst (ask t g) \<and> blocked_until (snd (ask t g)) = None \<and> ok (snd (ask t g))"
    and ask_free: "ok g \<Longrightarrow> blocked_until g = None \<Longrightarrow> ask t g = (True, g)"
    and succeeded_free: "ok g \<Longrightarrow> blocked_until (succeeded g) = None \<and> ok (succeeded g)"
    and failed_ok: "ok g \<Longrightarrow> ok (failed t g)"
begin

lemma ask_ok: "ok g \<Longrightarrow> ok (snd (ask t g))"
  using ask_blocked [of g _ t] ask_cooled [of g _ t] ask_free [of g t]
  by (cases "blocked_until g") (auto, metis not_less snd_conv)

lemma ask_iff: "ok g \<Longrightarrow> fst (ask t g) \<longleftrightarrow> (\<forall>u. blocked_until g = Some u \<longrightarrow> u \<le> t)"
  using ask_blocked [of g _ t] ask_cooled [of g _ t] ask_free [of g t]
  by (cases "blocked_until g") (auto, metis not_less fst_conv)

lemma ask_all_blocked:
  assumes "ok g" "blocked_until g = Some u" "\<forall>t \<in> set ts. t < u"
  shows "ask_all ask ts g = (replicate (length ts) False, g)"
  using assms by (induction ts) (simp_all add: ask_blocked)

lemma ask_all_free:
  assumes "ok g" "blocked_until g = None"
  shows "ask_all ask ts g = (replicate (length ts) True, g)"
  using assms by (induction ts) (simp_all add: ask_free)

end

end
