(* ===== verification/Breaker.thy ===== *)
theory Breaker
  imports GateSpec
begin

text \<open>
  \<^verbatim>\<open>internal/remotewrite/breaker.go\<close>: the sliding-window circuit breaker. Every method runs
  under the breaker's mutex; it is a function of the instant the breaker's clock returns to it and
  the breaker's state, and yields the new state with the observer notifications it makes.
\<close>

section \<open>State and operations\<close>

datatype bstate = BreakerClosed | BreakerOpen | BreakerHalfOpen

primrec breaker_code :: "bstate \<Rightarrow> int" where
  "breaker_code BreakerClosed = 0"
| "breaker_code BreakerOpen = 1"
| "breaker_code BreakerHalfOpen = 2"

record breaker =
  br_threshold :: int
  br_window :: duration
  br_cooldown :: duration
  br_state :: bstate
  br_failures :: "instant list"
  br_opened_at :: instant

record breaker_config =
  bc_threshold :: int
  bc_window :: duration
  bc_cooldown :: duration

text \<open>An observer notification is the state passed to \<open>OnStateChange\<close>.\<close>

definition new_breaker :: "breaker_config \<Rightarrow> breaker \<times> bstate list" where
  "new_breaker cfg =
     (\<lparr>br_threshold = (if bc_threshold cfg < 1 then 5 else bc_threshold cfg),
       br_window = (if bc_window cfg \<le> 0 then minute else bc_window cfg),
       br_cooldown = (if bc_cooldown cfg \<le> 0 then 30 * second else bc_cooldown cfg),
       br_state = BreakerClosed, br_failures = [], br_opened_at = 0\<rparr>, [BreakerClosed])"

definition set_state_locked :: "breaker \<Rightarrow> bstate \<Rightarrow> breaker \<times> bstate list" where
  "set_state_locked cb s =
     (if br_state cb = s then (cb, []) else (cb\<lparr>br_state := s\<rparr>, [s]))"

definition br_allow :: "instant \<Rightarrow> breaker \<Rightarrow> bool \<times> breaker \<times> bstate list" where
  "br_allow now cb =
     (let (cb', ev) =
        (if br_state cb = BreakerOpen \<and> time_sub now (br_opened_at cb) \<ge> br_cooldown cb
         then set_state_locked cb BreakerHalfOpen else (cb, []))
      in (br_state cb' \<noteq> BreakerOpen, cb', ev))"

definition record_success :: "breaker \<Rightarrow> breaker \<times> bstate list" where
  "record_success cb =
     (let (cb', ev) =
        (if br_state cb \<noteq> BreakerClosed then set_state_locked cb BreakerClosed else (cb, []))
      in (cb'\<lparr>br_failures := []\<rparr>, ev))"

definition record_failure :: "instant \<Rightarrow> breaker \<Rightarrow> breaker \<times> bstate list" where
  "record_failure now cb =
     (if br_state cb = BreakerHalfOpen
      then set_state_locked (cb\<lparr>br_opened_at := now\<rparr>) BreakerOpen
      else
        let cutoff = time_add now (- br_window cb);
            pruned = filter (\<lambda>t. time_after t cutoff) (br_failures cb);
            cb1 = cb\<lparr>br_failures := pruned @ [now]\<rparr>
        in if int (length (br_failures cb1)) \<ge> br_threshold cb1
           then let (cb2, ev) = set_state_locked (cb1\<lparr>br_opened_at := now\<rparr>) BreakerOpen
                in (cb2\<lparr>br_failures := []\<rparr>, ev)
           else (cb1, []))"

definition breaker_state :: "breaker \<Rightarrow> int" where
  "breaker_state cb = breaker_code (br_state cb)"

lemmas breaker_ops =
  set_state_locked_def br_allow_def record_success_def record_failure_def

section \<open>Invariant\<close>

text \<open>
  The parameters are in range and the failure list is shorter than the threshold: reaching the
  threshold opens the breaker and clears the list in the same critical section.
\<close>

definition br_ok :: "breaker \<Rightarrow> bool" where
  "br_ok cb \<longleftrightarrow> 1 \<le> br_threshold cb \<and> 0 < br_window cb \<and> 0 < br_cooldown cb
     \<and> in_i64 (br_window cb) \<and> in_i64 (br_cooldown cb)
     \<and> int (length (br_failures cb)) < br_threshold cb"

definition br_params :: "breaker \<Rightarrow> int \<times> duration \<times> duration" where
  "br_params cb = (br_threshold cb, br_window cb, br_cooldown cb)"

lemma new_breaker_ok:
  "in_i64 (bc_window cfg) \<Longrightarrow> in_i64 (bc_cooldown cfg) \<Longrightarrow> br_ok (fst (new_breaker cfg))"
  by (auto simp: new_breaker_def br_ok_def dur_defs i64_defs)

lemma br_allow_ok [inv_intros]: "br_ok cb \<Longrightarrow> br_ok (fst (snd (br_allow t cb)))"
  by (simp add: breaker_ops br_ok_def)

lemma record_success_ok [inv_intros]: "br_ok cb \<Longrightarrow> br_ok (fst (record_success cb))"
  by (simp add: breaker_ops br_ok_def)

lemma record_failure_ok [inv_intros]: "br_ok cb \<Longrightarrow> br_ok (fst (record_failure t cb))"
  by (simp add: breaker_ops br_ok_def Let_def)

lemma breaker_params_const:
  "br_params (fst (snd (br_allow t cb))) = br_params cb"
  "br_params (fst (record_success cb)) = br_params cb"
  "br_params (fst (record_failure t cb)) = br_params cb"
  by (simp_all add: breaker_ops br_params_def Let_def)

section \<open>The breaker provides the gate contract\<close>

definition ask_breaker :: "instant \<Rightarrow> breaker \<Rightarrow> bool \<times> breaker" where
  "ask_breaker t cb = (let (b, cb', _) = br_allow t cb in (b, cb'))"

definition breaker_blocked_until :: "breaker \<Rightarrow> instant option" where
  "breaker_blocked_until cb =
     (if br_state cb = BreakerOpen then Some (br_opened_at cb + br_cooldown cb) else None)"

interpretation brk: failure_gate ask_breaker "\<lambda>t cb. fst (record_failure t cb)"
    "\<lambda>cb. fst (record_success cb)" breaker_blocked_until br_ok
proof unfold_locales
  fix g :: breaker and u t
  assume g: "br_ok g" and b: "breaker_blocked_until g = Some u"
  then have g': "in_i64 (br_cooldown g)" "0 < br_cooldown g" "br_state g = BreakerOpen"
      "u = br_opened_at g + br_cooldown g"
    by (auto simp: br_ok_def breaker_blocked_until_def split: if_splits)
  show "t < u \<Longrightarrow> ask_breaker t g = (False, g)"
    using g' by (simp add: ask_breaker_def br_allow_def)
  show "u \<le> t \<Longrightarrow> fst (ask_breaker t g) \<and> breaker_blocked_until (snd (ask_breaker t g)) = None
      \<and> br_ok (snd (ask_breaker t g))"
    using g g' by (simp add: ask_breaker_def br_allow_def set_state_locked_def
        breaker_blocked_until_def br_ok_def)
qed (auto simp: ask_breaker_def br_allow_def breaker_blocked_until_def record_success_def
      set_state_locked_def br_ok_def record_failure_ok [unfolded br_ok_def] split: if_splits)

section \<open>The sliding window\<close>

definition fail_run :: "instant list \<Rightarrow> breaker \<Rightarrow> breaker" where
  "fail_run ts cb = foldl (\<lambda>c t. fst (record_failure t c)) cb ts"

definition window_failures :: "duration \<Rightarrow> instant \<Rightarrow> instant list \<Rightarrow> instant list" where
  "window_failures w t ts = filter (\<lambda>u. t - w < u) ts"

lemma fail_run_simps [simp]:
  "fail_run [] cb = cb"
  "fail_run (ts @ [t]) cb = fst (record_failure t (fail_run ts cb))"
  by (simp_all add: fail_run_def)

lemma fail_run_ok: "br_ok cb \<Longrightarrow> br_ok (fail_run ts cb) \<and> br_params (fail_run ts cb) = br_params cb"
  by (induction ts rule: rev_induct) (auto simp: record_failure_ok breaker_params_const)

lemma record_failure_closed:
  assumes "br_state cb = BreakerClosed"
  shows "br_state (fst (record_failure t cb)) =
      (if br_threshold cb \<le> int (length (window_failures (br_window cb) t (br_failures cb))) + 1
       then BreakerOpen else BreakerClosed)"
    and "br_state (fst (record_failure t cb)) = BreakerClosed \<Longrightarrow>
      br_failures (fst (record_failure t cb)) = window_failures (br_window cb) t (br_failures cb) @ [t]"
  using assms by (auto simp: record_failure_def set_state_locked_def window_failures_def
      time_defs Let_def split: if_splits)

lemma record_failure_stays_open:
  "br_state cb = BreakerOpen \<Longrightarrow> br_state (fst (record_failure t cb)) = BreakerOpen"
  by (simp add: record_failure_def set_state_locked_def Let_def)

lemma window_failures_mono:
  "t \<le> t' \<Longrightarrow> window_failures w t' (window_failures w t ts) = window_failures w t' ts"
  by (auto simp: window_failures_def intro!: filter_cong)

lemma fail_run_window:
  assumes "br_ok cb" "br_state cb = BreakerClosed" "br_failures cb = []"
  shows "sorted ts \<Longrightarrow> br_state (fail_run ts cb) = BreakerClosed \<Longrightarrow>
     br_failures (fail_run ts cb) = (if ts = [] then [] else window_failures (br_window cb) (last ts) ts)"
proof (induction ts rule: rev_induct)
  case Nil
  with assms show ?case by simp
next
  case (snoc t ts)
  let ?c = "fail_run ts cb"
  have w: "br_window ?c = br_window cb" "0 < br_window cb"
    using fail_run_ok [OF assms(1), of ts] by (auto simp: br_params_def br_ok_def)
  have st: "br_state ?c = BreakerClosed"
  proof (cases "br_state ?c")
    case BreakerOpen
    with snoc.prems show ?thesis by (simp add: record_failure_stays_open)
  next
    case BreakerHalfOpen
    with snoc.prems show ?thesis by (simp add: record_failure_def set_state_locked_def)
  qed
  have srt: "sorted ts" "\<forall>u \<in> set ts. u \<le> t" using snoc.prems(1) by (auto simp: sorted_append)
  then have le: "ts \<noteq> [] \<Longrightarrow> last ts \<le> t" by simp
  have "br_failures (fail_run (ts @ [t]) cb) =
      window_failures (br_window cb) t (br_failures ?c) @ [t]"
    using record_failure_closed(2) [OF st, of t] snoc.prems(2) w by simp
  also have "window_failures (br_window cb) t (br_failures ?c) = window_failures (br_window cb) t ts"
    using snoc.IH [OF srt(1) st] window_failures_mono [OF le] by (simp add: window_failures_def)
  finally show ?case using w by (simp add: window_failures_def)
qed

section \<open>Properties of the circuit breaker\<close>

lemma window_full_opens:
  assumes "br_ok cb" "br_state cb = BreakerClosed" "br_failures cb = []"
    and "sorted (ts @ [t])" and "br_state (fail_run ts cb) = BreakerClosed"
  shows "br_state (fail_run (ts @ [t]) cb) = BreakerOpen \<longleftrightarrow>
     br_threshold cb \<le> int (length (window_failures (br_window cb) t (ts @ [t])))"
proof -
  let ?c = "fail_run ts cb"
  have p: "br_window ?c = br_window cb" "br_threshold ?c = br_threshold cb" "0 < br_window cb"
    using fail_run_ok [OF assms(1), of ts] by (auto simp: br_params_def br_ok_def)
  have "sorted ts" and le: "ts \<noteq> [] \<Longrightarrow> last ts \<le> t"
    using assms(4) by (auto simp: sorted_append)
  then have "window_failures (br_window cb) t (br_failures ?c) = window_failures (br_window cb) t ts"
    using fail_run_window [OF assms(1-3) _ assms(5)] window_failures_mono [OF le]
    by (simp add: window_failures_def)
  with record_failure_closed(1) [OF assms(5), of t] p show ?thesis
    by (simp add: window_failures_def)
qed

text \<open>C31. From a closed breaker with no recorded failures, and while it stays closed, a failure at
  time \<open>t\<close> opens it if and only if at least \<open>FailureThreshold\<close> failures, this one included, lie
  within the window that ends at \<open>t\<close>.\<close>

theorem breaker_opens_iff_window_full:
  assumes "br_ok cb" "br_state cb = BreakerClosed" "br_failures cb = []"
    and "sorted (ts @ [t])" and "br_state (fail_run ts cb) = BreakerClosed"
  shows "br_state (fail_run (ts @ [t]) cb) = BreakerOpen \<longleftrightarrow>
     br_threshold cb \<le> int (length (window_failures (br_window cb) t (ts @ [t])))"
  by (rule window_full_opens [OF assms])

definition demo_breaker :: breaker where
  "demo_breaker = fst (new_breaker \<lparr>bc_threshold = 2, bc_window = 10, bc_cooldown = 5\<rparr>)"

lemma demo_breaker_ok: "br_ok demo_breaker" "br_state demo_breaker = BreakerClosed"
    "br_failures demo_breaker = []" "br_threshold demo_breaker = 2"
    "br_window demo_breaker = 10" "br_cooldown demo_breaker = 5"
  by (auto simp: demo_breaker_def new_breaker_def br_ok_def i64_defs)

theorem breaker_opens_iff_window_full_witness:
  "br_state (fail_run ([100, 120] @ [125]) demo_breaker) = BreakerOpen"
proof -
  have "fail_run [100, 120] demo_breaker =
      demo_breaker\<lparr>br_failures := [120]\<rparr>"
    by (simp add: fail_run_def record_failure_def demo_breaker_ok Let_def time_defs)
  then have "br_state (fail_run [100, 120] demo_breaker) = BreakerClosed"
    by (simp add: demo_breaker_ok)
  then show ?thesis
    using breaker_opens_iff_window_full [OF demo_breaker_ok(1-3), of "[100, 120]" 125]
    by (simp add: demo_breaker_ok window_failures_def)
qed

text \<open>An open breaker refuses every call before its cooldown has elapsed and keeps its state;
  the first call at or after that instant is let through and moves it to half-open.\<close>

theorem open_breaker_blocks_for_cooldown:
  assumes "br_ok cb" "br_state cb = BreakerOpen"
    and "\<forall>t \<in> set ts. t < br_opened_at cb + br_cooldown cb"
    and "br_opened_at cb + br_cooldown cb \<le> t'"
  shows "ask_all ask_breaker ts cb = (replicate (length ts) False, cb) \<and>
         br_allow t' cb = (True, cb\<lparr>br_state := BreakerHalfOpen\<rparr>, [BreakerHalfOpen])"
  using assms brk.ask_all_blocked [OF assms(1), of _ ts]
  by (simp add: breaker_blocked_until_def br_allow_def set_state_locked_def br_ok_def)

theorem open_breaker_blocks_for_cooldown_witness:
  "br_allow 105 (demo_breaker\<lparr>br_state := BreakerOpen, br_opened_at := 100\<rparr>) =
     (True, demo_breaker\<lparr>br_state := BreakerHalfOpen, br_opened_at := 100\<rparr>, [BreakerHalfOpen])
   \<and> ask_all ask_breaker [101, 104] (demo_breaker\<lparr>br_state := BreakerOpen, br_opened_at := 100\<rparr>) =
     ([False, False], demo_breaker\<lparr>br_state := BreakerOpen, br_opened_at := 100\<rparr>)"
proof -
  let ?c = "demo_breaker\<lparr>br_state := BreakerOpen, br_opened_at := 100\<rparr>"
  have "br_ok ?c" using demo_breaker_ok(1) by (simp add: br_ok_def)
  moreover have "br_state ?c = BreakerOpen" by simp
  ultimately show ?thesis
    using open_breaker_blocks_for_cooldown [of ?c "[101, 104]" 105]
    by (simp add: demo_breaker_ok)
qed

text \<open>Each operation as an event, to speak about histories of the breaker.\<close>

datatype br_event = EvAllow instant | EvSuccess | EvFailure instant

fun br_step :: "breaker \<Rightarrow> br_event \<Rightarrow> breaker \<times> bstate list" where
  "br_step cb (EvAllow t) = snd (br_allow t cb)"
| "br_step cb EvSuccess = record_success cb"
| "br_step cb (EvFailure t) = record_failure t cb"

fun br_run :: "breaker \<Rightarrow> br_event list \<Rightarrow> breaker \<times> bstate list" where
  "br_run cb [] = (cb, [])"
| "br_run cb (e # es) =
     (let (cb1, o1) = br_step cb e; (cb2, o2) = br_run cb1 es in (cb2, o1 @ o2))"

inductive br_edge :: "bstate \<Rightarrow> bstate \<Rightarrow> bool" where
  trip: "br_edge BreakerClosed BreakerOpen"
| probe: "br_edge BreakerOpen BreakerHalfOpen"
| reopen: "br_edge BreakerHalfOpen BreakerOpen"
| heal: "s \<noteq> BreakerClosed \<Longrightarrow> br_edge s BreakerClosed"

inductive_simps br_edge_simps: "br_edge s s'"

text \<open>The gauge that the observer writes follows only edges of the state machine.\<close>

fun edge_path :: "bstate \<Rightarrow> bstate list \<Rightarrow> bool" where
  "edge_path s [] = True"
| "edge_path s (s' # ss) = (br_edge s s' \<and> edge_path s' ss)"

lemma edge_path_append: "edge_path s (xs @ ys) \<longleftrightarrow> edge_path s xs \<and> edge_path (last (s # xs)) ys"
  by (induction xs arbitrary: s) auto

lemma br_step_edge:
  "edge_path (br_state cb) (snd (br_step cb e)) \<and>
   br_state (fst (br_step cb e)) = last (br_state cb # snd (br_step cb e))"
  by (cases e; cases "br_state cb") (simp_all add: breaker_ops br_edge_simps Let_def)

text \<open>Whatever calls are made, in any order, the notifications follow the edges
  closed-open-half-open of the documented state machine and the last notification is always the
  breaker's current state, so the exported gauge never disagrees with the breaker.\<close>

theorem breaker_notifications_track_state:
  "edge_path (br_state cb) (snd (br_run cb es)) \<and>
   br_state (fst (br_run cb es)) = last (br_state cb # snd (br_run cb es))"
proof (induction es arbitrary: cb)
  case Nil
  show ?case by simp
next
  case (Cons e es)
  obtain cb1 o1 where 1: "br_step cb e = (cb1, o1)" by fastforce
  obtain cb2 o2 where 2: "br_run cb1 es = (cb2, o2)" by fastforce
  have "edge_path (br_state cb) o1" "br_state cb1 = last (br_state cb # o1)"
    using br_step_edge [of cb e] 1 by auto
  with Cons.IH [of cb1] 1 2 show ?case by (auto simp: edge_path_append)
qed

lemma few_failures_stay_closed:
  "br_ok cb \<Longrightarrow> br_state cb = BreakerClosed \<Longrightarrow>
   int (length (br_failures cb) + length ts) < br_threshold cb \<Longrightarrow>
   br_state (fail_run ts cb) = BreakerClosed \<and>
   length (br_failures (fail_run ts cb)) \<le> length (br_failures cb) + length ts"
proof (induction ts rule: rev_induct)
  case Nil
  then show ?case by simp
next
  case (snoc t ts)
  then have IH: "br_state (fail_run ts cb) = BreakerClosed"
      "length (br_failures (fail_run ts cb)) \<le> length (br_failures cb) + length ts" by auto
  have thr: "br_threshold (fail_run ts cb) = br_threshold cb"
    using fail_run_ok [OF snoc.prems(1), of ts] by (simp add: br_params_def)
  have len: "length (window_failures w t fs) \<le> length fs" for w fs
    by (simp add: window_failures_def)
  have "\<not> br_threshold cb \<le> int (length (window_failures w t (br_failures (fail_run ts cb)))) + 1" for w
    using snoc.prems(3) IH(2) len [of w "br_failures (fail_run ts cb)"] by simp
  then have cl: "br_state (fail_run (ts @ [t]) cb) = BreakerClosed"
    using record_failure_closed(1) [OF IH(1), of t] thr by simp
  then show ?case
    using record_failure_closed(2) [OF IH(1), of t] IH(2) len
    by (auto intro: le_trans)
qed

text \<open>A success closes the breaker and forgets all failures: afterwards any run of fewer
  failures than the threshold leaves it closed, whenever they happen.\<close>

theorem success_resets_breaker:
  assumes "br_ok cb" and "int (length ts) < br_threshold cb"
  shows "br_state (fst (record_success cb)) = BreakerClosed \<and>
     br_state (fail_run ts (fst (record_success cb))) = BreakerClosed"
proof -
  let ?c = "fst (record_success cb)"
  have "br_state ?c = BreakerClosed" "br_failures ?c = []" "br_threshold ?c = br_threshold cb"
    by (simp_all add: record_success_def set_state_locked_def)
  with few_failures_stay_closed [OF record_success_ok [OF assms(1)], of ts] assms(2)
  show ?thesis by simp
qed

theorem success_resets_breaker_witness:
  "br_state (fail_run [7] (fst (record_success (demo_breaker\<lparr>br_state := BreakerHalfOpen\<rparr>)))) = BreakerClosed"
proof -
  let ?c = "demo_breaker\<lparr>br_state := BreakerHalfOpen\<rparr>"
  have "br_ok ?c" using demo_breaker_ok(1) by (simp add: br_ok_def)
  moreover have "int (length [7 :: instant]) < br_threshold ?c" by (simp add: demo_breaker_ok)
  ultimately show ?thesis using success_resets_breaker [of ?c "[7]"] by blast
qed

text \<open>The half-open state does not limit itself to one probe: until a result is recorded, every
  call is let through, any number of times, and the state does not change.\<close>

theorem half_open_admits_every_call:
  assumes "br_ok cb" "br_state cb = BreakerHalfOpen"
  shows "ask_all ask_breaker ts cb = (replicate (length ts) True, cb)"
  by (rule brk.ask_all_free) (use assms in \<open>simp_all add: breaker_blocked_until_def\<close>)

theorem half_open_admits_every_call_witness:
  "fst (ask_all ask_breaker [1, 2, 3] (demo_breaker\<lparr>br_state := BreakerHalfOpen\<rparr>)) = [True, True, True]"
proof -
  let ?c = "demo_breaker\<lparr>br_state := BreakerHalfOpen\<rparr>"
  have "br_ok ?c" using demo_breaker_ok(1) by (simp add: br_ok_def)
  then show ?thesis using half_open_admits_every_call [of ?c "[1, 2, 3]"] by (simp add: numeral_3_eq_3)
qed

end
