(* ===== verification/Sender.thy ===== *)
theory Sender
  imports Wire Breaker
begin

text \<open>
  \<^verbatim>\<open>internal/remotewrite/sender.go\<close>: the delivery of one batch, with its retry budget, its backoff
  and the circuit breaker, and the authorization headers.

  Everything the code obtains from outside during one attempt (the HTTP exchange, the clock
  readings, the random draw, whether the context ended the wait) is a field of an \<open>attempt_env\<close>;
  an execution is given by the environment of each attempt. The observer calls, the requests sent
  and the timers started are logged in order.
\<close>

section \<open>Configuration, environment and events\<close>

record endpoint_config =
  ep_timeout :: duration
  ep_max_attempts :: int
  ep_max_elapsed :: duration
  ep_initial_backoff :: duration
  ep_max_backoff :: duration
  ep_headers :: "(string \<times> string) list"
  ep_basic_user :: string
  ep_basic_pass :: string
  ep_bearer_token :: string

record attempt_env =
  ae_build_err :: "goerr option"
  ae_reply :: "goerr + http_response"
  ae_reply_now :: instant
  ae_dur :: duration
  ae_sent_at :: instant
  ae_breaker_now :: instant
  ae_check_now :: instant
  ae_until_now :: instant
  ae_rand :: "int \<Rightarrow> int"
  ae_ctx_done :: bool
  ae_headers :: "(string \<times> string) list"

datatype send_event =
    Posted header
  | OnSendOutcome string duration
  | OnSamplesSent nat
  | OnSamplesFailed string nat
  | OnSamplesDropped string nat
  | OnRetry
  | OnLastSend instant
  | BreakerNote bstate
  | StartTimer duration

section \<open>Backoff\<close>

definition backoff_base :: "endpoint_config \<Rightarrow> duration" where
  "backoff_base cfg = (if ep_initial_backoff cfg \<le> 0 then second else ep_initial_backoff cfg)"

definition backoff_max :: "endpoint_config \<Rightarrow> duration" where
  "backoff_max cfg = (if ep_max_backoff cfg \<le> 0 then 30 * second else ep_max_backoff cfg)"

text \<open>The shift of an \<open>int64\<close> discards the bits that leave the word.\<close>

definition backoff_upper :: "endpoint_config \<Rightarrow> int \<Rightarrow> duration" where
  "backoff_upper cfg attempt =
     (let exp = (if attempt < 0 then 0 else if attempt > 16 then 16 else nat attempt);
          upper = wrap64 (backoff_base cfg * 2 ^ exp)
      in if upper > backoff_max cfg \<or> upper \<le> 0 then backoff_max cfg else upper)"

text \<open>
  \<open>rand.Int63n(n)\<close> panics for \<open>n \<le> 0\<close>: the result is \<open>None\<close> then. \<open>rand n\<close> is its value otherwise.
\<close>

definition compute_backoff ::
    "endpoint_config \<Rightarrow> (int \<Rightarrow> int) \<Rightarrow> int \<Rightarrow> goerr \<Rightarrow> duration option" where
  "compute_backoff cfg rand attempt err =
     (let n = wrap64 (backoff_upper cfg attempt + 1) in
      if n \<le> 0 then None
      else
        let jittered = rand n in
        (case as_retryable err of
           Some (_, retry_after) \<Rightarrow>
             if retry_after > 0 then
               let floor = (if retry_after > backoff_max cfg then backoff_max cfg else retry_after)
               in Some (if jittered < floor then floor else jittered)
             else Some jittered
         | None \<Rightarrow> Some jittered))"

text \<open>
  The seed of the source: eight bytes from the operating system, or the clock when it has none. The
  clock is \<open>Time.UnixNano\<close>.
\<close>

definition unix_nano :: "instant \<Rightarrow> int" where
  "unix_nano now = wrap64 (now - 62135596800 * second)"

definition little_endian :: "string \<Rightarrow> int" where
  "little_endian bs = foldr (\<lambda>b n. int (byte b) + 256 * n) bs 0"

definition rand_seed :: "string option \<Rightarrow> instant \<Rightarrow> int" where
  "rand_seed entropy now =
     (case entropy of None \<Rightarrow> unix_nano now | Some bs \<Rightarrow> wrap64 (little_endian bs))"

text \<open>
  The deadline of the context of one attempt, given that of its parent: \<open>context.WithTimeout\<close> keeps
  the earlier one.
\<close>

definition send_context :: "endpoint_config \<Rightarrow> instant \<Rightarrow> instant option \<Rightarrow> instant option" where
  "send_context cfg now parent =
     (if ep_timeout cfg > 0 then
        let d = time_add now (ep_timeout cfg)
        in Some (case parent of None \<Rightarrow> d | Some d' \<Rightarrow> min d d')
      else parent)"

section \<open>Headers\<close>

text \<open>
  The configured headers are copied into a new map and the authorization entry is written to it:
  an entry under exactly that key is replaced.
\<close>

definition compose_headers :: "endpoint_config \<Rightarrow> (string \<times> string) list" where
  "compose_headers cfg =
     (let put = (\<lambda>v. filter (\<lambda>kv. fst kv \<noteq> ''Authorization'') (ep_headers cfg)
                      @ [(''Authorization'', v)])
      in if ep_bearer_token cfg \<noteq> [] then put (''Bearer '' @ ep_bearer_token cfg)
         else if ep_basic_user cfg \<noteq> [] then
           put (basic_auth_header (ep_basic_user cfg) (ep_basic_pass cfg))
         else ep_headers cfg)"

section \<open>One batch\<close>

text \<open>
  The arguments every attempt of a batch shares: the configuration, the user agent,
  \<open>http.ParseTime\<close>, the environments, the number of series and the deadline (\<open>None\<close> is the zero
  time). \<open>ae_headers\<close> is the order in which one attempt visits the map \<open>composeHeaders\<close> returns.
\<close>

record batch_ctx =
  bx_cfg :: endpoint_config
  bx_agent :: string
  bx_parse_time :: "string \<Rightarrow> instant option"
  bx_env :: "nat \<Rightarrow> attempt_env"
  bx_len :: nat
  bx_deadline :: "instant option"

definition attempt_exchange :: "batch_ctx \<Rightarrow> nat \<Rightarrow> header option \<times> goerr option" where
  "attempt_exchange bx attempt =
     (let e = bx_env bx attempt
      in send_write_request (bx_parse_time bx) (ae_reply_now e) (bx_agent bx) (ae_headers e)
           (ae_build_err e) (ae_reply e))"

definition posted :: "batch_ctx \<Rightarrow> nat \<Rightarrow> send_event list" where
  "posted bx attempt =
     (case fst (attempt_exchange bx attempt) of None \<Rightarrow> [] | Some h \<Rightarrow> [Posted h])"

definition deadline_passed :: "batch_ctx \<Rightarrow> nat \<Rightarrow> bool" where
  "deadline_passed bx attempt =
     (case bx_deadline bx of None \<Rightarrow> False
      | Some d \<Rightarrow> time_after (ae_check_now (bx_env bx attempt)) d)"

definition capped_wait :: "batch_ctx \<Rightarrow> nat \<Rightarrow> duration \<Rightarrow> duration option" where
  "capped_wait bx attempt wait =
     (case bx_deadline bx of
        None \<Rightarrow> Some wait
      | Some d \<Rightarrow>
          let remaining = time_sub d (ae_until_now (bx_env bx attempt));
              w = (if wait > remaining then remaining else wait)
          in if w \<le> 0 then None else Some w)"

definition exhausted :: "batch_ctx \<Rightarrow> send_event list" where
  "exhausted bx = [OnSamplesFailed ''retry_budget_exhausted'' (bx_len bx)]"

definition outcome_of :: "goerr \<Rightarrow> string" where
  "outcome_of err =
     (if err_is CtxDeadlineExceeded err then ''timeout'' else ''retryable_error'')"

text \<open>
  The retry loop from attempt \<open>attempt\<close> with \<open>k\<close> attempts left: the breaker afterwards and the log,
  \<open>None\<close> for a panic.
\<close>

fun retry_loop :: "batch_ctx \<Rightarrow> nat \<Rightarrow> nat \<Rightarrow> breaker \<Rightarrow> (breaker \<times> send_event list) option" where
  "retry_loop bx 0 attempt cb = Some (cb, exhausted bx)"
| "retry_loop bx (Suc k) attempt cb =
     (let e = bx_env bx attempt; n = bx_len bx; dur = ae_dur e;
          pre = posted bx attempt
      in case snd (attempt_exchange bx attempt) of
        None \<Rightarrow>
          (let (cb', notes) = record_success cb
           in Some (cb', pre @ [OnSamplesSent n, OnSendOutcome ''success'' dur,
                OnLastSend (ae_sent_at e)] @ map BreakerNote notes))
      | Some err \<Rightarrow>
          if err_is CtxCanceled err then
            Some (cb, pre @ [OnSendOutcome ''timeout'' dur, OnSamplesDropped ''shutdown_drain'' n])
          else if \<not> err_is CtxDeadlineExceeded err \<and> is_non_retryable err then
            (let (cb', notes) = record_failure (ae_breaker_now e) cb
             in Some (cb', pre @ [OnSendOutcome ''non_retryable_error'' dur,
                  OnSamplesFailed ''non_retryable'' n] @ map BreakerNote notes))
          else
            let out = pre @ [OnSendOutcome (outcome_of err) dur] in
            if k = 0 \<or> deadline_passed bx attempt then Some (cb, out @ exhausted bx)
            else
              (case compute_backoff (bx_cfg bx) (ae_rand e) (int attempt) err of
                 None \<Rightarrow> None
               | Some wait \<Rightarrow>
                   (case capped_wait bx attempt wait of
                      None \<Rightarrow> Some (cb, out @ exhausted bx)
                    | Some w \<Rightarrow>
                        if ae_ctx_done e then
                          Some (cb, out @ [OnRetry, StartTimer w, OnSamplesDropped ''shutdown_drain'' n])
                        else
                          map_option (\<lambda>(cb', es). (cb', out @ [OnRetry, StartTimer w] @ es))
                            (retry_loop bx k (Suc attempt) cb))))"

definition eff_attempts :: "endpoint_config \<Rightarrow> nat" where
  "eff_attempts cfg = nat (if ep_max_attempts cfg < 1 then 1 else ep_max_attempts cfg)"

text \<open>
  \<open>processBatch\<close>: \<open>allow_now\<close> is the breaker's clock, \<open>enc_err\<close> the result of encoding the batch and
  \<open>start\<close> the clock reading for the deadline.
\<close>

definition process_batch ::
    "batch_ctx \<Rightarrow> instant \<Rightarrow> goerr option \<Rightarrow> instant \<Rightarrow> breaker \<Rightarrow> (breaker \<times> send_event list) option" where
  "process_batch bx allow_now enc_err start cb =
     (let (allowed, cb', notes) = br_allow allow_now cb;
          pre = map BreakerNote notes
      in if \<not> allowed then Some (cb', pre @ [OnSamplesDropped ''breaker_open'' (bx_len bx)])
         else case enc_err of
           Some _ \<Rightarrow> Some (cb', pre @ [OnSamplesFailed ''non_retryable'' (bx_len bx)])
         | None \<Rightarrow>
             let bx' = bx\<lparr>bx_deadline :=
                   (if ep_max_elapsed (bx_cfg bx) > 0
                    then Some (time_add start (ep_max_elapsed (bx_cfg bx))) else None)\<rparr>
             in map_option (\<lambda>(cb'', es). (cb'', pre @ es))
                  (retry_loop bx' (eff_attempts (bx_cfg bx)) 0 cb'))"

section \<open>Analysis of one turn of the retry loop\<close>

lemma retry_loop_Suc_cases:
  assumes "retry_loop bx (Suc k) a cb = Some (cb', es)"
  obtains
    (success) "snd (attempt_exchange bx a) = None" "cb' = fst (record_success cb)"
      "es = posted bx a @ [OnSamplesSent (bx_len bx), OnSendOutcome ''success'' (ae_dur (bx_env bx a)),
              OnLastSend (ae_sent_at (bx_env bx a))] @ map BreakerNote (snd (record_success cb))"
  | (cancelled) err where "snd (attempt_exchange bx a) = Some err" "err_is CtxCanceled err" "cb' = cb"
      "es = posted bx a @ [OnSendOutcome ''timeout'' (ae_dur (bx_env bx a)),
              OnSamplesDropped ''shutdown_drain'' (bx_len bx)]"
  | (rejected) err where "snd (attempt_exchange bx a) = Some err" "is_non_retryable err"
      "cb' = fst (record_failure (ae_breaker_now (bx_env bx a)) cb)"
      "es = posted bx a @ [OnSendOutcome ''non_retryable_error'' (ae_dur (bx_env bx a)),
              OnSamplesFailed ''non_retryable'' (bx_len bx)]
            @ map BreakerNote (snd (record_failure (ae_breaker_now (bx_env bx a)) cb))"
  | (gave_up) err where "snd (attempt_exchange bx a) = Some err" "cb' = cb"
      "es = posted bx a @ [OnSendOutcome (outcome_of err) (ae_dur (bx_env bx a))] @ exhausted bx"
  | (stopped) err wait w where "snd (attempt_exchange bx a) = Some err" "cb' = cb" "0 < k"
      "compute_backoff (bx_cfg bx) (ae_rand (bx_env bx a)) (int a) err = Some wait"
      "capped_wait bx a wait = Some w"
      "es = posted bx a @ [OnSendOutcome (outcome_of err) (ae_dur (bx_env bx a)), OnRetry, StartTimer w,
              OnSamplesDropped ''shutdown_drain'' (bx_len bx)]"
  | (again) err wait w es' where "snd (attempt_exchange bx a) = Some err" "0 < k"
      "compute_backoff (bx_cfg bx) (ae_rand (bx_env bx a)) (int a) err = Some wait"
      "capped_wait bx a wait = Some w"
      "retry_loop bx k (Suc a) cb = Some (cb', es')"
      "es = posted bx a @ [OnSendOutcome (outcome_of err) (ae_dur (bx_env bx a)), OnRetry, StartTimer w] @ es'"
  using assms
  by (auto simp: Let_def split: option.splits if_splits prod.splits)

section \<open>Reading the log\<close>

primrec terminal :: "send_event \<Rightarrow> bool" where
  "terminal (Posted h) = False"
| "terminal (OnSendOutcome o' d) = False"
| "terminal (OnSamplesSent n) = True"
| "terminal (OnSamplesFailed r n) = True"
| "terminal (OnSamplesDropped r n) = True"
| "terminal OnRetry = False"
| "terminal (OnLastSend t) = False"
| "terminal (BreakerNote s) = False"
| "terminal (StartTimer d) = False"

primrec is_outcome :: "send_event \<Rightarrow> bool" where
  "is_outcome (Posted h) = False"
| "is_outcome (OnSendOutcome o' d) = True"
| "is_outcome (OnSamplesSent n) = False"
| "is_outcome (OnSamplesFailed r n) = False"
| "is_outcome (OnSamplesDropped r n) = False"
| "is_outcome OnRetry = False"
| "is_outcome (OnLastSend t) = False"
| "is_outcome (BreakerNote s) = False"
| "is_outcome (StartTimer d) = False"

definition verdicts :: "nat \<Rightarrow> send_event set" where
  "verdicts n = {OnSamplesSent n, OnSamplesFailed ''non_retryable'' n,
     OnSamplesFailed ''retry_budget_exhausted'' n, OnSamplesDropped ''breaker_open'' n,
     OnSamplesDropped ''shutdown_drain'' n}"

lemma posted_log [simp]:
  "filter terminal (posted bx a) = []" "filter is_outcome (posted bx a) = []"
  "count_list (posted bx a) OnRetry = 0" "StartTimer w \<notin> set (posted bx a)"
  "length (filter (\<lambda>e. \<exists>h. e = Posted h) (posted bx a)) \<le> 1"
  by (auto simp: posted_def split: option.splits)

lemma notes_log [simp]:
  "filter terminal (map BreakerNote ns) = []" "filter is_outcome (map BreakerNote ns) = []"
  "count_list (map BreakerNote ns) OnRetry = 0" "StartTimer w \<notin> set (map BreakerNote ns)"
  by (induction ns) auto

lemma retry_loop_verdict:
  "retry_loop bx k a cb = Some (cb', es) \<Longrightarrow> \<exists>v \<in> verdicts (bx_len bx). filter terminal es = [v] \<and>
     (v = OnSamplesSent (bx_len bx) \<longrightarrow> cb' = fst (record_success cb)) \<and>
     (v = OnSamplesFailed ''non_retryable'' (bx_len bx) \<longrightarrow> (\<exists>t. cb' = fst (record_failure t cb))) \<and>
     (v \<notin> {OnSamplesSent (bx_len bx), OnSamplesFailed ''non_retryable'' (bx_len bx)} \<longrightarrow> cb' = cb)"
proof (induction k arbitrary: a cb' es)
  case 0
  then show ?case by (auto simp: exhausted_def verdicts_def)
next
  case (Suc k)
  from Suc.prems show ?case
  proof (cases rule: retry_loop_Suc_cases)
    case (again err wait w es')
    from Suc.IH [OF again(5)] again(6) show ?thesis by auto
  qed (auto simp: verdicts_def exhausted_def)
qed

lemma retry_loop_counts:
  "retry_loop bx k a cb = Some (cb', es) \<Longrightarrow>
     length (filter is_outcome es) \<le> k \<and> count_list es OnRetry \<le> k - 1"
proof (induction k arbitrary: a cb' es)
  case 0
  then show ?case by (auto simp: exhausted_def)
next
  case (Suc k)
  from Suc.prems show ?case
  proof (cases rule: retry_loop_Suc_cases)
    case (again err wait w es')
    from Suc.IH [OF again(5)] again show ?thesis by (auto simp: count_list_append)
  qed (auto simp: count_list_append exhausted_def)
qed

section \<open>Bounds of the backoff\<close>

text \<open>What \<open>rand.Int63n\<close> promises.\<close>

definition rand_ok :: "(int \<Rightarrow> int) \<Rightarrow> bool" where
  "rand_ok rand \<longleftrightarrow> (\<forall>n. 0 < n \<longrightarrow> 0 \<le> rand n \<and> rand n < n)"

lemma backoff_upper_range: "0 < backoff_upper cfg a \<and> backoff_upper cfg a \<le> backoff_max cfg"
  by (auto simp: backoff_upper_def Let_def backoff_max_def second_def)

lemma backoff_upper_exact:
  assumes "backoff_base cfg * 2 ^ nat (min 16 (max 0 a)) \<le> max_i64"
  shows "backoff_upper cfg a = min (backoff_max cfg) (backoff_base cfg * 2 ^ nat (min 16 (max 0 a)))"
proof -
  let ?e = "nat (min 16 (max 0 a))"
  have e: "(if a < 0 then 0 else if a > 16 then 16 else nat a) = ?e" by auto
  have b: "0 < backoff_base cfg" by (simp add: backoff_base_def second_def)
  then have pos: "0 < backoff_base cfg * 2 ^ ?e" by simp
  with assms have "in_i64 (backoff_base cfg * 2 ^ ?e)"
    unfolding in_i64_def min_i64_def by linarith
  then have "wrap64 (backoff_base cfg * 2 ^ ?e) = backoff_base cfg * 2 ^ ?e" by (rule wrap64_id)
  with pos show ?thesis unfolding backoff_upper_def e Let_def by (simp add: min_def)
qed

lemma compute_backoff_bounds:
  assumes "rand_ok rand" "compute_backoff cfg rand a err = Some w"
  shows "0 \<le> w \<and> w \<le> backoff_max cfg \<and>
    (\<forall>s d. as_retryable err = Some (s, d) \<longrightarrow> 0 < d \<longrightarrow> min d (backoff_max cfg) \<le> w) \<and>
    (as_retryable err = None \<longrightarrow> w \<le> backoff_upper cfg a)"
proof -
  let ?u = "backoff_upper cfg a" let ?n = "wrap64 (?u + 1)"
  have u: "0 < ?u" "?u \<le> backoff_max cfg" using backoff_upper_range by auto
  have n: "0 < ?n" using assms(2) by (simp add: compute_backoff_def Let_def split: if_splits)
  have "?n \<le> ?u + 1"
    using u by (cases "in_i64 (?u + 1)") (simp, use wrap64_in [of "?u + 1"] in \<open>auto simp: i64_defs\<close>)
  with n assms(1) have "0 \<le> rand ?n" "rand ?n \<le> ?u" unfolding rand_ok_def by fastforce+
  then show ?thesis using assms(2) n u
    by (auto simp: compute_backoff_def Let_def min_def split: option.splits if_splits)
qed

lemma compute_backoff_defined:
  assumes "backoff_max cfg < max_i64"
  shows "compute_backoff cfg rand a err \<noteq> None"
proof -
  have u: "0 < backoff_upper cfg a" "backoff_upper cfg a < max_i64"
    using backoff_upper_range [of cfg a] assms by auto
  then have "wrap64 (backoff_upper cfg a + 1) = backoff_upper cfg a + 1"
    by (intro wrap64_id) (simp add: i64_defs)
  with u show ?thesis by (auto simp: compute_backoff_def Let_def split: option.splits)
qed

text \<open>The condition is needed: with the longest durations the draw is asked for a number below a bound
  that has wrapped, and panics.\<close>

lemma extreme_backoff_panics:
  assumes "ep_initial_backoff cfg = max_i64" "ep_max_backoff cfg = max_i64"
  shows "compute_backoff cfg rand 0 err = None"
proof -
  have "wrap64 max_i64 = max_i64" by (simp add: i64_defs)
  then have "backoff_upper cfg 0 = max_i64"
    using assms by (simp add: backoff_upper_def backoff_base_def backoff_max_def Let_def) (simp add: max_i64_def)
  moreover have "wrap64 (max_i64 + 1) = min_i64" by (simp add: wrap64_def i64_defs)
  ultimately show ?thesis by (simp add: compute_backoff_def Let_def min_i64_def)
qed

lemma capped_wait_le: "capped_wait bx a wait = Some w \<Longrightarrow> w \<le> wait"
  by (auto simp: capped_wait_def Let_def split: option.splits if_splits)

lemma capped_wait_nonneg: "capped_wait bx a wait = Some w \<Longrightarrow> 0 \<le> wait \<Longrightarrow> 0 \<le> w"
  by (auto simp: capped_wait_def Let_def split: option.splits if_splits)

definition timers_ok :: "duration \<Rightarrow> send_event list \<Rightarrow> bool" where
  "timers_ok m es \<longleftrightarrow> (\<forall>w. StartTimer w \<in> set es \<longrightarrow> 0 \<le> w \<and> w \<le> m)"

lemma retry_loop_timers:
  assumes "\<And>i. rand_ok (ae_rand (bx_env bx i))"
  shows "retry_loop bx k a cb = Some (cb', es) \<Longrightarrow> timers_ok (backoff_max (bx_cfg bx)) es"
proof (induction k arbitrary: a cb' es)
  case 0
  then show ?case by (auto simp: exhausted_def timers_ok_def)
next
  case (Suc k)
  have w: "0 \<le> w \<and> w \<le> backoff_max (bx_cfg bx)"
    if "compute_backoff (bx_cfg bx) (ae_rand (bx_env bx a)) (int a) err = Some wait"
      "capped_wait bx a wait = Some w" for err wait w
    using compute_backoff_bounds [OF assms that(1)] capped_wait_le [OF that(2)]
      capped_wait_nonneg [OF that(2)] by auto
  from Suc.prems show ?case
  proof (cases rule: retry_loop_Suc_cases)
    case (stopped err wait w')
    with w [OF stopped(4,5)] show ?thesis by (auto simp: timers_ok_def)
  next
    case (again err wait w' es')
    with w [OF again(3,4)] Suc.IH [OF again(5)] show ?thesis by (auto simp: timers_ok_def)
  qed (auto simp: timers_ok_def exhausted_def)
qed

lemma retry_loop_defined:
  assumes "backoff_max (bx_cfg bx) < max_i64"
  shows "retry_loop bx k a cb \<noteq> None"
proof (induction k arbitrary: a)
  case 0
  show ?case by simp
next
  case (Suc k)
  obtain r where r: "retry_loop bx k (Suc a) cb = Some r" using Suc by blast
  show ?case
    by (simp add: Let_def r compute_backoff_defined [OF assms] split: option.split prod.split)
qed

section \<open>The seed\<close>

lemma little_endian_range: "0 \<le> little_endian bs \<and> little_endian bs < 256 ^ length bs"
proof (induction bs)
  case (Cons b bs)
  have "0 \<le> int (byte b)" "int (byte b) < 256" by (simp_all add: byte_def)
  with Cons show ?case by (simp add: little_endian_def)
qed (simp add: little_endian_def)

lemma little_endian_inject:
  "length bs = length cs \<Longrightarrow> little_endian bs = little_endian cs \<Longrightarrow> bs = cs"
proof (induction bs cs rule: list_induct2)
  case (Cons b bs c cs)
  have low: "(int (byte x) + 256 * n) mod 256 = int (byte x)" for x n
    by (simp add: byte_def)
  have e: "int (byte b) + 256 * little_endian bs = int (byte c) + 256 * little_endian cs"
    using Cons.prems by (simp add: little_endian_def)
  then have "int (byte b) = int (byte c)" by (metis low)
  moreover from this e have "little_endian bs = little_endian cs" by linarith
  ultimately show ?case using Cons.IH byte_inject [of b c] by simp
qed simp

text \<open>Different entropy gives a different seed: the conversion to \<open>int64\<close> loses nothing.\<close>

theorem distinct_entropy_distinct_seed:
  assumes "length bs = 8" "length cs = 8" "rand_seed (Some bs) now = rand_seed (Some cs) now'"
  shows "bs = cs"
proof (rule little_endian_inject)
  have r: "0 \<le> little_endian xs" "little_endian xs < 18446744073709551616" if "length xs = 8" for xs
    using little_endian_range [of xs] that by simp_all
  have "wrap64 (little_endian bs) = wrap64 (little_endian cs)" using assms(3) by (simp add: rand_seed_def)
  then show "little_endian bs = little_endian cs"
    using wrap64_mod [OF r [OF assms(1)]] wrap64_mod [OF r [OF assms(2)]] by metis
qed (simp add: assms)

section \<open>Properties of the sender\<close>

lemma process_batch_cases:
  assumes "process_batch bx t0 enc_err start cb = Some (cb', es)"
  obtains
    (blocked) "\<not> fst (br_allow t0 cb)" "cb' = fst (snd (br_allow t0 cb))"
      "es = map BreakerNote (snd (snd (br_allow t0 cb))) @ [OnSamplesDropped ''breaker_open'' (bx_len bx)]"
  | (unencodable) "fst (br_allow t0 cb)" "enc_err \<noteq> None" "cb' = fst (snd (br_allow t0 cb))"
      "es = map BreakerNote (snd (snd (br_allow t0 cb))) @ [OnSamplesFailed ''non_retryable'' (bx_len bx)]"
  | (looped) es' bx' where "fst (br_allow t0 cb)" "enc_err = None"
      "retry_loop bx' (eff_attempts (bx_cfg bx)) 0 (fst (snd (br_allow t0 cb))) = Some (cb', es')"
      "es = map BreakerNote (snd (snd (br_allow t0 cb))) @ es'"
      "bx' = bx\<lparr>bx_deadline := bx_deadline bx'\<rparr>"
  using assms
  by (auto simp: process_batch_def Let_def split: prod.splits option.splits if_splits)

text \<open>Every batch is accounted for exactly once: whatever the receiver, the clock, the context and
  the breaker do, the log of a batch holds exactly one of sent, failed or dropped, for all its series
  and with one of the documented reasons.\<close>

theorem batch_accounted_once:
  assumes "process_batch bx t0 enc_err start cb = Some (cb', es)"
  shows "\<exists>v \<in> verdicts (bx_len bx). filter terminal es = [v]"
  using assms
proof (cases rule: process_batch_cases)
  case (looped es' bx')
  from looped(5) have "bx_len bx' = bx_len bx" by (cases bx', cases bx) simp
  with retry_loop_verdict [OF looped(3)] looped(4) show ?thesis by auto
qed (auto simp: verdicts_def)

definition demo_env :: attempt_env where
  "demo_env = \<lparr>ae_build_err = None,
     ae_reply = Inr \<lparr>resp_status_code = 503, resp_status = ''503 Service Unavailable'', resp_retry_after = ''7''\<rparr>,
     ae_reply_now = 0, ae_dur = 5, ae_sent_at = 0, ae_breaker_now = 0, ae_check_now = 0,
     ae_until_now = 0, ae_rand = (\<lambda>n. n div 2), ae_ctx_done = False, ae_headers = []\<rparr>"

definition demo_cfg :: endpoint_config where
  "demo_cfg = \<lparr>ep_timeout = second, ep_max_attempts = 2, ep_max_elapsed = 0,
     ep_initial_backoff = second, ep_max_backoff = 5 * second, ep_headers = [], ep_basic_user = [],
     ep_basic_pass = [], ep_bearer_token = ''tok''\<rparr>"

definition demo_bx :: batch_ctx where
  "demo_bx = \<lparr>bx_cfg = demo_cfg, bx_agent = ''a'', bx_parse_time = (\<lambda>_. None),
     bx_env = (\<lambda>_. demo_env), bx_len = 3, bx_deadline = None\<rparr>"

lemma atoi_7 [simp]: "atoi ''7'' = Some 7"
  by (simp add: atoi_def digits_val_def digit_val_def byte_def is_digit_def i64_defs)

lemma demo_exchange: "attempt_exchange demo_bx a =
    (Some (protocol_headers ''a''), Some (ErrRetryable 503
       (ErrOpaque (''server returned '' @ ''503 Service Unavailable'')) (7 * second)))"
  by (simp add: attempt_exchange_def send_write_request_def demo_bx_def demo_env_def
      classify_status_def server_returned_def parse_retry_after_def second_def i64_defs)

lemma demo_backoff: "compute_backoff demo_cfg (\<lambda>n. n div 2) 0
    (ErrRetryable 503 e (7 * second)) = Some (5 * second)"
  by (simp add: compute_backoff_def backoff_upper_def backoff_base_def backoff_max_def demo_cfg_def
      second_def Let_def i64_defs)

lemma demo_loop: "retry_loop demo_bx 2 0 cb =
    Some (cb, [Posted (protocol_headers ''a''), OnSendOutcome ''retryable_error'' 5, OnRetry,
       StartTimer (5 * second), Posted (protocol_headers ''a''), OnSendOutcome ''retryable_error'' 5,
       OnSamplesFailed ''retry_budget_exhausted'' 3])"
proof -
  have sel: "bx_env demo_bx = (\<lambda>_. demo_env)" "bx_len demo_bx = 3" "bx_deadline demo_bx = None"
    "bx_cfg demo_bx = demo_cfg" "ae_dur demo_env = 5" "ae_ctx_done demo_env = False"
    "ae_rand demo_env = (\<lambda>n. n div 2)"
    by (simp_all add: demo_bx_def demo_env_def)
  show ?thesis
    by (simp add: numeral_2_eq_2 sel demo_exchange demo_backoff posted_def deadline_passed_def
        capped_wait_def exhausted_def outcome_of_def is_non_retryable_def Let_def)
qed

lemma demo_batch: "process_batch demo_bx 0 None 0 demo_breaker =
    Some (demo_breaker, [Posted (protocol_headers ''a''), OnSendOutcome ''retryable_error'' 5, OnRetry,
       StartTimer (5 * second), Posted (protocol_headers ''a''), OnSendOutcome ''retryable_error'' 5,
       OnSamplesFailed ''retry_budget_exhausted'' 3])"
proof -
  have "demo_bx\<lparr>bx_deadline := None\<rparr> = demo_bx" by (simp add: demo_bx_def)
  moreover have "eff_attempts demo_cfg = 2" "ep_max_elapsed demo_cfg = 0" "bx_cfg demo_bx = demo_cfg"
    by (simp_all add: eff_attempts_def demo_cfg_def demo_bx_def)
  ultimately show ?thesis
    by (simp add: process_batch_def br_allow_def demo_breaker_ok demo_loop)
qed

theorem batch_accounted_once_witness:
  "\<exists>v \<in> verdicts 3. filter terminal (snd (the (process_batch demo_bx 0 None 0 demo_breaker))) = [v]"
  using batch_accounted_once [OF demo_batch] demo_batch by (simp add: demo_bx_def)

lemma looped_ctx:
  assumes "bx' = bx\<lparr>bx_deadline := bx_deadline bx'\<rparr>"
  shows "bx_len bx' = bx_len bx" "bx_env bx' = bx_env bx" "bx_cfg bx' = bx_cfg bx"
    "attempt_exchange bx' = attempt_exchange bx"
  using arg_cong [OF assms, of bx_len] arg_cong [OF assms, of bx_env] arg_cong [OF assms, of bx_cfg]
    arg_cong [OF assms, of attempt_exchange]
  by (simp_all add: attempt_exchange_def fun_eq_iff)



text \<open>Every backoff delay lies between zero and \<open>MaxBackoff\<close>, is at least the receiver's
  \<open>Retry-After\<close> (capped at \<open>MaxBackoff\<close>), and without one is at most \<open>InitialBackoff * 2^attempt\<close>
  (the exponent capped at 16) as long as that product fits an \<open>int64\<close>.\<close>

theorem backoff_within_bounds:
  assumes "rand_ok rand" and "compute_backoff cfg rand a err = Some w"
    and "backoff_base cfg * 2 ^ nat (min 16 (max 0 a)) \<le> max_i64"
  shows "0 \<le> w \<and> w \<le> backoff_max cfg \<and>
    (\<forall>s d. as_retryable err = Some (s, d) \<longrightarrow> 0 < d \<longrightarrow> min d (backoff_max cfg) \<le> w) \<and>
    (as_retryable err = None \<longrightarrow> w \<le> backoff_base cfg * 2 ^ nat (min 16 (max 0 a)))"
  using compute_backoff_bounds [OF assms(1,2)] backoff_upper_exact [OF assms(3)] by auto

theorem backoff_within_bounds_witness:
  "compute_backoff demo_cfg (\<lambda>n. n div 2) 0 (ErrRetryable 503 CtxCanceled (7 * second)) = Some (5 * second)
   \<and> min (7 * second) (backoff_max demo_cfg) \<le> 5 * second"
proof -
  have "rand_ok (\<lambda>n. n div 2)" by (auto simp: rand_ok_def)
  moreover have "backoff_base demo_cfg * 2 ^ nat (min 16 (max 0 0)) \<le> max_i64"
    by (simp add: backoff_base_def demo_cfg_def second_def i64_defs)
  ultimately have "min (7 * second) (backoff_max demo_cfg) \<le> 5 * second"
    using backoff_within_bounds [OF _ demo_backoff [of CtxCanceled]] by (auto simp: second_def)
  with demo_backoff show ?thesis by blast
qed

text \<open>The clamp of the exponent does not prevent the overflow its comment speaks of: with an initial
  backoff of \<open>2^48 + 1\<close> nanoseconds (about 78 hours) the shift by 16 wraps to 65536 nanoseconds, far
  below the initial backoff, and that is the bound used.\<close>

theorem backoff_shift_wraps:
  "backoff_upper (demo_cfg\<lparr>ep_initial_backoff := 2 ^ 48 + 1, ep_max_backoff := 2 ^ 50\<rparr>) 16 = 65536"
  by (simp add: backoff_upper_def backoff_base_def backoff_max_def wrap64_def)

text \<open>Only a non-retryable response counts against the breaker: a batch leaves it as a success does
  when it was sent, as one failure does when the receiver rejected it, and otherwise exactly as the
  admission check left it.\<close>

theorem breaker_sees_only_rejections:
  assumes "process_batch bx t0 None start cb = Some (cb', es)" and "fst (br_allow t0 cb)"
  defines "cb1 \<equiv> fst (snd (br_allow t0 cb))"
  shows "(OnSamplesSent (bx_len bx) \<in> set es \<longrightarrow> cb' = fst (record_success cb1)) \<and>
    (OnSamplesFailed ''non_retryable'' (bx_len bx) \<in> set es \<longrightarrow> (\<exists>t. cb' = fst (record_failure t cb1))) \<and>
    (OnSamplesSent (bx_len bx) \<notin> set es \<longrightarrow>
       OnSamplesFailed ''non_retryable'' (bx_len bx) \<notin> set es \<longrightarrow> cb' = cb1)"
  using assms(1)
proof (cases rule: process_batch_cases)
  case (looped es' bx')
  note c = looped_ctx [OF looped(5)]
  obtain v where v: "filter terminal es' = [v]"
     "v = OnSamplesSent (bx_len bx) \<longrightarrow> cb' = fst (record_success cb1)"
     "v = OnSamplesFailed ''non_retryable'' (bx_len bx) \<longrightarrow> (\<exists>t. cb' = fst (record_failure t cb1))"
     "v \<notin> {OnSamplesSent (bx_len bx), OnSamplesFailed ''non_retryable'' (bx_len bx)} \<longrightarrow> cb' = cb1"
    using retry_loop_verdict [OF looped(3)] c cb1_def by auto
  have "x \<in> set es \<longleftrightarrow> x = v" if "terminal x" for x
  proof -
    have "x \<in> set es \<longleftrightarrow> x \<in> set (filter terminal es)" using that by simp
    also have "filter terminal es = [v]" using looped(4) v(1) by simp
    finally show ?thesis by simp
  qed
  with v show ?thesis by auto
qed (use assms in auto)

theorem breaker_sees_only_rejections_witness:
  "process_batch demo_bx 0 None 0 demo_breaker \<noteq> None \<and>
   fst (the (process_batch demo_bx 0 None 0 demo_breaker)) = demo_breaker"
proof -
  have "fst (br_allow 0 demo_breaker)" "fst (snd (br_allow 0 demo_breaker)) = demo_breaker"
    by (simp_all add: br_allow_def demo_breaker_ok)
  with breaker_sees_only_rejections [OF demo_batch] demo_batch show ?thesis by (simp add: demo_bx_def)
qed

section \<open>Authorization on every request\<close>

lemma posted_exchange: "Posted h \<in> set (posted bx a) \<longleftrightarrow> fst (attempt_exchange bx a) = Some h"
  by (auto simp: posted_def split: option.splits)

lemma retry_loop_posted:
  "retry_loop bx k a cb = Some (cb', es) \<Longrightarrow> Posted h \<in> set es \<Longrightarrow>
     \<exists>i. fst (attempt_exchange bx i) = Some h"
proof (induction k arbitrary: a cb' es)
  case 0
  then show ?case by (auto simp: exhausted_def)
next
  case (Suc k)
  from Suc.prems(1) show ?case
  proof (cases rule: retry_loop_Suc_cases)
    case (again err wait w es')
    with Suc.IH [OF again(5)] Suc.prems(2) posted_exchange show ?thesis by auto
  qed (use Suc.prems(2) posted_exchange in \<open>auto simp: exhausted_def\<close>)
qed

lemma apply_headers_value:
  assumes "K \<notin> set reserved_headers" "\<forall>(k, w) \<in> set kvs. canonical_header k = K \<longrightarrow> w = v"
    and "h K = Some v \<or> (\<exists>k. (k, v) \<in> set kvs \<and> canonical_header k = K)"
  shows "apply_headers h kvs K = Some v"
  using assms(2,3)
  by (induction h kvs rule: apply_headers.induct) (use assms(1) in \<open>auto simp: set_header_def\<close>)

lemma authorization_not_reserved: "''Authorization'' \<notin> set reserved_headers"
  by (simp add: reserved_headers_def)

lemma apply_headers_absent: "\<forall>(k, w) \<in> set kvs. canonical_header k \<noteq> K \<Longrightarrow> apply_headers h kvs K = h K"
  by (induction h kvs rule: apply_headers.induct) (auto simp: set_header_def)

text \<open>The header of every request a batch sends, in whatever order the header map is visited.\<close>

lemma posted_request:
  assumes "process_batch bx t0 enc_err start cb = Some (cb', es)" and "Posted h \<in> set es"
    and "\<And>i. mset (ae_headers (bx_env bx i)) = mset (compose_headers (bx_cfg bx))"
  obtains hs where "h = apply_headers (protocol_headers (bx_agent bx)) hs"
    "set hs = set (compose_headers (bx_cfg bx))"
  using assms(1)
proof (cases rule: process_batch_cases)
  case (looped es' bx')
  note c = looped_ctx [OF looped(5)]
  from looped(4) assms(2) have "Posted h \<in> set es'" by auto
  with retry_loop_posted [OF looped(3)] c obtain i
    where "fst (attempt_exchange bx i) = Some h" by auto
  then have "h = apply_headers (protocol_headers (bx_agent bx)) (ae_headers (bx_env bx i))"
    by (auto simp: attempt_exchange_def send_write_request_def Let_def split: option.splits)
  moreover have "set (ae_headers (bx_env bx i)) = set (compose_headers (bx_cfg bx))"
    using assms(3) [of i] by (rule mset_eq_setD)
  ultimately show ?thesis by (rule that)
qed (use assms in auto)

text \<open>The first attempt of a batch, when the receiver accepts it.\<close>

lemma first_attempt_posted:
  assumes "fst (br_allow t0 cb)" "ae_build_err (bx_env bx 0) = None" "ae_reply (bx_env bx 0) = Inr r"
    and "200 \<le> resp_status_code r" "resp_status_code r < 300"
  shows "\<exists>cb' es. process_batch bx t0 None start cb = Some (cb', es)
    \<and> Posted (apply_headers (protocol_headers (bx_agent bx)) (ae_headers (bx_env bx 0))) \<in> set es"
proof -
  let ?h = "apply_headers (protocol_headers (bx_agent bx)) (ae_headers (bx_env bx 0))"
  have x: "attempt_exchange (bx\<lparr>bx_deadline := d\<rparr>) 0 = (Some ?h, None)" for d
    using assms(2-5) by (simp add: attempt_exchange_def send_write_request_def classify_status_def)
  obtain k where "eff_attempts (bx_cfg bx) = Suc k"
    by (cases "eff_attempts (bx_cfg bx)") (auto simp: eff_attempts_def split: if_splits)
  with x assms(1) show ?thesis
    by (auto simp: process_batch_def posted_def Let_def split: prod.splits)
qed

text \<open>With a bearer token configured and no configured header that spells \<open>Authorization\<close> in any
  letter case (which \<open>validateRemoteWrite\<close> enforces), every request of every attempt carries that
  token, in whatever order the header maps are visited.\<close>

theorem bearer_token_on_every_request:
  assumes "process_batch bx t0 enc_err start cb = Some (cb', es)" and "Posted h \<in> set es"
    and "\<And>i. mset (ae_headers (bx_env bx i)) = mset (compose_headers (bx_cfg bx))"
    and "ep_bearer_token (bx_cfg bx) \<noteq> []"
    and "\<forall>(k, v) \<in> set (ep_headers (bx_cfg bx)). canonical_header k \<noteq> ''Authorization''"
  shows "h ''Authorization'' = Some (''Bearer '' @ ep_bearer_token (bx_cfg bx))"
proof -
  obtain hs where h: "h = apply_headers (protocol_headers (bx_agent bx)) hs"
    and s: "set hs = set (compose_headers (bx_cfg bx))"
    using posted_request [OF assms(1-3)] by blast
  show ?thesis unfolding h
    by (rule apply_headers_value [OF authorization_not_reserved])
      (use assms(4,5) in \<open>auto simp: s compose_headers_def Let_def\<close>)
qed

definition demo_ok_env :: attempt_env where
  "demo_ok_env = demo_env\<lparr>
     ae_reply := Inr \<lparr>resp_status_code = 200, resp_status = ''200 OK'', resp_retry_after = []\<rparr>,
     ae_headers := [(''Authorization'', ''Bearer tok'')]\<rparr>"

definition demo_ok_bx :: batch_ctx where
  "demo_ok_bx = demo_bx\<lparr>bx_env := \<lambda>_. demo_ok_env\<rparr>"

lemma demo_ok_sel: "bx_env demo_ok_bx = (\<lambda>_. demo_ok_env)" "bx_len demo_ok_bx = 3"
    "bx_cfg demo_ok_bx = demo_cfg" "bx_agent demo_ok_bx = ''a''"
    "demo_ok_bx\<lparr>bx_deadline := None\<rparr> = demo_ok_bx"
    "ae_headers demo_ok_env = [(''Authorization'', ''Bearer tok'')]" "ae_dur demo_ok_env = 5"
    "ae_sent_at demo_ok_env = 0" "ae_build_err demo_ok_env = None"
    "ae_reply demo_ok_env = Inr \<lparr>resp_status_code = 200, resp_status = ''200 OK'', resp_retry_after = []\<rparr>"
  by (simp_all add: demo_ok_bx_def demo_bx_def demo_ok_env_def demo_env_def)

lemma demo_ok_batch: "process_batch demo_ok_bx 0 None 0 demo_breaker =
    Some (demo_breaker, [Posted (apply_headers (protocol_headers ''a'') [(''Authorization'', ''Bearer tok'')]),
      OnSamplesSent 3, OnSendOutcome ''success'' 5, OnLastSend 0])"
proof -
  have x: "attempt_exchange demo_ok_bx 0 =
      (Some (apply_headers (protocol_headers ''a'') [(''Authorization'', ''Bearer tok'')]), None)"
    by (simp add: attempt_exchange_def send_write_request_def classify_status_def demo_ok_sel)
  have "eff_attempts demo_cfg = 2" "ep_max_elapsed demo_cfg = 0"
    by (simp_all add: eff_attempts_def demo_cfg_def)
  moreover have "record_success demo_breaker = (demo_breaker, [])"
    using demo_breaker_ok by (simp add: record_success_def)
  ultimately show ?thesis
    by (simp add: process_batch_def br_allow_def demo_breaker_ok demo_ok_sel numeral_2_eq_2 x
        posted_def Let_def)
qed

theorem bearer_token_on_every_request_witness:
  "apply_headers (protocol_headers ''a'') [(''Authorization'', ''Bearer tok'')] ''Authorization'' = Some ''Bearer tok''"
proof -
  have "compose_headers demo_cfg = [(''Authorization'', ''Bearer tok'')]" "ep_bearer_token demo_cfg = ''tok''"
    "ep_headers demo_cfg = []"
    by (simp_all add: compose_headers_def demo_cfg_def)
  with bearer_token_on_every_request [OF demo_ok_batch,
      of "apply_headers (protocol_headers ''a'') [(''Authorization'', ''Bearer tok'')]"]
  show ?thesis by (simp add: demo_ok_sel)
qed

section \<open>Rejections across batches\<close>

text \<open>One batch after another, as \<open>Run\<close> processes them: the logs and the breaker after the last.\<close>

fun process_all ::
    "(batch_ctx \<times> instant \<times> goerr option \<times> instant) list \<Rightarrow> breaker \<Rightarrow>
       (breaker \<times> send_event list list) option" where
  "process_all [] cb = Some (cb, [])"
| "process_all ((bx, t0, enc_err, start) # bs) cb =
     (case process_batch bx t0 enc_err start cb of
        None \<Rightarrow> None
      | Some (cb1, es) \<Rightarrow> map_option (\<lambda>(cb2, ess). (cb2, es # ess)) (process_all bs cb1))"

definition rejected_at :: "batch_ctx \<Rightarrow> instant \<Rightarrow> bool" where
  "rejected_at bx t \<longleftrightarrow> ae_breaker_now (bx_env bx 0) = t \<and>
     (\<exists>status err. snd (attempt_exchange bx 0) = Some (ErrNonRetryable status err)
        \<and> \<not> err_is CtxCanceled err \<and> \<not> err_is CtxDeadlineExceeded err)"

lemma process_batch_rejected:
  assumes "rejected_at bx t" "br_state cb = BreakerClosed"
  shows "\<exists>es. process_batch bx t0 None start cb = Some (fst (record_failure t cb), es)"
proof -
  have x: "attempt_exchange (bx\<lparr>bx_deadline := d\<rparr>) = attempt_exchange bx" for d
    by (simp add: attempt_exchange_def fun_eq_iff)
  obtain k where k: "eff_attempts (bx_cfg bx) = Suc k"
    by (cases "eff_attempts (bx_cfg bx)") (auto simp: eff_attempts_def split: if_splits)
  show ?thesis using assms
    by (auto simp: rejected_at_def process_batch_def br_allow_def k x is_non_retryable_def Let_def
        split: prod.split)
qed

lemma process_all_rejected:
  "br_ok cb \<Longrightarrow> list_all2 (\<lambda>(bx, t0, e, s) t. e = None \<and> rejected_at bx t) bs ts \<Longrightarrow>
   (\<forall>k < length ts. br_state (fail_run (take k ts) cb) = BreakerClosed) \<Longrightarrow>
   \<exists>ess. process_all bs cb = Some (fail_run ts cb, ess)"
proof (induction bs arbitrary: ts cb)
  case Nil
  then show ?case by simp
next
  case (Cons b bs)
  obtain bx t0 s where b: "b = (bx, t0, None, s)" using Cons.prems(2) by (cases b; cases ts) auto
  obtain t ts' where ts: "ts = t # ts'" "rejected_at bx t"
      "list_all2 (\<lambda>(bx, t0, e, s) t. e = None \<and> rejected_at bx t) bs ts'"
    using Cons.prems(2) b by (cases ts) auto
  have "br_state cb = BreakerClosed" using Cons.prems(3) ts by force
  with process_batch_rejected [OF ts(2)] obtain es
    where es: "process_batch bx t0 None s cb = Some (fst (record_failure t cb), es)" by blast
  have "\<forall>k < length ts'. br_state (fail_run (take k ts') (fst (record_failure t cb))) = BreakerClosed"
  proof (intro allI impI)
    fix k assume "k < length ts'"
    then show "br_state (fail_run (take k ts') (fst (record_failure t cb))) = BreakerClosed"
      using Cons.prems(3) [rule_format, of "Suc k"] ts(1) by (simp add: fail_run_def)
  qed
  from Cons.IH [OF record_failure_ok [OF Cons.prems(1)] ts(3) this] es b ts(1)
  show ?case by (auto simp: fail_run_def)
qed

text \<open>A receiver that rejects \<open>FailureThreshold\<close> consecutive batches within the breaker's window
  cuts itself off: the next batch, and any other before the cooldown ends, is dropped without a
  request, as \<open>breaker_open\<close>.\<close>

theorem rejections_open_the_breaker:
  assumes "br_ok cb" "br_state cb = BreakerClosed" "br_failures cb = []"
    and "list_all2 (\<lambda>(bx, t0, e, s) t. e = None \<and> rejected_at bx t) bs (ts @ [t])"
    and "sorted (ts @ [t])" "\<forall>u \<in> set ts. t - br_window cb < u"
    and "int (length (ts @ [t])) = br_threshold cb"
    and "t0 < t + br_cooldown cb"
  shows "\<exists>cb' ess. process_all bs cb = Some (cb', ess) \<and>
    process_batch bx t0 enc start cb' = Some (cb', [OnSamplesDropped ''breaker_open'' (bx_len bx)])"
proof -
  have few: "br_state (fail_run (take k (ts @ [t])) cb) = BreakerClosed" if "k < length (ts @ [t])" for k
    using few_failures_stay_closed [OF assms(1,2), of "take k (ts @ [t])"] assms(3,7) that by simp
  then obtain ess where ess: "process_all bs cb = Some (fail_run (ts @ [t]) cb, ess)"
    using process_all_rejected [OF assms(1,4)] by blast
  let ?c = "fail_run (ts @ [t]) cb"
  have "br_state (fail_run ts cb) = BreakerClosed" using few [of "length ts"] by simp
  moreover have "window_failures (br_window cb) t (ts @ [t]) = ts @ [t]"
    using assms(1,6) by (simp add: window_failures_def br_ok_def)
  ultimately have o: "br_state ?c = BreakerOpen"
    using window_full_opens [OF assms(1-3,5)] assms(7) by simp
  have ok: "br_ok ?c" "br_cooldown ?c = br_cooldown cb"
    using fail_run_ok [OF assms(1), of "ts @ [t]"] by (auto simp: br_params_def)
  have "br_opened_at ?c = t"
    using o \<open>br_state (fail_run ts cb) = BreakerClosed\<close>
    by (auto simp: record_failure_def set_state_locked_def Let_def split: if_splits)
  then have "br_allow t0 ?c = (False, ?c, [])"
    using o ok assms(8) by (simp add: br_allow_def br_ok_def)
  with ess show ?thesis by (simp add: process_batch_def)
qed

definition demo_rejected :: "instant \<Rightarrow> batch_ctx" where
  "demo_rejected t = demo_bx\<lparr>bx_env := \<lambda>_. demo_env\<lparr>ae_breaker_now := t,
     ae_reply := Inr \<lparr>resp_status_code = 403, resp_status = ''403 Forbidden'', resp_retry_after = []\<rparr>\<rparr>\<rparr>"

lemma demo_rejected_at: "rejected_at (demo_rejected t) t"
  by (simp add: rejected_at_def demo_rejected_def demo_bx_def demo_env_def attempt_exchange_def
      send_write_request_def classify_status_def server_returned_def)

theorem rejections_open_the_breaker_witness:
  "\<exists>cb' ess. process_all [(demo_rejected 5, 5, None, 5), (demo_rejected 6, 6, None, 6)] demo_breaker = Some (cb', ess) \<and>
    process_batch demo_bx 10 None 0 cb' = Some (cb', [OnSamplesDropped ''breaker_open'' (bx_len demo_bx)])"
  by (rule rejections_open_the_breaker [OF demo_breaker_ok(1-3), where ts = "[5]" and t = 6])
    (simp_all add: demo_breaker_ok demo_rejected_at)

end
