(* ===== verification/Convert.thy ===== *)
theory Convert
  imports GoStrings
begin

unbundle bit_operations_syntax

text \<open>
  \<^verbatim>\<open>internal/remotewrite/convert.go\<close>: the conversion of gathered metric families into remote write time
  series. A float64 is its 64-bit pattern (a \<open>64 word\<close>), so that NaN and infinities are decided as
  the code decides them; \<open>strconv.FormatFloat\<close> is the argument \<open>fmt\<close> of the conversion. The metric
  families are the data of the Prometheus client model, an absent part being \<open>None\<close>.
\<close>

section \<open>float64\<close>

type_synonym float64 = "64 word"

definition is_nan :: "float64 \<Rightarrow> bool" where
  "is_nan x \<longleftrightarrow> 0x7FF0000000000000 < (x AND 0x7FFFFFFFFFFFFFFF)"

definition is_pos_inf :: "float64 \<Rightarrow> bool" where
  "is_pos_inf x \<longleftrightarrow> x = 0x7FF0000000000000"

fun log2 :: "nat \<Rightarrow> nat" where
  "log2 n = (if n < 2 then 0 else Suc (log2 (n div 2)))"

declare log2.simps [simp del]

text \<open>The conversion of a uint64: exact up to 53 bits, then rounded to nearest, ties to even.\<close>

definition f64_bits :: "nat \<Rightarrow> nat" where
  "f64_bits n =
     (if n = 0 then 0
      else let k = log2 n in
        if k \<le> 52 then (k + 1022) * 2 ^ 52 + n * 2 ^ (52 - k)
        else
          let sh = k - 52; q = n div 2 ^ sh; r = n mod 2 ^ sh; half = 2 ^ (sh - 1) in
          (k + 1022) * 2 ^ 52 + q + (if r > half \<or> (r = half \<and> odd q) then 1 else 0))"

definition f64_of_uint :: "64 word \<Rightarrow> float64" where
  "f64_of_uint n = of_nat (f64_bits (unat n))"

lemma log2_bounds: "0 < n \<Longrightarrow> 2 ^ log2 n \<le> n \<and> n < 2 ^ Suc (log2 n)"
proof (induction n rule: log2.induct)
  case (1 n)
  show ?case
  proof (cases "n < 2")
    case True
    with 1 show ?thesis by (subst log2.simps, subst log2.simps) simp
  next
    case False
    then have "0 < n div 2" by simp
    from 1(1) [OF False this] have "2 ^ log2 (n div 2) \<le> n div 2" "n div 2 < 2 ^ Suc (log2 (n div 2))" by simp_all
    moreover have "log2 n = Suc (log2 (n div 2))" using False by (subst log2.simps) simp
    ultimately show ?thesis by simp linarith
  qed
qed

lemma f64_bits_bound: "n < 2 ^ 64 \<Longrightarrow> f64_bits n \<le> 1087 * 2 ^ 52"
proof (cases "n = 0")
  case True
  then show ?thesis by (simp add: f64_bits_def)
next
  case False
  assume n: "n < 2 ^ 64"
  have b: "2 ^ log2 n \<le> n" "n < 2 ^ Suc (log2 n)" using log2_bounds [of n] False by simp_all
  have "(2 :: nat) ^ log2 n < 2 ^ 64" using b(1) n by linarith
  then have k: "log2 n \<le> 63"
    using power_increasing [of 64 "log2 n" "2 :: nat"] by (cases "log2 n \<le> 63") auto
  show ?thesis
  proof (cases "log2 n \<le> 52")
    case True
    have "n * 2 ^ (52 - log2 n) < 2 ^ Suc (log2 n) * 2 ^ (52 - log2 n)" using b(2) by simp
    also have "\<dots> = 2 ^ 53" using True by (simp flip: power_add)
    finally have "n * 2 ^ (52 - log2 n) < 2 ^ 53" .
    moreover have "(log2 n + 1022) * 2 ^ 52 \<le> 1074 * (2 :: nat) ^ 52" using True by (intro mult_right_mono) simp_all
    ultimately show ?thesis using False True by (simp add: f64_bits_def Let_def)
  next
    case F: False
    define sh where "sh = log2 n - 52"
    have s: "Suc (log2 n) = 53 + sh" using F by (simp add: sh_def)
    have "n < 2 ^ 53 * 2 ^ sh" using b(2) unfolding s by (simp add: power_add)
    then have q: "n div 2 ^ sh < 2 ^ 53" by (simp add: less_mult_imp_div_less)
    have "f64_bits n \<le> (log2 n + 1022) * 2 ^ 52 + n div 2 ^ sh + 1"
      using False F by (simp add: f64_bits_def Let_def sh_def)
    also have "\<dots> \<le> 1085 * 2 ^ 52 + 2 ^ 53" using mult_right_mono [OF k, of "2 ^ 52"] q by simp
    finally show ?thesis by simp
  qed
qed

lemma uint_not_nan: "\<not> is_nan (f64_of_uint n)"
proof -
  have "unat n < 2 ^ 64" using unsigned_less [of n] by simp
  from f64_bits_bound [OF this] have b: "f64_bits (unat n) \<le> 1087 * 2 ^ 52" .
  then have "unat (f64_of_uint n) = f64_bits (unat n)"
    by (simp add: f64_of_uint_def unat_of_nat)
  then have "f64_of_uint n \<le> 0x7FF0000000000000"
    using b by (simp add: word_le_nat_alt)
  moreover have "f64_of_uint n AND 0x7FFFFFFFFFFFFFFF \<le> f64_of_uint n" by (rule word_and_le2)
  ultimately show ?thesis by (simp add: is_nan_def) 
qed

section \<open>Labels\<close>

datatype label = Label (l_name: string) (l_value: string)

text \<open>Labels are ordered by name first, which is how the remote write protocol orders them.\<close>

instantiation label :: linorder
begin

definition less_eq_label :: "label \<Rightarrow> label \<Rightarrow> bool" where
  "less_eq_label a b \<longleftrightarrow> l_name a < l_name b \<or> (l_name a = l_name b \<and> l_value a \<le> l_value b)"

definition less_label :: "label \<Rightarrow> label \<Rightarrow> bool" where
  "less_label a b \<longleftrightarrow> l_name a < l_name b \<or> (l_name a = l_name b \<and> l_value a < l_value b)"

instance
proof
  fix x y z :: label
  show "(x < y) = (x \<le> y \<and> \<not> y \<le> x)" by (auto simp: less_label_def less_eq_label_def)
  show "x \<le> x" by (simp add: less_eq_label_def)
  show "x \<le> y \<Longrightarrow> y \<le> z \<Longrightarrow> x \<le> z" by (auto simp: less_eq_label_def)
  show "x \<le> y \<Longrightarrow> y \<le> x \<Longrightarrow> x = y" by (auto simp: less_eq_label_def intro: label.expand)
  show "x \<le> y \<or> y \<le> x" by (auto simp: less_eq_label_def)
qed

end

text \<open>
  \<open>NewLabels\<close>, for the pairs of the map in the order the iteration meets them. The slice is sorted by
  name; the names of a map are distinct, so every sorting algorithm gives the same result.
\<close>

definition new_labels :: "(string \<times> string) list \<Rightarrow> label list" where
  "new_labels m = sort_key l_name (map (\<lambda>(k, v). Label k v) m)"

definition add_label :: "label list \<Rightarrow> label \<Rightarrow> label list" where
  "add_label out l = (if l_name l \<in> l_name ` set out then out else out @ [l])"

definition add_dto_label :: "label list \<Rightarrow> string \<times> string \<Rightarrow> label list" where
  "add_dto_label out p = (if fst p = [] then out else add_label out (Label (fst p) (snd p)))"

definition merge_labels ::
    "string \<Rightarrow> (string \<times> string) list \<Rightarrow> label list \<Rightarrow> string \<Rightarrow> string \<Rightarrow> label list" where
  "merge_labels name dto_labels ext extra_name extra_val =
     (let out0 = [Label ''__name__'' name];
          out1 = foldl add_dto_label out0 dto_labels;
          out2 = (if extra_name \<noteq> [] then add_label out1 (Label extra_name extra_val) else out1);
          out3 = foldl add_label out2 ext
      in sort_key l_name out3)"

section \<open>Metric families\<close>

datatype metric_type = MT_COUNTER | MT_GAUGE | MT_UNTYPED | MT_HISTOGRAM | MT_SUMMARY | MT_OTHER

record bucket =
  bu_upper_bound :: float64
  bu_cumulative_count :: "64 word"

record histogram =
  hi_sample_count :: "64 word"
  hi_sample_sum :: float64
  hi_buckets :: "bucket list"

record quantile =
  qu_quantile :: float64
  qu_value :: float64

record summary =
  su_sample_count :: "64 word"
  su_sample_sum :: float64
  su_quantiles :: "quantile list"

record dto_metric =
  dm_labels :: "(string \<times> string) list"
  dm_counter :: "float64 option"
  dm_gauge :: "float64 option"
  dm_untyped :: "float64 option"
  dm_histogram :: "histogram option"
  dm_summary :: "summary option"

record metric_family =
  mf_name :: string
  mf_type :: metric_type
  mf_metrics :: "dto_metric list"

record series =
  ts_labels :: "label list"
  ts_value :: float64
  ts_timestamp :: int

text \<open>The getters of the client model: the zero value of an absent part.\<close>

definition get_value :: "float64 option \<Rightarrow> float64" where
  "get_value v = (case v of Some x \<Rightarrow> x | None \<Rightarrow> 0)"

section \<open>Conversion\<close>

definition build_series :: "string \<Rightarrow> (string \<times> string) list \<Rightarrow> label list \<Rightarrow> float64 \<Rightarrow> int \<Rightarrow> series" where
  "build_series name dto_labels ext value ts =
     \<lparr>ts_labels = merge_labels name dto_labels ext [] [], ts_value = value, ts_timestamp = ts\<rparr>"

definition build_bucket_series ::
    "string \<Rightarrow> (string \<times> string) list \<Rightarrow> label list \<Rightarrow> string \<Rightarrow> float64 \<Rightarrow> int \<Rightarrow> series" where
  "build_bucket_series name dto_labels ext le value ts =
     \<lparr>ts_labels = merge_labels name dto_labels ext ''le'' le, ts_value = value, ts_timestamp = ts\<rparr>"

definition build_quantile_series ::
    "string \<Rightarrow> (string \<times> string) list \<Rightarrow> label list \<Rightarrow> string \<Rightarrow> float64 \<Rightarrow> int \<Rightarrow> series" where
  "build_quantile_series name dto_labels ext quantile value ts =
     \<lparr>ts_labels = merge_labels name dto_labels ext ''quantile'' quantile, ts_value = value, ts_timestamp = ts\<rparr>"

definition scalar_series :: "string \<Rightarrow> label list \<Rightarrow> int \<Rightarrow> (dto_metric \<Rightarrow> float64 option) \<Rightarrow> dto_metric \<Rightarrow> series list" where
  "scalar_series name ext ts sel m =
     (let v = get_value (sel m) in if is_nan v then [] else [build_series name (dm_labels m) ext v ts])"

definition sum_series :: "string \<Rightarrow> label list \<Rightarrow> int \<Rightarrow> dto_metric \<Rightarrow> float64 \<Rightarrow> series list" where
  "sum_series name ext ts m s =
     (if is_nan s then [] else [build_series (name @ ''_sum'') (dm_labels m) ext s ts])"

definition bucket_le :: "(float64 \<Rightarrow> string) \<Rightarrow> float64 \<Rightarrow> string" where
  "bucket_le fmt b = (if is_pos_inf b then ''+Inf'' else fmt b)"

definition histogram_series ::
    "(float64 \<Rightarrow> string) \<Rightarrow> string \<Rightarrow> label list \<Rightarrow> int \<Rightarrow> dto_metric \<Rightarrow> series list" where
  "histogram_series fmt name ext ts m =
     (case dm_histogram m of
        None \<Rightarrow> []
      | Some h \<Rightarrow>
          [build_series (name @ ''_count'') (dm_labels m) ext (f64_of_uint (hi_sample_count h)) ts]
          @ sum_series name ext ts m (hi_sample_sum h)
          @ map (\<lambda>b. build_bucket_series (name @ ''_bucket'') (dm_labels m) ext (bucket_le fmt (bu_upper_bound b))
                       (f64_of_uint (bu_cumulative_count b)) ts) (hi_buckets h)
          @ (if list_ex (\<lambda>b. is_pos_inf (bu_upper_bound b)) (hi_buckets h) then []
             else [build_bucket_series (name @ ''_bucket'') (dm_labels m) ext ''+Inf''
                     (f64_of_uint (hi_sample_count h)) ts]))"

definition summary_series ::
    "(float64 \<Rightarrow> string) \<Rightarrow> string \<Rightarrow> label list \<Rightarrow> int \<Rightarrow> dto_metric \<Rightarrow> series list" where
  "summary_series fmt name ext ts m =
     (case dm_summary m of
        None \<Rightarrow> []
      | Some s \<Rightarrow>
          [build_series (name @ ''_count'') (dm_labels m) ext (f64_of_uint (su_sample_count s)) ts]
          @ sum_series name ext ts m (su_sample_sum s)
          @ concat (map (\<lambda>q. if is_nan (qu_value q) then []
               else [build_quantile_series name (dm_labels m) ext (fmt (qu_quantile q)) (qu_value q) ts])
             (su_quantiles s)))"

definition family_series ::
    "(float64 \<Rightarrow> string) \<Rightarrow> label list \<Rightarrow> int \<Rightarrow> metric_family \<Rightarrow> series list" where
  "family_series fmt ext ts mf =
     (let name = mf_name mf in
      if name = [] then []
      else case mf_type mf of
        MT_COUNTER \<Rightarrow> concat (map (scalar_series name ext ts dm_counter) (mf_metrics mf))
      | MT_GAUGE \<Rightarrow> concat (map (scalar_series name ext ts dm_gauge) (mf_metrics mf))
      | MT_UNTYPED \<Rightarrow> concat (map (scalar_series name ext ts dm_untyped) (mf_metrics mf))
      | MT_HISTOGRAM \<Rightarrow> concat (map (histogram_series fmt name ext ts) (mf_metrics mf))
      | MT_SUMMARY \<Rightarrow> concat (map (summary_series fmt name ext ts) (mf_metrics mf))
      | MT_OTHER \<Rightarrow> [])"

text \<open>\<open>Time.UnixMilli\<close>: milliseconds since 1970 of an instant, which counts from the year 1.\<close>

definition unix_milli :: "instant \<Rightarrow> int" where
  "unix_milli t = (t - 62135596800000000000) div 1000000"

text \<open>\<open>Gather\<close>; \<open>None\<close> is the error of the gatherer, which is returned wrapped.\<close>

definition gather :: "(float64 \<Rightarrow> string) \<Rightarrow> metric_family list option \<Rightarrow> label list \<Rightarrow> instant \<Rightarrow> series list option" where
  "gather fmt families ext now =
     (case families of
        None \<Rightarrow> None
      | Some mfs \<Rightarrow> Some (concat (map (family_series fmt ext (unix_milli now)) mfs)))"

section \<open>Merged labels\<close>

definition label_names :: "label list \<Rightarrow> string list" where
  "label_names ls = map l_name ls"

text \<open>The value of a name in a label set, the first occurrence counting.\<close>

definition label_value :: "label list \<Rightarrow> string \<Rightarrow> string option" where
  "label_value ls n = map_option l_value (find (\<lambda>l. l_name l = n) ls)"

lemma label_value_simps [simp]:
  "label_value [] n = None"
  "label_value (l # ls) n = (if l_name l = n then Some (l_value l) else label_value ls n)"
  by (simp_all add: label_value_def)

lemma label_value_append:
  "label_value (xs @ ys) n = (case label_value xs n of Some v \<Rightarrow> Some v | None \<Rightarrow> label_value ys n)"
  by (induction xs) auto

lemma label_value_none: "label_value xs n = None \<longleftrightarrow> n \<notin> l_name ` set xs"
  by (induction xs) auto

lemma add_label_value: "label_value (add_label out l) n = (case label_value out n of Some v \<Rightarrow> Some v
    | None \<Rightarrow> if l_name l = n then Some (l_value l) else None)"
proof (cases "l_name l \<in> l_name ` set out")
  case True
  then have "label_value out (l_name l) \<noteq> None" using label_value_none [of out "l_name l"] by simp
  then show ?thesis using True by (auto simp: add_label_def split: option.split)
next
  case False
  then show ?thesis by (simp add: add_label_def label_value_append split: option.split)
qed

lemma add_label_distinct: "distinct (label_names out) \<Longrightarrow> distinct (label_names (add_label out l))"
  by (simp add: add_label_def label_names_def)

lemma add_labels_value:
  "label_value (foldl add_label out ls) n = (case label_value out n of Some v \<Rightarrow> Some v | None \<Rightarrow> label_value ls n)"
  by (induction ls arbitrary: out) (simp_all add: add_label_value split: option.split)

lemma add_labels_distinct: "distinct (label_names out) \<Longrightarrow> distinct (label_names (foldl add_label out ls))"
  by (induction ls arbitrary: out) (simp_all add: add_label_distinct)

definition dto_list :: "(string \<times> string) list \<Rightarrow> label list" where
  "dto_list dto = map (\<lambda>(n, v). Label n v) (filter (\<lambda>(n, v). n \<noteq> []) dto)"

lemma add_dto_labels: "foldl add_dto_label out dto = foldl add_label out (dto_list dto)"
  by (induction dto arbitrary: out) (auto simp: add_dto_label_def dto_list_def)

text \<open>The unsorted merge, as one sequence of labels of which the first of each name is kept.\<close>

definition label_sources :: "string \<Rightarrow> (string \<times> string) list \<Rightarrow> label list \<Rightarrow> string \<Rightarrow> string \<Rightarrow> label list" where
  "label_sources name dto ext en ev =
     [Label ''__name__'' name] @ dto_list dto @ (if en \<noteq> [] then [Label en ev] else []) @ ext"

lemma merge_sources:
  "merge_labels name dto ext en ev = sort_key l_name (foldl add_label [] (label_sources name dto ext en ev))"
  by (simp add: merge_labels_def label_sources_def add_dto_labels add_label_def Let_def)

lemma find_distinct:
  "distinct (map l_name xs) \<Longrightarrow> find (\<lambda>l. l_name l = n) xs = Some l \<longleftrightarrow> l \<in> set xs \<and> l_name l = n"
  by (induction xs) (auto simp: image_iff)

lemma label_value_mset:
  assumes "mset xs = mset ys" "distinct (map l_name xs)"
  shows "label_value xs n = label_value ys n"
proof -
  have d: "distinct (map l_name ys)" using assms by (metis mset_eq_imp_distinct_iff mset_map)
  have s: "set xs = set ys" using assms(1) by (metis set_mset_mset)
  have "find (\<lambda>l. l_name l = n) xs = find (\<lambda>l. l_name l = n) ys"
    using find_distinct [OF assms(2), of n] find_distinct [OF d, of n] s
    by (metis not_None_eq)
  then show ?thesis by (simp add: label_value_def)
qed

lemma sorted_strict: "sorted (map l_name ls) \<Longrightarrow> distinct (map l_name ls) \<Longrightarrow> sorted_wrt (<) ls"
  by (induction ls) (auto simp: less_label_def order.strict_iff_order)

text \<open>Label merging produces what the protocol requires: the labels are in strictly ascending order,
  so no name occurs twice, and each name has the value of its first source: the metric name for
  \<^verbatim>\<open>__name__\<close>, else the metric's own label, else the bucket or quantile label, else the external
  label. The output is thereby determined, whatever order the inputs come in.\<close>

theorem merged_labels_sorted_with_precedence:
  "sorted_wrt (<) (merge_labels name dto ext en ev) \<and> distinct (label_names (merge_labels name dto ext en ev)) \<and>
   (\<forall>n. label_value (merge_labels name dto ext en ev) n =
      (if n = ''__name__'' then Some name
       else case label_value (dto_list dto) n of
         Some v \<Rightarrow> Some v
       | None \<Rightarrow> if en \<noteq> [] \<and> n = en then Some ev else label_value ext n))"
proof -
  let ?u = "foldl add_label [] (label_sources name dto ext en ev)"
  have d: "distinct (map l_name ?u)"
    using add_labels_distinct [of "[]" "label_sources name dto ext en ev"] by (simp add: label_names_def)
  then have ds: "distinct (map l_name (sort_key l_name ?u))" by (metis distinct_map distinct_sort set_sort)
  have "label_value (sort_key l_name ?u) n = label_value ?u n" for n
    by (rule label_value_mset [OF _ ds]) simp
  moreover have "label_value ?u n = label_value (label_sources name dto ext en ev) n" for n
    by (simp add: add_labels_value)
  moreover have "label_value (label_sources name dto ext en ev) n =
      (if n = ''__name__'' then Some name
       else case label_value (dto_list dto) n of
         Some v \<Rightarrow> Some v
       | None \<Rightarrow> if en \<noteq> [] \<and> n = en then Some ev else label_value ext n)" for n
    unfolding label_sources_def label_value_append
    by (simp split: option.split)
  moreover have "sorted_wrt (<) (sort_key l_name ?u)"
    by (rule sorted_strict [OF sorted_sort_key ds])
  ultimately show ?thesis using ds by (simp add: merge_sources label_names_def)
qed

section \<open>Gathered series\<close>

lemma merge_labels_facts:
  "sorted_wrt (<) (merge_labels name dto ext en ev)"
  "label_value (merge_labels name dto ext en ev) ''__name__'' = Some name"
  "en \<noteq> [] \<Longrightarrow> en \<noteq> ''__name__'' \<Longrightarrow> label_value (dto_list dto) en = None \<Longrightarrow>
     label_value (merge_labels name dto ext en ev) en = Some ev"
proof -
  have d: "distinct (map l_name (foldl add_label [] (label_sources name dto ext en ev)))"
    using add_labels_distinct [of "[]" "label_sources name dto ext en ev"] by (simp add: label_names_def)
  then have ds: "distinct (map l_name (merge_labels name dto ext en ev))"
    unfolding merge_sources by (metis distinct_map distinct_sort set_sort)
  have v: "label_value (merge_labels name dto ext en ev) n = label_value (label_sources name dto ext en ev) n" for n
  proof -
    have "label_value (merge_labels name dto ext en ev) n = label_value (foldl add_label [] (label_sources name dto ext en ev)) n"
      by (rule label_value_mset [OF _ ds]) (simp add: merge_sources)
    then show ?thesis by (simp add: add_labels_value)
  qed
  show "sorted_wrt (<) (merge_labels name dto ext en ev)"
    using sorted_strict [OF _ ds] sorted_sort_key unfolding merge_sources by blast
  show "label_value (merge_labels name dto ext en ev) ''__name__'' = Some name"
    by (simp add: v label_sources_def)
  show "en \<noteq> [] \<Longrightarrow> en \<noteq> ''__name__'' \<Longrightarrow> label_value (dto_list dto) en = None \<Longrightarrow>
     label_value (merge_labels name dto ext en ev) en = Some ev"
    by (simp add: v label_sources_def label_value_append)
qed

text \<open>A series the receiver accepts.\<close>

definition series_ok :: "int \<Rightarrow> series \<Rightarrow> bool" where
  "series_ok ts s \<longleftrightarrow> sorted_wrt (<) (ts_labels s) \<and> ts_timestamp s = ts \<and> \<not> is_nan (ts_value s)
     \<and> (\<exists>n. n \<noteq> [] \<and> label_value (ts_labels s) ''__name__'' = Some n)"

lemma build_ok:
  "n \<noteq> [] \<Longrightarrow> \<not> is_nan v \<Longrightarrow> series_ok ts (build_series n ls ext v ts)"
  "n \<noteq> [] \<Longrightarrow> \<not> is_nan v \<Longrightarrow> series_ok ts (build_bucket_series n ls ext le v ts)"
  "n \<noteq> [] \<Longrightarrow> \<not> is_nan v \<Longrightarrow> series_ok ts (build_quantile_series n ls ext le v ts)"
  by (simp_all add: series_ok_def build_series_def build_bucket_series_def build_quantile_series_def merge_labels_facts)

lemma scalar_series_ok: "n \<noteq> [] \<Longrightarrow> list_all (series_ok ts) (scalar_series n ext ts sel m)"
  by (simp add: scalar_series_def build_ok Let_def)

lemma sum_series_ok: "n \<noteq> [] \<Longrightarrow> list_all (series_ok ts) (sum_series n ext ts m v)"
  by (simp add: sum_series_def build_ok)

lemma histogram_series_ok: "n \<noteq> [] \<Longrightarrow> list_all (series_ok ts) (histogram_series fmt n ext ts m)"
  using sum_series_ok
  by (auto simp: histogram_series_def build_ok uint_not_nan list_all_iff split: option.split)

lemma summary_series_ok: "n \<noteq> [] \<Longrightarrow> list_all (series_ok ts) (summary_series fmt n ext ts m)"
  using sum_series_ok
  by (auto simp: summary_series_def build_ok uint_not_nan list_all_iff split: option.split if_splits)

lemma concat_ok: "(\<And>m. list_all P (f m)) \<Longrightarrow> list_all P (concat (map f ms))"
  by (induction ms) simp_all

lemma family_series_ok: "list_all (series_ok ts) (family_series fmt ext ts mf)"
proof (cases "mf_name mf = []")
  case False
  then show ?thesis
    by (cases "mf_type mf")
      (simp_all add: family_series_def Let_def concat_ok scalar_series_ok histogram_series_ok summary_series_ok)
qed (simp add: family_series_def)

text \<open>C40. Whatever the registry holds, every series that is gathered is one the receiver accepts: labels in
  strictly ascending order, a non-empty metric name, a value that is not NaN (also where an unsigned
  count was converted) and the timestamp of the gathering.\<close>

theorem gathered_series_acceptable:
  assumes "gather fmt families ext now = Some out" "s \<in> set out"
  shows "series_ok (unix_milli now) s"
  using assms family_series_ok
  by (auto simp: gather_def list_all_iff split: option.splits)

definition demo_histogram :: dto_metric where
  "demo_histogram = \<lparr>dm_labels = [(''model'', ''m'')], dm_counter = None, dm_gauge = None, dm_untyped = None,
     dm_histogram = Some \<lparr>hi_sample_count = 3, hi_sample_sum = 0x7FF8000000000001, hi_buckets = []\<rparr>, dm_summary = None\<rparr>"

theorem gathered_series_acceptable_witness:
  "let out = gather (\<lambda>_. []) (Some [\<lparr>mf_name = ''h'', mf_type = MT_HISTOGRAM, mf_metrics = [demo_histogram]\<rparr>]) [] 0 in
     length (the out) = 2 \<and> series_ok (unix_milli 0) (hd (the out))"
proof -
  let ?fs = "[\<lparr>mf_name = ''h'', mf_type = MT_HISTOGRAM, mf_metrics = [demo_histogram]\<rparr>]"
  obtain out where o: "gather (\<lambda>_. []) (Some ?fs) [] 0 = Some out" by (simp add: gather_def)
  have n: "is_nan 0x7FF8000000000001" by (simp add: is_nan_def)
  have l: "length out = 2"
    using o n by (auto simp: gather_def family_series_def histogram_series_def demo_histogram_def sum_series_def)
  then have "hd out \<in> set out" by (cases out) simp_all
  from gathered_series_acceptable [OF o this] o l show ?thesis by simp
qed

text \<open>The bucket series of a histogram with the bound \<^verbatim>\<open>+Inf\<close>.\<close>

definition inf_bucket :: "string \<Rightarrow> series \<Rightarrow> bool" where
  "inf_bucket name s \<longleftrightarrow> label_value (ts_labels s) ''__name__'' = Some (name @ ''_bucket'')
     \<and> label_value (ts_labels s) ''le'' = Some ''+Inf''"

lemma inf_bucket_builds:
  "\<not> inf_bucket name (build_series (name @ ''_count'') ls ext v ts)"
  "\<not> inf_bucket name (build_series (name @ ''_sum'') ls ext v ts)"
  "label_value (dto_list ls) ''le'' = None \<Longrightarrow>
     inf_bucket name (build_bucket_series (name @ ''_bucket'') ls ext le v ts) = (le = ''+Inf'')"
  by (simp_all add: inf_bucket_def build_series_def build_bucket_series_def merge_labels_facts)

text \<open>Every histogram is sent with its \<^verbatim>\<open>+Inf\<close> bucket: if its bounds contain an infinite one, the bucket
  of that bound, and otherwise exactly one added bucket, which counts all the samples. The format of
  a finite bound never reads \<^verbatim>\<open>+Inf\<close>, which is documented of the formatting function, and the metric
  has no \<^verbatim>\<open>le\<close> label of its own.\<close>

theorem histogram_has_inf_bucket:
  assumes "dm_histogram m = Some h" "\<And>x. \<not> is_pos_inf x \<Longrightarrow> fmt x \<noteq> ''+Inf''"
    "''le'' \<notin> fst ` set (dm_labels m)"
  shows "map ts_value (filter (inf_bucket name) (histogram_series fmt name ext ts m)) =
    (if list_ex (\<lambda>b. is_pos_inf (bu_upper_bound b)) (hi_buckets h)
     then map (f64_of_uint \<circ> bu_cumulative_count) (filter (\<lambda>b. is_pos_inf (bu_upper_bound b)) (hi_buckets h))
     else [f64_of_uint (hi_sample_count h)])"
proof -
  have l: "label_value (dto_list (dm_labels m)) ''le'' = None"
    using assms(3) by (force simp: label_value_none dto_list_def)
  have le: "(bucket_le fmt b = ''+Inf'') = is_pos_inf b" for b
    using assms(2) by (auto simp: bucket_le_def)
  have b: "ts_value (build_bucket_series n ls e x v t) = v" for n ls e x v t
    by (simp add: build_bucket_series_def)
  have s: "filter (inf_bucket name) (sum_series name ext ts m v) = []" for v
    by (simp add: sum_series_def inf_bucket_builds)
  have bs: "map ts_value (filter (inf_bucket name) (map (\<lambda>b. build_bucket_series (name @ ''_bucket'') (dm_labels m) ext
        (bucket_le fmt (bu_upper_bound b)) (f64_of_uint (bu_cumulative_count b)) ts) bs))
      = map (f64_of_uint \<circ> bu_cumulative_count) (filter (\<lambda>b. is_pos_inf (bu_upper_bound b)) bs)" for bs
    by (induction bs) (simp_all add: inf_bucket_builds(3) [OF l] le b)
  have nf: "\<not> list_ex (\<lambda>b. is_pos_inf (bu_upper_bound b)) bs \<Longrightarrow> filter (\<lambda>b. is_pos_inf (bu_upper_bound b)) bs = []" for bs
    by (induction bs) auto
  show ?thesis
    using assms(1) nf [of "hi_buckets h"]
    by (simp add: histogram_series_def inf_bucket_builds(1,2) inf_bucket_builds(3) [OF l] s bs b del: filter_map)
qed

theorem histogram_has_inf_bucket_witness:
  "map ts_value (filter (inf_bucket ''h'') (histogram_series (\<lambda>_. []) ''h'' [] 0 demo_histogram)) = [f64_of_uint 3]"
proof -
  have "dm_histogram demo_histogram = Some \<lparr>hi_sample_count = 3, hi_sample_sum = 0x7FF8000000000001, hi_buckets = []\<rparr>"
    "''le'' \<notin> fst ` set (dm_labels demo_histogram)" by (simp_all add: demo_histogram_def)
  from histogram_has_inf_bucket [OF this(1) _ this(2), of "\<lambda>_. []" "''h''" "[]" 0] show ?thesis by simp
qed

text \<open>The labels of the configuration do not depend on the iteration order of the map.\<close>

lemma new_labels_order:
  assumes "mset m = mset m'" "distinct (map fst m)"
  shows "new_labels m = new_labels m'"
proof -
  have d: "inj_on l_name (set (map (\<lambda>(k, v). Label k v) m))"
    using assms(2) by (auto simp: inj_on_def distinct_map dest: eq_key_imp_eq_value [OF assms(2)])
  have "sort_key l_name (map (\<lambda>(k, v). Label k v) m) = sort_key l_name (map (\<lambda>(k, v). Label k v) m')"
    by (rule sort_key_inj_key_eq [OF _ d]) (simp_all add: assms(1))
  then show ?thesis by (simp add: new_labels_def)
qed

end
