(* ===== verification/Pusher.thy ===== *)
theory Pusher
  imports RWQueue Sender Convert
begin

text \<open>
  \<^verbatim>\<open>internal/remotewrite/pusher.go\<close> and \<open>Sender.Run\<close> of \<^verbatim>\<open>sender.go\<close>: the coordinator that flushes
  the gathered metrics to the queue of every sender, the senders' consumer loops, and the shutdown
  with its bounded drain. The goroutines interleave: the state holds the control point of
  \<open>Pusher.Run\<close> and, per sender, its queue, breaker and the batch it is delivering; one step of the
  inductive relation \<open>push_step\<close> is one operation of one goroutine that the others can observe. The
  observer calls are logged per sender. \<open>process_batch = None\<close> (a panic in the random draw) has no
  step; the progress theorem excludes it by its condition on the backoff.
\<close>

section \<open>The pusher\<close>

record pusher =
  pu_interval :: duration
  pu_has_gatherer :: bool
  pu_ext :: "label list"
  pu_drain_timeout :: duration

definition new_pusher :: "duration \<Rightarrow> bool \<Rightarrow> label list \<Rightarrow> duration \<Rightarrow> pusher" where
  "new_pusher interval has_gatherer ext drain_timeout =
     \<lparr>pu_interval = (if interval \<le> 0 then 10 * second else interval),
      pu_has_gatherer = has_gatherer,
      pu_ext = ext,
      pu_drain_timeout = (if drain_timeout \<le> 0 then 5 * second else drain_timeout)\<rparr>"

text \<open>What one flush enqueues on every sender; the empty batch is not enqueued.\<close>

definition flush_batch ::
    "(float64 \<Rightarrow> string) \<Rightarrow> pusher \<Rightarrow> nat \<Rightarrow> metric_family list option \<Rightarrow> instant \<Rightarrow> series list" where
  "flush_batch fmt p n_senders families now =
     (if \<not> pu_has_gatherer p \<or> n_senders = 0 then []
      else case gather fmt families (pu_ext p) now of
        None \<Rightarrow> []
      | Some batch \<Rightarrow> batch)"

section \<open>States of a run\<close>

record sender_run =
  sr_cfg :: endpoint_config
  sr_queue :: "series rwq"
  sr_breaker :: breaker
  sr_current :: "series list option"
  sr_returned :: bool
  sr_offered :: "series list list"
  sr_qlog :: "qevent list"
  sr_slog :: "send_event list"

text \<open>
  Where \<open>Pusher.Run\<close> is: about to flush, enqueueing a batch on sender \<open>i\<close>, waiting in its select,
  closing the queue of sender \<open>i\<close>, waiting for the drain, waiting after the cancellation, returned.
\<close>

datatype pusher_pc =
    AtFlush
  | AtEnqueue "series list" nat
  | AtSelect
  | AtClose nat
  | AtDrain
  | AtCancelled
  | AtReturned

record push_state =
  ps_pc :: pusher_pc
  ps_cancelled :: bool
  ps_senders :: "sender_run list"

definition new_sender_run :: "endpoint_config \<Rightarrow> int \<Rightarrow> breaker \<Rightarrow> sender_run" where
  "new_sender_run cfg capacity cb =
     (let (q, es) = new_queue capacity
      in \<lparr>sr_cfg = cfg, sr_queue = q, sr_breaker = cb, sr_current = None,
          sr_returned = False, sr_offered = [], sr_qlog = es, sr_slog = []\<rparr>)"

definition run_start :: "sender_run list \<Rightarrow> push_state" where
  "run_start ss = \<lparr>ps_pc = AtFlush, ps_cancelled = False, ps_senders = ss\<rparr>"

section \<open>Operations\<close>

definition sender_enqueue :: "series list \<Rightarrow> sender_run \<Rightarrow> sender_run" where
  "sender_enqueue batch s =
     s\<lparr>sr_queue := fst (q_enqueue (sr_queue s) batch),
       sr_offered := sr_offered s @ [batch],
       sr_qlog := sr_qlog s @ snd (q_enqueue (sr_queue s) batch)\<rparr>"

definition sender_close :: "sender_run \<Rightarrow> sender_run" where
  "sender_close s = s\<lparr>sr_queue := q_close (sr_queue s)\<rparr>"

text \<open>The head of the loop of \<open>Sender.Run\<close>: \<open>None\<close> while \<open>Dequeue\<close> blocks.\<close>

definition sender_dequeue :: "bool \<Rightarrow> sender_run \<Rightarrow> sender_run option" where
  "sender_dequeue cancelled s =
     (case q_dequeue (sr_queue s) cancelled of
        (q, DeqBatch b, es) \<Rightarrow>
          Some (s\<lparr>sr_queue := q, sr_current := Some b, sr_qlog := sr_qlog s @ es\<rparr>)
      | (q, DeqClosed, es) \<Rightarrow> Some (s\<lparr>sr_returned := True\<rparr>)
      | (q, DeqCtxErr, es) \<Rightarrow> Some (s\<lparr>sr_returned := True\<rparr>)
      | (q, DeqWait, es) \<Rightarrow> None)"

definition sender_deliver ::
    "batch_ctx \<Rightarrow> instant \<Rightarrow> goerr option \<Rightarrow> instant \<Rightarrow> sender_run \<Rightarrow> sender_run option" where
  "sender_deliver bx allow_now enc_err start s =
     map_option (\<lambda>(cb, es). s\<lparr>sr_breaker := cb, sr_current := None, sr_slog := sr_slog s @ es\<rparr>)
       (process_batch bx allow_now enc_err start (sr_breaker s))"

text \<open>
  The context of a delivery: the sender's configuration and batch; a context that is not cancelled
  does not end a wait.
\<close>

definition delivery_ok :: "bool \<Rightarrow> sender_run \<Rightarrow> series list \<Rightarrow> batch_ctx \<Rightarrow> bool" where
  "delivery_ok cancelled s batch bx \<longleftrightarrow>
     bx_cfg bx = sr_cfg s \<and> bx_len bx = length batch
     \<and> (cancelled \<or> (\<forall>i. \<not> ae_ctx_done (bx_env bx i)))"

section \<open>Steps\<close>

definition set_sender :: "push_state \<Rightarrow> nat \<Rightarrow> sender_run \<Rightarrow> push_state" where
  "set_sender st i s = st\<lparr>ps_senders := (ps_senders st)[i := s]\<rparr>"

inductive push_step :: "(float64 \<Rightarrow> string) \<Rightarrow> pusher \<Rightarrow> push_state \<Rightarrow> push_state \<Rightarrow> bool"
  for fmt :: "float64 \<Rightarrow> string" and p :: pusher where
  flush_empty: "ps_pc st = AtFlush \<Longrightarrow> flush_batch fmt p (length (ps_senders st)) families now = [] \<Longrightarrow>
    push_step fmt p st (st\<lparr>ps_pc := AtSelect\<rparr>)"
| flush_some: "ps_pc st = AtFlush \<Longrightarrow> flush_batch fmt p (length (ps_senders st)) families now = batch \<Longrightarrow>
    batch \<noteq> [] \<Longrightarrow> push_step fmt p st (st\<lparr>ps_pc := AtEnqueue batch 0\<rparr>)"
| enqueue: "ps_pc st = AtEnqueue batch i \<Longrightarrow> i < length (ps_senders st) \<Longrightarrow>
    push_step fmt p st (set_sender (st\<lparr>ps_pc := AtEnqueue batch (Suc i)\<rparr>) i
      (sender_enqueue batch (ps_senders st ! i)))"
| flushed: "ps_pc st = AtEnqueue batch (length (ps_senders st)) \<Longrightarrow>
    push_step fmt p st (st\<lparr>ps_pc := AtSelect\<rparr>)"
| tick: "ps_pc st = AtSelect \<Longrightarrow> push_step fmt p st (st\<lparr>ps_pc := AtFlush\<rparr>)"
| ctx_done: "ps_pc st = AtSelect \<Longrightarrow> push_step fmt p st (st\<lparr>ps_pc := AtClose 0\<rparr>)"
| close: "ps_pc st = AtClose i \<Longrightarrow> i < length (ps_senders st) \<Longrightarrow>
    push_step fmt p st (set_sender (st\<lparr>ps_pc := AtClose (Suc i)\<rparr>) i
      (sender_close (ps_senders st ! i)))"
| closed: "ps_pc st = AtClose (length (ps_senders st)) \<Longrightarrow>
    push_step fmt p st (st\<lparr>ps_pc := AtDrain\<rparr>)"
| drained: "ps_pc st = AtDrain \<or> ps_pc st = AtCancelled \<Longrightarrow> list_all sr_returned (ps_senders st) \<Longrightarrow>
    push_step fmt p st (st\<lparr>ps_pc := AtReturned\<rparr>)"
| timeout: "ps_pc st = AtDrain \<Longrightarrow>
    push_step fmt p st (st\<lparr>ps_pc := AtCancelled, ps_cancelled := True\<rparr>)"
| dequeue: "i < length (ps_senders st) \<Longrightarrow> \<not> sr_returned (ps_senders st ! i) \<Longrightarrow>
    sr_current (ps_senders st ! i) = None \<Longrightarrow>
    sender_dequeue (ps_cancelled st) (ps_senders st ! i) = Some s' \<Longrightarrow>
    push_step fmt p st (set_sender st i s')"
| deliver: "i < length (ps_senders st) \<Longrightarrow> sr_current (ps_senders st ! i) = Some batch \<Longrightarrow>
    delivery_ok (ps_cancelled st) (ps_senders st ! i) batch bx \<Longrightarrow>
    sender_deliver bx allow_now enc_err start (ps_senders st ! i) = Some s' \<Longrightarrow>
    push_step fmt p st (set_sender st i s')"

inductive push_steps :: "(float64 \<Rightarrow> string) \<Rightarrow> pusher \<Rightarrow> nat \<Rightarrow> push_state \<Rightarrow> push_state \<Rightarrow> bool"
  for fmt :: "float64 \<Rightarrow> string" and p :: pusher where
  none: "push_steps fmt p 0 st st"
| more: "push_step fmt p st st' \<Longrightarrow> push_steps fmt p n st' st'' \<Longrightarrow> push_steps fmt p (Suc n) st st''"

inductive_cases push_stepE: "push_step fmt p st st'"

text \<open>A run starts with open, empty queues, as \<open>Build\<close> constructs them.\<close>

definition fresh_sender :: "sender_run \<Rightarrow> bool" where
  "fresh_sender s \<longleftrightarrow> (\<exists>cfg n cb. s = new_sender_run cfg n cb)"

section \<open>Accounting of samples\<close>

fun dropped_of :: "qevent \<Rightarrow> nat" where
  "dropped_of (OnDrop r n) = n"
| "dropped_of e = 0"

fun settled_of :: "send_event \<Rightarrow> nat" where
  "settled_of (OnSamplesSent n) = n"
| "settled_of (OnSamplesFailed r n) = n"
| "settled_of (OnSamplesDropped r n) = n"
| "settled_of e = 0"

definition queue_dropped :: "qevent list \<Rightarrow> nat" where
  "queue_dropped es = sum_list (map dropped_of es)"

definition settled_samples :: "send_event list \<Rightarrow> nat" where
  "settled_samples es = sum_list (map settled_of es)"

definition samples_in :: "series list list \<Rightarrow> nat" where
  "samples_in bs = sum_list (map length bs)"

definition in_flight :: "sender_run \<Rightarrow> nat" where
  "in_flight s = (case sr_current s of None \<Rightarrow> 0 | Some b \<Rightarrow> length b)"

lemma account_append [simp]:
  "queue_dropped (es @ fs) = queue_dropped es + queue_dropped fs"
  "settled_samples (gs @ hs) = settled_samples gs + settled_samples hs"
  "samples_in (bs @ cs) = samples_in bs + samples_in cs"
  "samples_in [] = 0" "samples_in (b # bs) = length b + samples_in bs"
  "queue_dropped [] = 0" "settled_samples [] = 0"
  "queue_dropped (e # es) = dropped_of e + queue_dropped es"
  "settled_samples (g # gs) = settled_of g + settled_samples gs"
  by (simp_all add: queue_dropped_def settled_samples_def samples_in_def)

lemma settled_terminal: "settled_samples es = settled_samples (filter terminal es)"
proof (induction es)
  case Nil
  then show ?case by simp
next
  case (Cons e es)
  then show ?case by (cases e) simp_all
qed

lemma settled_notes [simp]: "settled_samples (map BreakerNote ns) = 0"
  by (induction ns) simp_all

lemma process_batch_settles:
  assumes "process_batch bx t0 enc_err start cb = Some (cb', es)"
  shows "settled_samples es = bx_len bx"
  using assms
proof (cases rule: process_batch_cases)
  case (looped es' bx')
  note c = looped_ctx [OF looped(5)]
  from retry_loop_verdict [OF looped(3)] obtain v
    where v: "v \<in> verdicts (bx_len bx')" "filter terminal es' = [v]" by blast
  have "settled_of v = bx_len bx" using v(1) c by (auto simp: verdicts_def)
  moreover have "filter terminal es = [v]" using v(2) looped(4) by simp
  ultimately show ?thesis by (simp add: settled_terminal [of es])
qed simp_all

definition sender_ok :: "sender_run \<Rightarrow> bool" where
  "sender_ok s \<longleftrightarrow> q_ok (sr_queue s)
     \<and> samples_in (sr_offered s) = settled_samples (sr_slog s) + queue_dropped (sr_qlog s)
         + samples_in (q_contents (sr_queue s)) + in_flight s
     \<and> (sr_returned s \<longrightarrow> q_closed (sr_queue s) \<and> q_contents (sr_queue s) = [] \<and> sr_current s = None)"

lemma new_sender_ok: "sender_ok (new_sender_run cfg n cb)" "\<not> q_closed (sr_queue (new_sender_run cfg n cb))"
proof -
  obtain q :: "series rwq" and es where e: "new_queue n = (q, es)" by fastforce
  then have "q_ok q" "q_contents q = []" "\<not> q_closed q"
    using new_queue_ok(1,2,4) [of n] by (metis fst_conv)+
  moreover have "queue_dropped es = 0" using e by (auto simp: new_queue_def Let_def)
  ultimately show "sender_ok (new_sender_run cfg n cb)" "\<not> q_closed (sr_queue (new_sender_run cfg n cb))"
    by (simp_all add: sender_ok_def new_sender_run_def in_flight_def e)
qed

lemma sender_enqueue_ok:
  assumes s: "sender_ok s" and op: "\<not> q_closed (sr_queue s)"
  shows "sender_ok (sender_enqueue batch s)"
proof -
  let ?q = "sr_queue s"
  have q: "q_ok ?q" using s by (simp add: sender_ok_def)
  have ne: "q_size ?q = q_cap ?q \<Longrightarrow> q_contents ?q \<noteq> []"
    using q length_q_contents [of ?q] by (auto simp: q_ok_def simp del: length_q_contents)
  have "queue_dropped (snd (q_enqueue ?q batch)) + samples_in (q_contents (fst (q_enqueue ?q batch)))
      = samples_in (q_contents ?q) + length batch"
    unfolding q_enqueue_state(2) [OF q op] using ne
    by (cases "q_contents ?q") (auto simp: q_enqueue_open [OF q op])
  with s op q_enqueue_state [OF q op, of batch] show ?thesis
    by (auto simp: sender_ok_def sender_enqueue_def in_flight_def)
qed

lemma sender_close_ok: "sender_ok s \<Longrightarrow> sender_ok (sender_close s)"
  using ring.shut_law [of "sr_queue s"] by (simp add: sender_ok_def sender_close_def in_flight_def)

lemma sender_dequeue_cases:
  assumes "sender_ok s" "sender_dequeue c s = Some s'"
  obtains
    (taken) b where "0 < q_size (sr_queue s)" "b = hd (q_contents (sr_queue s))"
      "s' = s\<lparr>sr_queue := pop_head (sr_queue s), sr_current := Some b,
              sr_qlog := sr_qlog s @ [OnDequeue (q_size (sr_queue s) - 1)]\<rparr>"
  | (finished) "q_size (sr_queue s) = 0" "q_closed (sr_queue s) \<or> c" "s' = s\<lparr>sr_returned := True\<rparr>"
proof (cases "q_size (sr_queue s) = 0")
  case True
  with assms(2) finished show ?thesis
    by (auto simp: sender_dequeue_def q_dequeue_none split: if_splits)
next
  case False
  with assms taken show ?thesis
    by (auto simp: sender_dequeue_def q_dequeue_batch sender_ok_def)
qed

lemma sender_dequeue_ok:
  assumes s: "sender_ok s" and d: "sender_dequeue c s = Some s'" and r: "sr_current s = None"
    and c: "c \<Longrightarrow> q_closed (sr_queue s)" and n: "\<not> sr_returned s"
  shows "sender_ok s'"
  using s d
proof (cases rule: sender_dequeue_cases)
  case (taken b)
  have q: "q_ok (sr_queue s)" using s by (simp add: sender_ok_def)
  have "q_contents (sr_queue s) \<noteq> []" using taken(1) by (simp flip: length_0_conv)
  then obtain bs where "q_contents (sr_queue s) = b # bs" using taken(2) by (cases "q_contents (sr_queue s)") auto
  with taken s n r q show ?thesis
    by (simp add: sender_ok_def pop_head_ok pop_head_contents in_flight_def)
next
  case finished
  then have "q_contents (sr_queue s) = []" by (simp flip: length_0_conv)
  with finished s r c show ?thesis by (auto simp: sender_ok_def in_flight_def)
qed

lemma sender_deliver_ok:
  assumes "sender_ok s" "sr_current s = Some b" "delivery_ok c s b bx"
    and "sender_deliver bx t0 enc_err start s = Some s'"
  shows "sender_ok s'"
  using assms process_batch_settles [of bx t0 enc_err start "sr_breaker s"]
  by (auto simp: sender_ok_def sender_deliver_def delivery_ok_def in_flight_def)

section \<open>The invariant of a run\<close>

text \<open>Which queues are closed, given the control point of the pusher.\<close>

fun closed_at :: "pusher_pc \<Rightarrow> nat \<Rightarrow> bool" where
  "closed_at (AtClose k) i = (i < k)"
| "closed_at AtDrain i = True"
| "closed_at AtCancelled i = True"
| "closed_at AtReturned i = True"
| "closed_at _ i = False"

definition push_ok :: "push_state \<Rightarrow> bool" where
  "push_ok st \<longleftrightarrow>
     (\<forall>i < length (ps_senders st). sender_ok (ps_senders st ! i)
        \<and> q_closed (sr_queue (ps_senders st ! i)) = closed_at (ps_pc st) i)
     \<and> (ps_cancelled st \<longrightarrow> ps_pc st = AtCancelled \<or> ps_pc st = AtReturned)
     \<and> (ps_pc st = AtReturned \<longrightarrow> list_all sr_returned (ps_senders st))"

lemma push_ok_pc:
  "push_ok st \<Longrightarrow> closed_at pc = closed_at (ps_pc st) \<Longrightarrow> ps_pc st \<noteq> AtCancelled \<Longrightarrow> ps_pc st \<noteq> AtReturned \<Longrightarrow>
   pc \<noteq> AtReturned \<Longrightarrow> push_ok (st\<lparr>ps_pc := pc\<rparr>)"
  by (auto simp: push_ok_def)

lemma push_ok_sender:
  assumes "push_ok st" "i < length (ps_senders st)" "sender_ok s'"
    and "q_closed (sr_queue s') = q_closed (sr_queue (ps_senders st ! i))"
    and "sr_returned (ps_senders st ! i) \<longrightarrow> sr_returned s'"
  shows "push_ok (set_sender st i s')"
  using assms by (auto simp: push_ok_def set_sender_def nth_list_update list_all_length)

lemma closed_at_simps [simp]: "closed_at AtFlush = (\<lambda>_. False)" "closed_at AtSelect = (\<lambda>_. False)"
    "closed_at (AtEnqueue b k) = (\<lambda>_. False)" "closed_at (AtClose 0) = (\<lambda>_. False)"
  by (simp_all add: fun_eq_iff)

lemma sender_dequeue_frame:
  "sender_ok s \<Longrightarrow> sender_dequeue c s = Some s' \<Longrightarrow> q_closed (sr_queue s') = q_closed (sr_queue s)
     \<and> (sr_returned s \<longrightarrow> sr_returned s') \<and> sr_cfg s' = sr_cfg s \<and> sr_offered s' = sr_offered s"
  by (erule (1) sender_dequeue_cases) simp_all

lemma sender_deliver_frame:
  "sender_deliver bx t0 e start s = Some s' \<Longrightarrow> sr_queue s' = sr_queue s
     \<and> sr_returned s' = sr_returned s \<and> sr_cfg s' = sr_cfg s \<and> sr_current s' = None \<and> sr_offered s' = sr_offered s"
  by (auto simp: sender_deliver_def)

lemma push_step_ok: "push_step fmt p st st' \<Longrightarrow> push_ok st \<Longrightarrow> push_ok st'"
proof (induction rule: push_step.induct)
  case (enqueue st batch i)
  let ?s = "ps_senders st ! i"
  have s: "sender_ok ?s" "\<not> q_closed (sr_queue ?s)"
    using enqueue by (auto simp: push_ok_def)
  have "push_ok (st\<lparr>ps_pc := AtEnqueue batch (Suc i)\<rparr>)"
    using enqueue by (intro push_ok_pc) simp_all
  then show ?case
    using enqueue(2) sender_enqueue_ok [OF s] s q_enqueue_state [of "sr_queue ?s"]
    by (intro push_ok_sender) (auto simp: sender_enqueue_def sender_ok_def)
next
  case (close st i)
  then show ?case
    by (auto simp: push_ok_def set_sender_def nth_list_update sender_close_ok less_Suc_eq)
      (auto simp: sender_close_def q_close_def)
next
  case (closed st)
  then show ?case by (auto simp: push_ok_def)
next
  case (dequeue i st s')
  let ?s = "ps_senders st ! i"
  have s: "sender_ok ?s" using dequeue by (simp add: push_ok_def)
  have "ps_cancelled st \<Longrightarrow> q_closed (sr_queue ?s)" using dequeue(1,5) by (auto simp: push_ok_def)
  then have "sender_ok s'" by (rule sender_dequeue_ok [OF s dequeue(4,3) _ dequeue(2)])
  with sender_dequeue_frame [OF s dequeue(4)] show ?case
    using dequeue by (intro push_ok_sender) simp_all
next
  case (deliver i st batch bx allow_now enc_err start s')
  then have s: "sender_ok (ps_senders st ! i)" by (simp add: push_ok_def)
  from sender_deliver_ok [OF s deliver(2-4)] sender_deliver_frame [OF deliver(4)] show ?case
    using deliver by (intro push_ok_sender) simp_all
qed (auto simp: push_ok_def)

lemma push_steps_ok: "push_steps fmt p n st st' \<Longrightarrow> push_ok st \<Longrightarrow> push_ok st'"
  by (induction rule: push_steps.induct) (auto intro: push_step_ok)

lemma run_start_ok: "list_all fresh_sender ss \<Longrightarrow> push_ok (run_start ss)"
  by (auto simp: push_ok_def run_start_def list_all_length fresh_sender_def new_sender_ok)

section \<open>Fan-out\<close>

text \<open>Every sender has been offered the same batches, except while one batch is being handed out.\<close>

fun handed_out :: "pusher_pc \<Rightarrow> nat \<Rightarrow> series list list" where
  "handed_out (AtEnqueue b k) i = (if i < k then [b] else [])"
| "handed_out _ i = []"

definition fanned_out :: "series list list \<Rightarrow> push_state \<Rightarrow> bool" where
  "fanned_out bs st \<longleftrightarrow> (\<forall>i < length (ps_senders st).
     sr_offered (ps_senders st ! i) = bs @ handed_out (ps_pc st) i)"

lemma fanned_out_sender:
  assumes "fanned_out bs st" "i < length (ps_senders st)"
    and "sr_offered s' = sr_offered (ps_senders st ! i)"
  shows "fanned_out bs (set_sender st i s')"
  using assms by (auto simp: fanned_out_def set_sender_def nth_list_update)

lemma push_step_fan:
  "push_step fmt p st st' \<Longrightarrow> push_ok st \<Longrightarrow> fanned_out bs st \<Longrightarrow> \<exists>bs'. fanned_out bs' st'"
proof (induction rule: push_step.induct)
  case (enqueue st batch i)
  then have "fanned_out bs (set_sender (st\<lparr>ps_pc := AtEnqueue batch (Suc i)\<rparr>) i
      (sender_enqueue batch (ps_senders st ! i)))"
    by (auto simp: fanned_out_def set_sender_def nth_list_update sender_enqueue_def less_Suc_eq)
  then show ?case ..
next
  case (flushed st batch)
  then have "fanned_out (bs @ [batch]) (st\<lparr>ps_pc := AtSelect\<rparr>)" by (simp add: fanned_out_def)
  then show ?case ..
next
  case (close st i)
  then have "fanned_out bs (set_sender (st\<lparr>ps_pc := AtClose (Suc i)\<rparr>) i (sender_close (ps_senders st ! i)))"
    by (auto simp: fanned_out_def set_sender_def nth_list_update sender_close_def)
  then show ?case ..
next
  case (dequeue i st s')
  then have "sender_ok (ps_senders st ! i)" by (simp add: push_ok_def)
  with dequeue fanned_out_sender sender_dequeue_frame show ?case by meson
next
  case (deliver i st batch bx allow_now enc_err start s')
  with fanned_out_sender sender_deliver_frame show ?case by meson
qed (auto simp: fanned_out_def)

lemma push_steps_fan:
  "push_steps fmt p n st st' \<Longrightarrow> push_ok st \<Longrightarrow> fanned_out bs st \<Longrightarrow> \<exists>bs'. fanned_out bs' st'"
proof (induction arbitrary: bs rule: push_steps.induct)
  case (more st st' n st'')
  then show ?case using push_step_fan push_step_ok by blast
qed blast

lemma run_start_fan: "list_all fresh_sender ss \<Longrightarrow> fanned_out [] (run_start ss)"
  by (auto simp: fanned_out_def run_start_def list_all_length fresh_sender_def new_sender_run_def
      new_queue_def Let_def split: prod.split)

section \<open>The drain\<close>

definition sender_work :: "sender_run \<Rightarrow> nat" where
  "sender_work s = 2 * q_size (sr_queue s) + (if sr_current s = None then 0 else 1)
     + (if sr_returned s then 0 else 1)"

fun pc_work :: "pusher_pc \<Rightarrow> nat" where
  "pc_work AtDrain = 2"
| "pc_work AtCancelled = 1"
| "pc_work _ = 0"

definition drain_work :: "push_state \<Rightarrow> nat" where
  "drain_work st = sum_list (map sender_work (ps_senders st)) + pc_work (ps_pc st)"

definition shutting_down :: "push_state \<Rightarrow> bool" where
  "shutting_down st \<longleftrightarrow> ps_pc st \<in> {AtDrain, AtCancelled, AtReturned}"

lemma sum_list_less:
  fixes f :: "'a \<Rightarrow> nat"
  assumes "i < length xs" "f y < f (xs ! i)"
  shows "sum_list (map f (xs[i := y])) < sum_list (map f xs)"
  using assms
proof (induction xs arbitrary: i)
  case (Cons x xs)
  then show ?case by (cases i) auto
qed simp

lemma drain_work_sender:
  "i < length (ps_senders st) \<Longrightarrow> sender_work s' < sender_work (ps_senders st ! i) \<Longrightarrow>
   drain_work (set_sender st i s') < drain_work st"
  using sum_list_less [of i "ps_senders st" sender_work s'] by (simp add: drain_work_def set_sender_def)

lemma push_step_work:
  "push_step fmt p st st' \<Longrightarrow> push_ok st \<Longrightarrow> shutting_down st \<Longrightarrow>
     shutting_down st' \<and> drain_work st' < drain_work st"
proof (induction rule: push_step.induct)
  case (dequeue i st s')
  let ?s = "ps_senders st ! i"
  have s: "sender_ok ?s" using dequeue by (simp add: push_ok_def)
  from s dequeue(4) have "sender_work s' < sender_work ?s"
    by (cases rule: sender_dequeue_cases) (use dequeue(2,3) in \<open>auto simp: sender_work_def\<close>)
  then show ?case using dequeue by (simp add: drain_work_sender) (simp add: shutting_down_def set_sender_def)
next
  case (deliver i st batch bx allow_now enc_err start s')
  have "sender_work s' < sender_work (ps_senders st ! i)"
    using sender_deliver_frame [OF deliver(4)] deliver(2) by (simp add: sender_work_def)
  then show ?case using deliver by (simp add: drain_work_sender) (simp add: shutting_down_def set_sender_def)
qed (auto simp: shutting_down_def drain_work_def)

lemma push_steps_work:
  "push_steps fmt p n st st' \<Longrightarrow> push_ok st \<Longrightarrow> shutting_down st \<Longrightarrow> n + drain_work st' \<le> drain_work st"
proof (induction rule: push_steps.induct)
  case (more st st' n st'')
  with push_step_work [OF more(1)] push_step_ok [OF more(1)] show ?case by fastforce
qed simp

text \<open>Some context of a delivery exists for every batch, with an exchange that fails.\<close>

definition some_env :: attempt_env where
  "some_env = \<lparr>ae_build_err = None, ae_reply = Inl CtxCanceled, ae_reply_now = 0, ae_dur = 0, ae_sent_at = 0,
     ae_breaker_now = 0, ae_check_now = 0, ae_until_now = 0, ae_rand = (\<lambda>_. 0), ae_ctx_done = False,
     ae_headers = []\<rparr>"

definition some_ctx :: "endpoint_config \<Rightarrow> nat \<Rightarrow> batch_ctx" where
  "some_ctx cfg n = \<lparr>bx_cfg = cfg, bx_agent = [], bx_parse_time = (\<lambda>_. None), bx_env = (\<lambda>_. some_env),
     bx_len = n, bx_deadline = None\<rparr>"

definition no_panic_cfg :: "endpoint_config \<Rightarrow> bool" where
  "no_panic_cfg cfg \<longleftrightarrow> backoff_max cfg < max_i64"

lemma process_batch_defined:
  assumes "no_panic_cfg (bx_cfg bx)"
  shows "process_batch bx t0 enc_err start cb \<noteq> None"
  using retry_loop_defined [of "bx\<lparr>bx_deadline := d\<rparr>" for d] assms
  by (auto simp: process_batch_def Let_def no_panic_cfg_def split: prod.split option.split)

lemma shutdown_progress:
  assumes ok: "push_ok st" and sd: "shutting_down st" and np: "ps_pc st \<noteq> AtReturned"
    and cfg: "\<forall>i < length (ps_senders st). no_panic_cfg (sr_cfg (ps_senders st ! i))"
  shows "\<exists>st'. push_step fmt p st st'"
proof (cases "list_all sr_returned (ps_senders st)")
  case True
  with sd np push_step.drained show ?thesis by (auto simp: shutting_down_def)
next
  case False
  then obtain i where i: "i < length (ps_senders st)" "\<not> sr_returned (ps_senders st ! i)"
    by (auto simp: list_all_length)
  let ?s = "ps_senders st ! i"
  have s: "sender_ok ?s" "q_closed (sr_queue ?s)" using ok sd np i by (auto simp: push_ok_def shutting_down_def)
  show ?thesis
  proof (cases "sr_current ?s")
    case None
    have "sender_dequeue (ps_cancelled st) ?s \<noteq> None"
      using s by (cases "q_size (sr_queue ?s) = 0")
        (auto simp: sender_dequeue_def q_dequeue_none q_dequeue_batch sender_ok_def)
    with push_step.dequeue [OF i None] show ?thesis by blast
  next
    case (Some b)
    let ?bx = "some_ctx (sr_cfg ?s) (length b)"
    have "sender_deliver ?bx 0 None 0 ?s \<noteq> None"
      using process_batch_defined [of ?bx 0 None 0 "sr_breaker ?s"] cfg i by (simp add: sender_deliver_def some_ctx_def)
    moreover have "delivery_ok (ps_cancelled st) ?s b ?bx"
      by (simp add: delivery_ok_def some_ctx_def some_env_def)
    ultimately show ?thesis using push_step.deliver [OF i(1) Some] by blast
  qed
qed

lemma push_step_cfgs: "push_step fmt p st st' \<Longrightarrow> push_ok st \<Longrightarrow> map sr_cfg (ps_senders st') = map sr_cfg (ps_senders st)"
proof (induction rule: push_step.induct)
  case (dequeue i st s')
  then have "sr_cfg s' = sr_cfg (ps_senders st ! i)"
    using sender_dequeue_frame [of "ps_senders st ! i"] by (auto simp: push_ok_def)
  with dequeue(1) show ?case
    by (simp add: set_sender_def map_update list_update_same_conv)
next
  case (deliver i st batch bx allow_now enc_err start s')
  with sender_deliver_frame [OF deliver(4)] show ?case
    by (simp add: set_sender_def map_update list_update_same_conv)
qed (simp_all add: set_sender_def map_update list_update_same_conv sender_enqueue_def sender_close_def)

lemma push_steps_cfgs:
  "push_steps fmt p n st st' \<Longrightarrow> push_ok st \<Longrightarrow> map sr_cfg (ps_senders st') = map sr_cfg (ps_senders st)"
  by (induction rule: push_steps.induct) (simp_all add: push_step_cfgs push_step_ok)

section \<open>A run\<close>

text \<open>One flush of one sample, then the shutdown, up to the wait for the drain.\<close>

definition demo_sender :: sender_run where
  "demo_sender = new_sender_run demo_cfg 1 demo_breaker"

definition demo_pusher :: pusher where
  "demo_pusher = new_pusher 0 True [] 0"

definition demo_batch :: "series list" where
  "demo_batch = [\<lparr>ts_labels = [Label ''__name__'' ''up''], ts_value = 0, ts_timestamp = -62135596800000\<rparr>]"

definition demo_families :: "metric_family list" where
  "demo_families = [\<lparr>mf_name = ''up'', mf_type = MT_GAUGE, mf_metrics =
     [\<lparr>dm_labels = [], dm_counter = None, dm_gauge = Some 0, dm_untyped = None, dm_histogram = None, dm_summary = None\<rparr>]\<rparr>]"

definition demo_at :: "pusher_pc \<Rightarrow> sender_run \<Rightarrow> push_state" where
  "demo_at pc s = \<lparr>ps_pc = pc, ps_cancelled = False, ps_senders = [s]\<rparr>"

lemma demo_flush: "flush_batch fmt demo_pusher 1 (Some demo_families) 0 = demo_batch"
  by (simp add: flush_batch_def demo_pusher_def new_pusher_def gather_def demo_families_def family_series_def
      scalar_series_def get_value_def is_nan_def build_series_def merge_labels_def demo_batch_def unix_milli_def)

abbreviation demo_offered :: sender_run where
  "demo_offered \<equiv> sender_enqueue demo_batch demo_sender"

lemma demo_steps:
  "push_step fmt demo_pusher (run_start [demo_sender]) (demo_at (AtEnqueue demo_batch 0) demo_sender)"
  "push_step fmt demo_pusher (demo_at (AtEnqueue demo_batch 0) demo_sender) (demo_at (AtEnqueue demo_batch 1) demo_offered)"
  "push_step fmt demo_pusher (demo_at (AtEnqueue demo_batch 1) demo_offered) (demo_at AtSelect demo_offered)"
  "push_step fmt demo_pusher (demo_at AtSelect demo_offered) (demo_at (AtClose 0) demo_offered)"
  "push_step fmt demo_pusher (demo_at (AtClose 0) demo_offered) (demo_at (AtClose 1) (sender_close demo_offered))"
  "push_step fmt demo_pusher (demo_at (AtClose 1) (sender_close demo_offered)) (demo_at AtDrain (sender_close demo_offered))"
  using push_step.flush_some [of "run_start [demo_sender]" fmt demo_pusher "Some demo_families" 0 demo_batch]
    push_step.enqueue [of "demo_at (AtEnqueue demo_batch 0) demo_sender" demo_batch 0 fmt demo_pusher]
    push_step.flushed [of "demo_at (AtEnqueue demo_batch 1) demo_offered" demo_batch fmt demo_pusher]
    push_step.ctx_done [of "demo_at AtSelect demo_offered" fmt demo_pusher]
    push_step.close [of "demo_at (AtClose 0) demo_offered" 0 fmt demo_pusher]
    push_step.closed [of "demo_at (AtClose 1) (sender_close demo_offered)" fmt demo_pusher]
    demo_flush [of fmt]
  by (simp_all add: demo_at_def run_start_def set_sender_def demo_batch_def)

lemma demo_run:
  "push_steps fmt demo_pusher 3 (run_start [demo_sender]) (demo_at AtSelect demo_offered)"
  "push_steps fmt demo_pusher 6 (run_start [demo_sender]) (demo_at AtDrain (sender_close demo_offered))"
proof -
  note steps = demo_steps [THEN push_steps.more]
  show "push_steps fmt demo_pusher 3 (run_start [demo_sender]) (demo_at AtSelect demo_offered)"
    using steps(1) [OF steps(2) [OF steps(3) [OF push_steps.none]]] by (simp add: eval_nat_numeral)
  show "push_steps fmt demo_pusher 6 (run_start [demo_sender]) (demo_at AtDrain (sender_close demo_offered))"
    using steps(1) [OF steps(2) [OF steps(3) [OF steps(4) [OF steps(5) [OF steps(6) [OF push_steps.none]]]]]]
    by (simp add: eval_nat_numeral)
qed

lemma demo_fresh: "list_all fresh_sender [demo_sender]"
  by (auto simp: fresh_sender_def demo_sender_def)

lemma demo_offered_sel: "sr_offered demo_offered = [demo_batch]" "sr_slog demo_offered = []"
    "queue_dropped (sr_qlog demo_offered) = 0" "in_flight demo_offered = 0" "length demo_batch = 1"
    "q_size (sr_queue demo_offered) = 1" "sr_current demo_offered = None" "\<not> sr_returned demo_offered"
  by (simp_all add: sender_enqueue_def demo_sender_def new_sender_run_def new_queue_def q_enqueue_def evict_oldest_def
      put_tail_def Let_def in_flight_def demo_batch_def)

section \<open>Properties of the pusher\<close>

definition sent_samples :: "send_event list \<Rightarrow> nat" where
  "sent_samples es = sum_list [n. OnSamplesSent n \<leftarrow> es]"

definition failed_samples :: "send_event list \<Rightarrow> nat" where
  "failed_samples es = sum_list [n. OnSamplesFailed r n \<leftarrow> es]"

definition dropped_samples :: "send_event list \<Rightarrow> nat" where
  "dropped_samples es = sum_list [n. OnSamplesDropped r n \<leftarrow> es]"

lemma settled_split: "settled_samples es = sent_samples es + failed_samples es + dropped_samples es"
proof (induction es)
  case (Cons e es)
  then show ?case by (cases e) (simp_all add: sent_samples_def failed_samples_def dropped_samples_def)
qed (simp add: sent_samples_def failed_samples_def dropped_samples_def)

text \<open>C5. Under every interleaving of the flush loop, the senders and the shutdown, every sample offered to
  a sender is accounted for exactly once by its observer (sent, failed, dropped by the sender, or
  evicted from the full queue) or is still queued or in flight; and when \<open>Run\<close> returns, nothing is
  queued or in flight any more, whether or not the drain timed out.\<close>

theorem every_sample_accounted:
  assumes "push_steps fmt p n (run_start ss) st" "list_all fresh_sender ss"
    and "i < length (ps_senders st)"
  shows "(let s = ps_senders st ! i in
    samples_in (sr_offered s) = sent_samples (sr_slog s) + failed_samples (sr_slog s)
      + dropped_samples (sr_slog s) + queue_dropped (sr_qlog s)
      + (samples_in (q_contents (sr_queue s)) + in_flight s)
    \<and> (ps_pc st = AtReturned \<longrightarrow> q_contents (sr_queue s) = [] \<and> in_flight s = 0))"
proof -
  have ok: "push_ok st" by (rule push_steps_ok [OF assms(1) run_start_ok [OF assms(2)]])
  then have "sender_ok (ps_senders st ! i)" using assms(3) by (simp add: push_ok_def)
  moreover have "ps_pc st = AtReturned \<longrightarrow> sr_returned (ps_senders st ! i)"
    using ok assms(3) by (auto simp: push_ok_def list_all_length)
  ultimately show ?thesis by (auto simp: sender_ok_def settled_split in_flight_def)
qed

theorem every_sample_accounted_witness:
  "samples_in (q_contents (sr_queue demo_offered)) = 1"
  using every_sample_accounted [OF demo_run(1) [of "\<lambda>_. []"] demo_fresh, of 0]
  by (simp add: demo_at_def demo_offered_sel sent_samples_def failed_samples_def dropped_samples_def Let_def)

text \<open>Every sender is offered the same batches in the same order: two senders can differ only in the
  batch that is being handed out at that moment.\<close>

theorem senders_offered_the_same:
  assumes "push_steps fmt p n (run_start ss) st" "list_all fresh_sender ss"
  shows "\<exists>bs. \<forall>i < length (ps_senders st). sr_offered (ps_senders st ! i) = bs @
    (case ps_pc st of AtEnqueue b k \<Rightarrow> if i < k then [b] else [] | _ \<Rightarrow> [])"
proof -
  obtain bs where "fanned_out bs st"
    using push_steps_fan [OF assms(1) run_start_ok [OF assms(2)] run_start_fan [OF assms(2)]] by blast
  moreover have "handed_out pc i = (case pc of AtEnqueue b k \<Rightarrow> if i < k then [b] else [] | _ \<Rightarrow> [])" for pc i
    by (cases pc) simp_all
  ultimately show ?thesis by (auto simp: fanned_out_def)
qed

theorem senders_offered_the_same_witness:
  "\<exists>bs. sr_offered demo_offered = bs @ []"
  using senders_offered_the_same [OF demo_run(1) [of "\<lambda>_. []"] demo_fresh] by (simp add: demo_at_def)

text \<open>C6. The shutdown ends: once the queues are closed, a run takes at most \<open>drain_work\<close> further steps
  (two per queued batch, one per batch in flight and per running sender, and the two of the
  coordinator), and it cannot stop before \<open>Run\<close> has returned, when the backoff cannot panic.\<close>

theorem shutdown_terminates:
  assumes "push_steps fmt p n (run_start ss) st" "list_all fresh_sender ss"
    and "\<forall>s \<in> set ss. no_panic_cfg (sr_cfg s)"
    and "shutting_down st" "push_steps fmt p m st st'"
  shows "m \<le> drain_work st \<and> (ps_pc st' = AtReturned \<or> (\<exists>st''. push_step fmt p st' st''))"
proof -
  note ok0 = run_start_ok [OF assms(2)]
  have ok: "push_ok st" by (rule push_steps_ok [OF assms(1) ok0])
  have ok': "push_ok st'" by (rule push_steps_ok [OF assms(5) ok])
  have w: "m + drain_work st' \<le> drain_work st" by (rule push_steps_work [OF assms(5) ok assms(4)])
  have sd: "shutting_down st'"
    using assms(5) ok assms(4) by (induction rule: push_steps.induct) (auto dest: push_step_work push_step_ok)
  have "map sr_cfg (ps_senders st') = map sr_cfg ss"
    using push_steps_cfgs [OF assms(1) ok0] push_steps_cfgs [OF assms(5) ok] by (simp add: run_start_def)
  then have "\<forall>i < length (ps_senders st'). no_panic_cfg (sr_cfg (ps_senders st' ! i))"
    using assms(3) by (metis length_map nth_map nth_mem)
  with shutdown_progress [OF ok' sd] w show ?thesis by auto
qed

theorem shutdown_terminates_witness:
  "0 < drain_work (demo_at AtDrain (sender_close demo_offered)) \<and>
   (\<exists>st'. push_step (\<lambda>_. []) demo_pusher (demo_at AtDrain (sender_close demo_offered)) st')"
proof -
  let ?st = "demo_at AtDrain (sender_close demo_offered)"
  have "push_step (\<lambda>_. []) demo_pusher ?st (?st\<lparr>ps_pc := AtCancelled, ps_cancelled := True\<rparr>)"
    by (rule push_step.timeout) (simp add: demo_at_def)
  from push_steps.more [OF this push_steps.none]
  have one: "push_steps (\<lambda>_. []) demo_pusher 1 ?st (?st\<lparr>ps_pc := AtCancelled, ps_cancelled := True\<rparr>)" by simp
  have c: "\<forall>s \<in> set [demo_sender]. no_panic_cfg (sr_cfg s)"
    by (simp add: demo_sender_def new_sender_run_def new_queue_def no_panic_cfg_def backoff_max_def demo_cfg_def
        second_def max_i64_def Let_def)
  have sd: "shutting_down ?st" by (simp add: shutting_down_def demo_at_def)
  from shutdown_terminates [OF demo_run(2) demo_fresh c sd one]
    shutdown_terminates [OF demo_run(2) demo_fresh c sd push_steps.none]
  show ?thesis by (auto simp: demo_at_def)
qed

end
