(* ===== verification/Metrics.thy ===== *)
theory Metrics
  imports Complex_Main GoStrings
begin

text \<open>
  \<^verbatim>\<open>internal/metrics/registry.go\<close>: the metrics of the exporter, and the calls the handlers make on
  them. The Prometheus client library is not part of the repository: a call such as
  \<open>m.ModelLoaded.WithLabelValues(labels...).Set(v)\<close> is an entry of a log of metric calls, in the order
  of the code. A float64 argument is the expression the code computes, so that no rounding is
  claimed: \<open>FInt\<close> is the conversion of an integer, \<open>FDiv\<close> a division.
\<close>

section \<open>Metrics and their descriptors\<close>

datatype metric =
    ExtractionResults
  | ExtractionFieldSkips
  | CompatibilityInputTokens
  | CompatibilityOutputTokens
  | Up
  | ModelLoaded
  | ModelVRAMBytes
  | ModelLoadTotal
  | ModelUnloadTotal
  | ModelLoadEventsTotal
  | ModelUnloadEventsTotal
  | ModelLoadDurationSeconds
  | RequestDuration
  | LoadDuration
  | PromptEvalDuration
  | EvalDuration
  | TokensPerSecond
  | PromptTokensPerSec
  | RequestsInFlight
  | RequestsTotal
  | PromptTokensTotal
  | EvalTokensTotal
  | KVCachePressureRatio

datatype metric_kind = Counter | Gauge | Histogram

datatype bucket_spec = NoBuckets | Exponential rat rat nat | Explicit "rat list"

record metric_desc =
  d_kind :: metric_kind
  d_name :: string
  d_labels :: "string list"
  d_buckets :: bucket_spec

text \<open>The namespace is \<^verbatim>\<open>ollama\<close> for all of them; the library joins it to the name with \<^verbatim>\<open>_\<close>.\<close>

definition desc :: "metric_kind \<Rightarrow> string \<Rightarrow> string list \<Rightarrow> bucket_spec \<Rightarrow> metric_desc" where
  "desc k n ls b = \<lparr>d_kind = k, d_name = ''ollama_'' @ n, d_labels = ls, d_buckets = b\<rparr>"

primrec desc_of :: "metric \<Rightarrow> metric_desc" where
  "desc_of ExtractionResults =
     desc Counter ''proxy_extraction_total'' [''outcome'', ''reason''] NoBuckets"
| "desc_of ExtractionFieldSkips =
     desc Counter ''proxy_extraction_field_skips_total'' [''reason''] NoBuckets"
| "desc_of CompatibilityInputTokens =
     desc Histogram ''compatibility_input_tokens'' [''model'', ''family'', ''quant'', ''endpoint''] (Exponential 1 4 9)"
| "desc_of CompatibilityOutputTokens =
     desc Histogram ''compatibility_output_tokens'' [''model'', ''family'', ''quant'', ''endpoint''] (Exponential 1 4 9)"
| "desc_of Up =
     desc Gauge ''up'' [] NoBuckets"
| "desc_of ModelLoaded =
     desc Gauge ''model_loaded'' [''model'', ''family'', ''quant''] NoBuckets"
| "desc_of ModelVRAMBytes =
     desc Gauge ''model_vram_bytes'' [''model'', ''family'', ''quant''] NoBuckets"
| "desc_of ModelLoadTotal =
     desc Counter ''model_load_total'' [''model'', ''family'', ''quant''] NoBuckets"
| "desc_of ModelUnloadTotal =
     desc Counter ''model_unload_total'' [''model'', ''family'', ''quant''] NoBuckets"
| "desc_of ModelLoadEventsTotal =
     desc Counter ''model_load_events_total'' [''model''] NoBuckets"
| "desc_of ModelUnloadEventsTotal =
     desc Counter ''model_unload_events_total'' [''model''] NoBuckets"
| "desc_of ModelLoadDurationSeconds =
     desc Histogram ''model_load_duration_seconds'' [''model''] (Explicit [1/2, 1, 2, 5, 10, 20, 30, 60, 120])"
| "desc_of RequestDuration =
     desc Histogram ''request_duration_seconds'' [''model'', ''family'', ''quant'', ''endpoint''] (Exponential (1/10) 2 12)"
| "desc_of LoadDuration =
     desc Histogram ''load_duration_seconds'' [''model'', ''family'', ''quant''] (Exponential (1/1000) 4 10)"
| "desc_of PromptEvalDuration =
     desc Histogram ''prompt_eval_duration_seconds'' [''model'', ''family'', ''quant''] (Exponential (1/100) 2 12)"
| "desc_of EvalDuration =
     desc Histogram ''eval_duration_seconds'' [''model'', ''family'', ''quant''] (Exponential (5/100) 2 12)"
| "desc_of TokensPerSecond =
     desc Gauge ''tokens_per_second'' [''model'', ''family'', ''quant''] NoBuckets"
| "desc_of PromptTokensPerSec =
     desc Gauge ''prompt_tokens_per_second'' [''model'', ''family'', ''quant''] NoBuckets"
| "desc_of RequestsInFlight =
     desc Gauge ''requests_in_flight'' [''model'', ''endpoint''] NoBuckets"
| "desc_of RequestsTotal =
     desc Counter ''requests_total'' [''model'', ''family'', ''quant'', ''endpoint''] NoBuckets"
| "desc_of PromptTokensTotal =
     desc Counter ''prompt_tokens_total'' [''model'', ''family'', ''quant'', ''endpoint''] NoBuckets"
| "desc_of EvalTokensTotal =
     desc Counter ''eval_tokens_total'' [''model'', ''family'', ''quant'', ''endpoint''] NoBuckets"
| "desc_of KVCachePressureRatio =
     desc Gauge ''kv_cache_pressure_ratio'' [''model'', ''family'', ''quant''] NoBuckets"

text \<open>The metrics \<open>New\<close> registers, in its order.\<close>

definition all_metrics :: "metric list" where
  "all_metrics = [ExtractionResults, ExtractionFieldSkips, CompatibilityInputTokens,
     CompatibilityOutputTokens, Up, ModelLoaded,
     ModelVRAMBytes, ModelLoadTotal, ModelUnloadTotal,
     ModelLoadEventsTotal, ModelUnloadEventsTotal, ModelLoadDurationSeconds,
     RequestDuration, LoadDuration, PromptEvalDuration,
     EvalDuration, TokensPerSecond, PromptTokensPerSec,
     RequestsInFlight, RequestsTotal, PromptTokensTotal,
     EvalTokensTotal, KVCachePressureRatio]"

section \<open>Metric calls\<close>

datatype fval = FInt int | FDiv fval fval | FSeconds int

datatype metric_call =
    MSet metric "string list" fval
  | MAdd metric "string list" fval
  | MInc metric "string list"
  | MDec metric "string list"
  | MObserve metric "string list" fval
  | MDeleteMatch metric string string

text \<open>
  When the library panics: another number of label values than the metric has labels, a call the
  kind of the metric does not have, a negative amount added to a counter.
\<close>

definition arity_ok :: "metric \<Rightarrow> metric_kind \<Rightarrow> string list \<Rightarrow> bool" where
  "arity_ok m k ls \<longleftrightarrow> d_kind (desc_of m) = k \<and> length ls = length (d_labels (desc_of m))"

definition call_ok :: "metric_call \<Rightarrow> bool" where
  "call_ok c = (case c of
       MSet m ls _ \<Rightarrow> arity_ok m Gauge ls
     | MAdd m ls v \<Rightarrow> arity_ok m Counter ls \<and> (case v of FInt i \<Rightarrow> 0 \<le> i | _ \<Rightarrow> False)
     | MInc m ls \<Rightarrow> arity_ok m Counter ls \<or> arity_ok m Gauge ls
     | MDec m ls \<Rightarrow> arity_ok m Gauge ls
     | MObserve m ls _ \<Rightarrow> arity_ok m Histogram ls
     | MDeleteMatch m l _ \<Rightarrow> l \<in> set (d_labels (desc_of m)))"

lemmas call_ok_defs = call_ok_def arity_ok_def desc_def

text \<open>How many calls of a kind a log holds.\<close>

definition calls_of :: "(metric_call \<Rightarrow> bool) \<Rightarrow> metric_call list \<Rightarrow> nat" where
  "calls_of P cs = length (filter P cs)"

lemma calls_of_simps [simp]:
  "calls_of P [] = 0" "calls_of P (c # cs) = (if P c then 1 else 0) + calls_of P cs"
  "calls_of P (xs @ ys) = calls_of P xs + calls_of P ys"
  by (simp_all add: calls_of_def)

lemma calls_of_concat: "calls_of P (concat (map f xs)) = sum_list (map (\<lambda>x. calls_of P (f x)) xs)"
  by (induction xs) simp_all

section \<open>Registration\<close>

text \<open>The documented preconditions of registration: a panic otherwise.\<close>

fun increasing :: "rat list \<Rightarrow> bool" where
  "increasing (x # y # zs) = (x < y \<and> increasing (y # zs))"
| "increasing _ = True"

definition buckets_ok :: "bucket_spec \<Rightarrow> bool" where
  "buckets_ok b = (case b of
       NoBuckets \<Rightarrow> True
     | Exponential start factor k \<Rightarrow> 0 < start \<and> 1 < factor \<and> 1 \<le> k
     | Explicit bs \<Rightarrow> increasing bs)"

definition valid_metric_byte :: "char \<Rightarrow> bool" where
  "valid_metric_byte c \<longleftrightarrow> is_lower c \<or> is_upper c \<or> is_digit c \<or> c = CHR ''_'' \<or> c = CHR '':''"

definition metric_name_ok :: "string \<Rightarrow> bool" where
  "metric_name_ok n \<longleftrightarrow> n \<noteq> [] \<and> \<not> is_digit (hd n) \<and> list_all valid_metric_byte n"

definition desc_ok :: "metric_desc \<Rightarrow> bool" where
  "desc_ok d \<longleftrightarrow> metric_name_ok (d_name d) \<and> list_all metric_name_ok (d_labels d)
     \<and> distinct (d_labels d) \<and> buckets_ok (d_buckets d)
     \<and> (d_kind d = Histogram) = (d_buckets d \<noteq> NoBuckets)"

lemma name_byte_ok:
  "valid_metric_byte CHR ''a''" "valid_metric_byte CHR ''b''" "valid_metric_byte CHR ''c''"
  "valid_metric_byte CHR ''d''" "valid_metric_byte CHR ''e''" "valid_metric_byte CHR ''f''"
  "valid_metric_byte CHR ''g''" "valid_metric_byte CHR ''h''" "valid_metric_byte CHR ''i''"
  "valid_metric_byte CHR ''j''" "valid_metric_byte CHR ''k''" "valid_metric_byte CHR ''l''"
  "valid_metric_byte CHR ''m''" "valid_metric_byte CHR ''n''" "valid_metric_byte CHR ''o''"
  "valid_metric_byte CHR ''p''" "valid_metric_byte CHR ''q''" "valid_metric_byte CHR ''r''"
  "valid_metric_byte CHR ''s''" "valid_metric_byte CHR ''t''" "valid_metric_byte CHR ''u''"
  "valid_metric_byte CHR ''v''" "valid_metric_byte CHR ''w''" "valid_metric_byte CHR ''x''"
  "valid_metric_byte CHR ''y''" "valid_metric_byte CHR ''z''" "valid_metric_byte CHR ''_''"
  by (simp_all add: valid_metric_byte_def is_lower_def byte_def)

lemma not_digit_head: "is_lower c \<Longrightarrow> \<not> is_digit c"
  by (simp add: is_lower_def is_digit_def)

lemma all_metrics_complete: "m \<in> set all_metrics"
  by (cases m) (simp_all add: all_metrics_def)

text \<open>Registering the exporter's metrics cannot panic: all 23 metrics of the struct are
  registered, once each, under distinct valid names, with distinct valid label names and, for the
  histograms only, admissible buckets.\<close>

theorem registration_is_well_formed:
  "set all_metrics = UNIV \<and> distinct all_metrics \<and> distinct (map (d_name \<circ> desc_of) all_metrics)
   \<and> list_all (desc_ok \<circ> desc_of) all_metrics"
proof (intro conjI)
  show "set all_metrics = UNIV" using all_metrics_complete by auto
  show "distinct all_metrics" by (simp add: all_metrics_def)
  show "distinct (map (d_name \<circ> desc_of) all_metrics)"
    by (simp add: all_metrics_def desc_def)
  show "list_all (desc_ok \<circ> desc_of) all_metrics"
    by (simp add: all_metrics_def desc_def desc_ok_def metric_name_ok_def name_byte_ok
        buckets_ok_def) (simp add: is_digit_def byte_def)
qed

end
