(* ===== verification/Build.thy ===== *)
theory Build
  imports Pusher Metrics
begin

text \<open>
  \<^verbatim>\<open>internal/remotewrite/build.go\<close> and \<^verbatim>\<open>metrics.go\<close>: the assembly of the pusher from the resolved
  configuration of its endpoint, and the self metrics that its observers write. Reading a file is the
  argument \<open>read_file\<close> (\<open>None\<close> for an error) and \<open>AppendCertsFromPEM\<close> the argument \<open>pem_ok\<close>. A call
  on a self metric is an entry of a log, as in \<open>Metrics\<close>.
\<close>

section \<open>Self metrics\<close>

datatype rw_metric =
    SamplesTotal
  | SamplesFailed
  | SamplesDropped
  | SendDuration
  | QueueLength
  | QueueCapacity
  | LastSendTS
  | RetriesTotal
  | BreakerStateGauge

definition rw_desc :: "metric_kind \<Rightarrow> string \<Rightarrow> string list \<Rightarrow> bucket_spec \<Rightarrow> metric_desc" where
  "rw_desc k n ls b =
     \<lparr>d_kind = k, d_name = ''ollama_exporter_remote_write_'' @ n, d_labels = ls, d_buckets = b\<rparr>"

primrec rw_desc_of :: "rw_metric \<Rightarrow> metric_desc" where
  "rw_desc_of SamplesTotal = rw_desc Counter ''samples_total'' [''endpoint''] NoBuckets"
| "rw_desc_of SamplesFailed = rw_desc Counter ''samples_failed_total'' [''endpoint'', ''reason''] NoBuckets"
| "rw_desc_of SamplesDropped = rw_desc Counter ''samples_dropped_total'' [''endpoint'', ''reason''] NoBuckets"
| "rw_desc_of SendDuration =
     rw_desc Histogram ''send_duration_seconds'' [''endpoint'', ''outcome''] (Exponential (5 / 1000) 2 12)"
| "rw_desc_of QueueLength = rw_desc Gauge ''queue_length'' [''endpoint''] NoBuckets"
| "rw_desc_of QueueCapacity = rw_desc Gauge ''queue_capacity'' [''endpoint''] NoBuckets"
| "rw_desc_of LastSendTS = rw_desc Gauge ''last_send_timestamp_seconds'' [''endpoint''] NoBuckets"
| "rw_desc_of RetriesTotal = rw_desc Counter ''retries_total'' [''endpoint''] NoBuckets"
| "rw_desc_of BreakerStateGauge = rw_desc Gauge ''circuit_breaker_state'' [''endpoint''] NoBuckets"

definition rw_metrics :: "rw_metric list" where
  "rw_metrics = [SamplesTotal, SamplesFailed, SamplesDropped, SendDuration, QueueLength, QueueCapacity,
     LastSendTS, RetriesTotal, BreakerStateGauge]"

text \<open>
  The singleton per registry: the registries that have been served, identified by numbers. A nil
  registerer is replaced by a new registry. The result says whether \<open>MustRegister\<close> is called.
\<close>

definition new_self_metrics :: "nat list \<Rightarrow> nat \<Rightarrow> nat option \<Rightarrow> nat list \<times> bool" where
  "new_self_metrics served fresh reg =
     (let r = (case reg of None \<Rightarrow> fresh | Some r \<Rightarrow> r)
      in if r \<in> set served then (served, False) else (r # served, True))"

datatype rw_call =
    RwSet rw_metric "string list" int
  | RwAdd rw_metric "string list" nat
  | RwObserve rw_metric "string list" duration

text \<open>\<open>Time.Unix\<close>: the seconds since 1970 of an instant, which counts from the year 1.\<close>

definition unix_seconds :: "instant \<Rightarrow> int" where
  "unix_seconds t = (t - 62135596800000000000) div 1000000000"

primrec queue_call :: "string \<Rightarrow> qevent \<Rightarrow> rw_call" where
  "queue_call e (OnEnqueue n) = RwSet QueueLength [e] (int n)"
| "queue_call e (OnDequeue n) = RwSet QueueLength [e] (int n)"
| "queue_call e (SetCapacity n) = RwSet QueueCapacity [e] (int n)"
| "queue_call e (OnDrop reason n) = RwAdd SamplesDropped [e, reason] n"

primrec sender_calls :: "string \<Rightarrow> send_event \<Rightarrow> rw_call list" where
  "sender_calls e (OnSendOutcome outcome d) = [RwObserve SendDuration [e, outcome] d]"
| "sender_calls e (OnSamplesSent n) = [RwAdd SamplesTotal [e] n]"
| "sender_calls e (OnSamplesFailed reason n) = [RwAdd SamplesFailed [e, reason] n]"
| "sender_calls e (OnSamplesDropped reason n) = [RwAdd SamplesDropped [e, reason] n]"
| "sender_calls e OnRetry = [RwAdd RetriesTotal [e] 1]"
| "sender_calls e (OnLastSend t) = [RwSet LastSendTS [e] (unix_seconds t)]"
| "sender_calls e (BreakerNote s) = [RwSet BreakerStateGauge [e] (breaker_code s)]"
| "sender_calls e (Posted h) = []"
| "sender_calls e (StartTimer d) = []"

text \<open>The value of a counter after the calls; the order in which goroutines interleave does not matter.\<close>

definition rw_total :: "rw_metric \<Rightarrow> string list \<Rightarrow> rw_call list \<Rightarrow> nat" where
  "rw_total m ls cs = sum_list (map (\<lambda>c. case c of RwAdd m' ls' n \<Rightarrow> if m' = m \<and> ls' = ls then n else 0 | _ \<Rightarrow> 0) cs)"

definition run_calls :: "string \<Rightarrow> sender_run \<Rightarrow> rw_call list" where
  "run_calls e s = map (queue_call e) (sr_qlog s) @ concat (map (sender_calls e) (sr_slog s))"

section \<open>Assembly\<close>

record build_spec =
  bs_name :: string
  bs_url :: string
  bs_timeout :: duration
  bs_max_attempts :: int
  bs_max_elapsed :: duration
  bs_initial_backoff :: duration
  bs_max_backoff :: duration
  bs_failure_threshold :: int
  bs_window :: duration
  bs_cooldown :: duration
  bs_capacity :: int
  bs_tls_ca_file :: string
  bs_tls_insecure_verify :: bool
  bs_insecure_http :: bool
  bs_basic_user :: string
  bs_basic_pass_file :: string
  bs_bearer_token_file :: string
  bs_headers :: "(string \<times> string) list"
  bs_external_labels :: "(string \<times> string) list"

datatype build_error =
    NoEndpoints
  | NoGatherer
  | TokenUnreadable string
  | PasswordUnreadable string
  | CAUnreadable string
  | CAUnusable string

record http_client =
  hc_insecure :: bool
  hc_root_cas :: "string option"
  hc_timeout :: duration

definition host_from_url :: "string \<Rightarrow> string" where
  "host_from_url s =
     (case str_index s ''://'' of
        None \<Rightarrow> s
      | Some idx \<Rightarrow>
          let rest = drop (idx + 3) s in
          case str_index rest ''/'' of
            Some slash \<Rightarrow> take slash rest
          | None \<Rightarrow> rest)"

definition cred_cutset :: string where
  "cred_cutset = [CHR 0x0D, CHR 0x0A, CHR 0x09, CHR 0x20]"

definition load_creds ::
    "(string \<Rightarrow> string option) \<Rightarrow> build_spec \<Rightarrow> build_error + string \<times> string \<times> string" where
  "load_creds read_file spec =
     (case (if bs_bearer_token_file spec \<noteq> []
            then map_option (\<lambda>b. trim_right_set b cred_cutset) (read_file (bs_bearer_token_file spec))
            else Some []) of
        None \<Rightarrow> Inl (TokenUnreadable (bs_bearer_token_file spec))
      | Some token \<Rightarrow>
          if bs_basic_user spec = [] then Inr ([], [], token)
          else if bs_basic_pass_file spec = [] then Inr (bs_basic_user spec, [], token)
          else case read_file (bs_basic_pass_file spec) of
            None \<Rightarrow> Inl (PasswordUnreadable (bs_basic_pass_file spec))
          | Some b \<Rightarrow> Inr (bs_basic_user spec, trim_right_set b cred_cutset, token))"

definition new_http_client ::
    "(string \<Rightarrow> string option) \<Rightarrow> (string \<Rightarrow> bool) \<Rightarrow> build_spec \<Rightarrow> build_error + http_client" where
  "new_http_client read_file pem_ok spec =
     (let client = (\<lambda>cas. \<lparr>hc_insecure = bs_tls_insecure_verify spec, hc_root_cas = cas,
            hc_timeout = (if bs_timeout spec \<le> 0 then 30 * second else bs_timeout spec)\<rparr>)
      in if bs_tls_ca_file spec = [] then Inr (client None)
         else case read_file (bs_tls_ca_file spec) of
           None \<Rightarrow> Inl (CAUnreadable (bs_tls_ca_file spec))
         | Some pem \<Rightarrow> if pem_ok pem then Inr (client (Some pem)) else Inl (CAUnusable (bs_tls_ca_file spec)))"

definition endpoint_label :: "build_spec \<Rightarrow> string" where
  "endpoint_label spec = (if bs_name spec = [] then host_from_url (bs_url spec) else bs_name spec)"

definition endpoint_cfg :: "build_spec \<Rightarrow> string \<Rightarrow> string \<Rightarrow> string \<Rightarrow> endpoint_config" where
  "endpoint_cfg spec user pass token =
     \<lparr>ep_timeout = bs_timeout spec, ep_max_attempts = bs_max_attempts spec, ep_max_elapsed = bs_max_elapsed spec,
      ep_initial_backoff = bs_initial_backoff spec, ep_max_backoff = bs_max_backoff spec,
      ep_headers = bs_headers spec, ep_basic_user = user, ep_basic_pass = pass, ep_bearer_token = token\<rparr>"

record built =
  bl_label :: string
  bl_client :: http_client
  bl_pusher :: pusher
  bl_sender :: sender_run
  bl_state_calls :: "rw_call list"

text \<open>
  \<open>bl_state_calls\<close> are the calls the breaker's observer receives during construction; the queue's
  are in the log of \<open>bl_sender\<close>.
\<close>

definition build ::
    "(string \<Rightarrow> string option) \<Rightarrow> (string \<Rightarrow> bool) \<Rightarrow> build_spec list \<Rightarrow> bool \<Rightarrow> duration \<Rightarrow> duration
       \<Rightarrow> build_error + built" where
  "build read_file pem_ok endpoints has_gatherer flush_interval drain_timeout =
     (case endpoints of
        [] \<Rightarrow> Inl NoEndpoints
      | spec # _ \<Rightarrow>
          if \<not> has_gatherer then Inl NoGatherer
          else case load_creds read_file spec of
            Inl e \<Rightarrow> Inl e
          | Inr (user, pass, token) \<Rightarrow>
              (case new_http_client read_file pem_ok spec of
                 Inl e \<Rightarrow> Inl e
               | Inr client \<Rightarrow>
                   let cap = (if bs_capacity spec \<le> 0 then 10000 else bs_capacity spec);
                       (cb, notes) = new_breaker \<lparr>bc_threshold = bs_failure_threshold spec,
                          bc_window = bs_window spec, bc_cooldown = bs_cooldown spec\<rparr>;
                       flush = (if flush_interval \<le> 0 then 10 * second else flush_interval)
                   in Inr \<lparr>bl_label = endpoint_label spec, bl_client = client,
                        bl_pusher = new_pusher flush True (new_labels (bs_external_labels spec)) drain_timeout,
                        bl_sender = new_sender_run (endpoint_cfg spec user pass token) cap cb,
                        bl_state_calls = concat (map (sender_calls (endpoint_label spec) \<circ> BreakerNote) notes)\<rparr>))"

section \<open>The vocabulary of the observers\<close>

definition failed_reasons :: "string list" where
  "failed_reasons = [''non_retryable'', ''retry_budget_exhausted'']"

definition dropped_reasons :: "string list" where
  "dropped_reasons = [''queue_full'', ''breaker_open'', ''shutdown_drain'']"

definition outcomes :: "string list" where
  "outcomes = [''success'', ''retryable_error'', ''non_retryable_error'', ''timeout'']"

fun qev_ok :: "qevent \<Rightarrow> bool" where
  "qev_ok (OnDrop r n) = (r \<in> set dropped_reasons)"
| "qev_ok e = True"

fun sev_ok :: "send_event \<Rightarrow> bool" where
  "sev_ok (OnSamplesFailed r n) = (r \<in> set failed_reasons)"
| "sev_ok (OnSamplesDropped r n) = (r \<in> set dropped_reasons)"
| "sev_ok (OnSendOutcome r d) = (r \<in> set outcomes)"
| "sev_ok e = True"

lemmas vocabulary = failed_reasons_def dropped_reasons_def outcomes_def

lemma reasons_in:
  "''queue_full'' \<in> set dropped_reasons" "''breaker_open'' \<in> set dropped_reasons"
  "''shutdown_drain'' \<in> set dropped_reasons" "''non_retryable'' \<in> set failed_reasons"
  "''retry_budget_exhausted'' \<in> set failed_reasons" "''success'' \<in> set outcomes"
  "''timeout'' \<in> set outcomes" "''non_retryable_error'' \<in> set outcomes"
  by (simp_all add: vocabulary)

lemma sev_ok_logs [simp]:
  "list_all sev_ok (posted bx a)" "list_all sev_ok (map BreakerNote ns)" "list_all sev_ok (exhausted bx)"
  "outcome_of err \<in> set outcomes"
  by (auto simp: posted_def exhausted_def list_all_iff outcome_of_def vocabulary split: option.splits)

lemma retry_loop_vocabulary: "retry_loop bx k a cb = Some (cb', es) \<Longrightarrow> list_all sev_ok es"
proof (induction k arbitrary: a cb' es)
  case 0
  then show ?case by auto
next
  case (Suc k)
  from Suc.prems show ?case
  proof (cases rule: retry_loop_Suc_cases)
    case (again err wait w es')
    with Suc.IH [OF again(5)] show ?thesis by simp
  qed (simp_all add: reasons_in)
qed

lemma process_batch_vocabulary:
  "process_batch bx t0 enc_err start cb = Some (cb', es) \<Longrightarrow> list_all sev_ok es"
proof (erule process_batch_cases)
  fix es' bx'
  assume "retry_loop bx' (eff_attempts (bx_cfg bx)) 0 (fst (snd (br_allow t0 cb))) = Some (cb', es')"
    and "es = map BreakerNote (snd (snd (br_allow t0 cb))) @ es'"
  then show "list_all sev_ok es" using retry_loop_vocabulary by auto
qed (auto simp: vocabulary)

definition log_ok :: "sender_run \<Rightarrow> bool" where
  "log_ok s \<longleftrightarrow> list_all qev_ok (sr_qlog s) \<and> list_all sev_ok (sr_slog s)"

lemma new_sender_log_ok: "log_ok (new_sender_run cfg n cb)"
  by (simp add: log_ok_def new_sender_run_def new_queue_def Let_def)

lemma q_enqueue_log: "list_all qev_ok (snd (q_enqueue q b))"
  by (simp add: q_enqueue_def Let_def vocabulary split: prod.split)

lemma q_dequeue_log: "list_all qev_ok (snd (snd (q_dequeue q c)))"
  by (simp add: q_dequeue_def Let_def)

lemma sender_enqueue_log: "log_ok s \<Longrightarrow> log_ok (sender_enqueue b s)"
  by (simp add: log_ok_def sender_enqueue_def q_enqueue_log)

lemma sender_close_log: "log_ok s \<Longrightarrow> log_ok (sender_close s)"
  by (simp add: log_ok_def sender_close_def)

lemma sender_dequeue_log: "log_ok s \<Longrightarrow> sender_dequeue c s = Some s' \<Longrightarrow> log_ok s'"
  using q_dequeue_log [of "sr_queue s" c]
  by (auto simp: log_ok_def sender_dequeue_def split: prod.splits deq_result.splits)

lemma sender_deliver_log: "log_ok s \<Longrightarrow> sender_deliver bx t0 e start s = Some s' \<Longrightarrow> log_ok s'"
  using process_batch_vocabulary by (auto simp: log_ok_def sender_deliver_def)

lemma logs_ok_update: "list_all log_ok ss \<Longrightarrow> log_ok s \<Longrightarrow> list_all log_ok (ss[i := s])"
  by (cases "i < length ss") (auto simp: list_all_length nth_list_update list_update_beyond)

lemma push_step_logs:
  "push_step fmt p st st' \<Longrightarrow> list_all log_ok (ps_senders st) \<Longrightarrow> list_all log_ok (ps_senders st')"
proof (induction rule: push_step.induct)
  case (enqueue st batch i)
  then have "log_ok (sender_enqueue batch (ps_senders st ! i))"
    by (intro sender_enqueue_log) (simp add: list_all_length)
  with enqueue show ?case by (simp add: set_sender_def logs_ok_update)
next
  case (close st i)
  then have "log_ok (sender_close (ps_senders st ! i))"
    by (intro sender_close_log) (simp add: list_all_length)
  with close show ?case by (simp add: set_sender_def logs_ok_update)
next
  case (dequeue i st s')
  then have "log_ok s'" by (auto simp: list_all_length intro: sender_dequeue_log)
  with dequeue show ?case by (simp add: set_sender_def logs_ok_update)
next
  case (deliver i st batch bx allow_now enc_err start s')
  then have "log_ok s'" by (auto simp: list_all_length intro: sender_deliver_log)
  with deliver show ?case by (simp add: set_sender_def logs_ok_update)
qed simp_all

lemma push_steps_logs:
  "push_steps fmt p n st st' \<Longrightarrow> list_all log_ok (ps_senders st) \<Longrightarrow> list_all log_ok (ps_senders st')"
  by (induction rule: push_steps.induct) (simp_all add: push_step_logs)

section \<open>The counters\<close>

lemma rw_total_simps [simp]:
  "rw_total m ls [] = 0"
  "rw_total m ls (xs @ ys) = rw_total m ls xs + rw_total m ls ys"
  "rw_total m ls (RwAdd m' ls' n # cs) = (if m' = m \<and> ls' = ls then n else 0) + rw_total m ls cs"
  "rw_total m ls (RwSet m' ls' v # cs) = rw_total m ls cs"
  "rw_total m ls (RwObserve m' ls' d # cs) = rw_total m ls cs"
  by (simp_all add: rw_total_def)

text \<open>The samples a log of calls accounts for, over the fixed sets of reasons.\<close>

definition failed_total :: "string \<Rightarrow> rw_call list \<Rightarrow> nat" where
  "failed_total e cs = sum_list (map (\<lambda>r. rw_total SamplesFailed [e, r] cs) failed_reasons)"

definition dropped_total :: "string \<Rightarrow> rw_call list \<Rightarrow> nat" where
  "dropped_total e cs = sum_list (map (\<lambda>r. rw_total SamplesDropped [e, r] cs) dropped_reasons)"

lemma totals_append [simp]:
  "failed_total e (xs @ ys) = failed_total e xs + failed_total e ys"
  "dropped_total e (xs @ ys) = dropped_total e xs + dropped_total e ys"
  "failed_total e [] = 0" "dropped_total e [] = 0"
  by (simp_all add: failed_total_def dropped_total_def vocabulary)

lemma queue_event_totals:
  assumes "qev_ok ev"
  shows "rw_total SamplesTotal [e] [queue_call e ev] = 0" "failed_total e [queue_call e ev] = 0"
    and "dropped_total e [queue_call e ev] = dropped_of ev"
  using assms by (cases ev; auto simp: failed_total_def dropped_total_def vocabulary)+

lemma sender_event_totals:
  assumes "sev_ok ev"
  shows "rw_total SamplesTotal [e] (sender_calls e ev) + failed_total e (sender_calls e ev)
    + dropped_total e (sender_calls e ev) = settled_of ev"
  using assms by (cases ev; simp add: failed_total_def dropped_total_def vocabulary; (elim disjE)?; simp)

lemma queue_log_totals:
  "list_all qev_ok es \<Longrightarrow> rw_total SamplesTotal [e] (map (queue_call e) es) = 0
     \<and> failed_total e (map (queue_call e) es) = 0 \<and> dropped_total e (map (queue_call e) es) = queue_dropped es"
proof (induction es)
  case (Cons ev es)
  then have q: "qev_ok ev" by simp
  have c: "rw_total SamplesTotal [e] (queue_call e ev # cs) = rw_total SamplesTotal [e] [queue_call e ev] + rw_total SamplesTotal [e] cs"
    "failed_total e (queue_call e ev # cs) = failed_total e [queue_call e ev] + failed_total e cs"
    "dropped_total e (queue_call e ev # cs) = dropped_total e [queue_call e ev] + dropped_total e cs" for cs
    using totals_append(1,2) [of e "[queue_call e ev]" cs] rw_total_simps(2) [where m = SamplesTotal and ls = "[e]" and xs = "[queue_call e ev]" and ys = cs]
    by (simp_all only: append_Cons append_Nil)
  show ?case
    unfolding list.map c [of "map (queue_call e) es"] queue_event_totals [OF q] using Cons by simp
qed simp

lemma sender_log_totals:
  "list_all sev_ok es \<Longrightarrow> rw_total SamplesTotal [e] (concat (map (sender_calls e) es))
     + failed_total e (concat (map (sender_calls e) es)) + dropped_total e (concat (map (sender_calls e) es))
     = settled_samples es"
proof (induction es)
  case (Cons ev es)
  then show ?case using sender_event_totals [of ev e] by simp
qed simp

section \<open>Properties\<close>

text \<open>C9. What the self metrics of an endpoint expose adds up: at any point of any run, the samples sent,
  plus the samples failed and dropped over all documented reasons, are the samples offered minus
  those still queued or in flight; no reason or outcome outside the documented sets is used.\<close>

theorem self_metrics_account_for_every_sample:
  assumes "push_steps fmt p n (run_start ss) st" "list_all fresh_sender ss" "i < length (ps_senders st)"
  shows "let s = ps_senders st ! i; cs = run_calls e s in
    rw_total SamplesTotal [e] cs + failed_total e cs + dropped_total e cs
      + samples_in (q_contents (sr_queue s)) + in_flight s = samples_in (sr_offered s)
    \<and> list_all qev_ok (sr_qlog s) \<and> list_all sev_ok (sr_slog s)"
proof -
  let ?s = "ps_senders st ! i"
  have "list_all log_ok (ps_senders (run_start ss))"
    using assms(2) by (auto simp: run_start_def list_all_length fresh_sender_def new_sender_log_ok)
  then have l: "log_ok ?s" using push_steps_logs [OF assms(1)] assms(3) by (simp add: list_all_length)
  have "sender_ok ?s"
    using push_steps_ok [OF assms(1) run_start_ok [OF assms(2)]] assms(3) by (simp add: push_ok_def)
  with l queue_log_totals [of "sr_qlog ?s" e] sender_log_totals [of "sr_slog ?s" e] show ?thesis
    by (simp add: sender_ok_def log_ok_def run_calls_def Let_def)
qed

theorem self_metrics_account_for_every_sample_witness:
  "rw_total SamplesTotal [''e''] (run_calls ''e'' demo_offered) + failed_total ''e'' (run_calls ''e'' demo_offered)
     + dropped_total ''e'' (run_calls ''e'' demo_offered) + samples_in (q_contents (sr_queue demo_offered)) = 1"
  using self_metrics_account_for_every_sample [OF demo_run(1) [of "\<lambda>_. []"] demo_fresh, of 0 "''e''"]
  by (simp add: demo_at_def demo_offered_sel Let_def)

text \<open>A credential that a trailing newline of its file cannot corrupt.\<close>

definition clean_credential :: "string \<Rightarrow> bool" where
  "clean_credential s \<longleftrightarrow> s = [] \<or> last s \<notin> set cred_cutset"

lemma trim_right_set_clean: "trim_right_set s cred_cutset = [] \<or> last (trim_right_set s cred_cutset) \<notin> set cred_cutset"
  using dropWhile_head [of "\<lambda>c. c \<in> set cred_cutset" "rev s"]
  by (auto simp: trim_right_set_def last_rev)

lemma load_creds_clean:
  "load_creds rf spec = Inr (u, p, t) \<Longrightarrow> clean_credential p \<and> clean_credential t"
  using trim_right_set_clean
  by (auto simp: load_creds_def clean_credential_def split: if_splits option.splits)

lemma build_Inr_cases:
  assumes "build rf pem endpoints g fi dt = Inr b"
  obtains spec specs u p t client where "endpoints = spec # specs" "g"
    "load_creds rf spec = Inr (u, p, t)" "new_http_client rf pem spec = Inr client"
    "bl_label b = endpoint_label spec" "bl_client b = client"
    "bl_pusher b = new_pusher (if fi \<le> 0 then 10 * second else fi) True (new_labels (bs_external_labels spec)) dt"
    "bl_sender b = new_sender_run (endpoint_cfg spec u p t) (if bs_capacity spec \<le> 0 then 10000 else bs_capacity spec)
       (fst (new_breaker \<lparr>bc_threshold = bs_failure_threshold spec, bc_window = bs_window spec, bc_cooldown = bs_cooldown spec\<rparr>))"
  using assms by (auto simp: build_def Let_def split: list.splits if_splits sum.splits prod.splits)

lemma new_sender_run_sel:
  "sr_queue (new_sender_run cfg n cb) = fst (new_queue n)" "sr_breaker (new_sender_run cfg n cb) = cb"
  "sr_cfg (new_sender_run cfg n cb) = cfg"
  by (simp_all add: new_sender_run_def Let_def split: prod.split)

lemma built_ready:
  assumes "build rf pem (spec # specs) g fi dt = Inr b"
    and "in_i64 (bs_window spec)" "in_i64 (bs_cooldown spec)"
  shows "fresh_sender (bl_sender b) \<and> sender_ok (bl_sender b) \<and> q_contents (sr_queue (bl_sender b)) = []
    \<and> q_cap (sr_queue (bl_sender b)) = nat (if bs_capacity spec \<le> 0 then 10000 else bs_capacity spec)
    \<and> br_ok (sr_breaker (bl_sender b)) \<and> br_state (sr_breaker (bl_sender b)) = BreakerClosed
    \<and> clean_credential (ep_bearer_token (sr_cfg (bl_sender b)))
    \<and> clean_credential (ep_basic_pass (sr_cfg (bl_sender b)))
    \<and> 0 < pu_interval (bl_pusher b) \<and> 0 < pu_drain_timeout (bl_pusher b) \<and> 0 < hc_timeout (bl_client b)
    \<and> sorted (map l_name (pu_ext (bl_pusher b)))"
  using assms(1)
proof (cases rule: build_Inr_cases)
  case (1 spec' specs' u p t client)
  then have e: "spec' = spec" by simp
  let ?cb = "fst (new_breaker \<lparr>bc_threshold = bs_failure_threshold spec, bc_window = bs_window spec,
    bc_cooldown = bs_cooldown spec\<rparr>)"
  have "br_ok ?cb" by (rule new_breaker_ok) (simp_all add: assms(2,3))
  moreover have "br_state ?cb = BreakerClosed" by (simp add: new_breaker_def)
  moreover have "0 < hc_timeout client"
    using 1(4) e by (auto simp: new_http_client_def Let_def second_def split: if_splits option.splits)
  moreover have "fresh_sender (bl_sender b)" using 1(8) e by (auto simp: fresh_sender_def)
  ultimately show ?thesis
    using 1 e load_creds_clean [OF 1(3)]
    by (simp add: new_queue_ok(2,3) new_sender_run_sel new_sender_ok endpoint_cfg_def new_pusher_def new_labels_def second_def)
qed

text \<open>A successful Build yields a pusher that can run: its sender starts with an empty queue of the
  configured capacity (10000 by default), a well formed closed breaker, and credentials without the
  trailing white space of their files; the intervals and timeouts that Go's tickers and timers need
  are positive, and the external labels are sorted.\<close>

theorem built_sender_is_ready:
  assumes "build rf pem (spec # specs) g fi dt = Inr b"
    and "in_i64 (bs_window spec)" "in_i64 (bs_cooldown spec)"
  shows "fresh_sender (bl_sender b) \<and> sender_ok (bl_sender b) \<and> q_contents (sr_queue (bl_sender b)) = []
    \<and> q_cap (sr_queue (bl_sender b)) = nat (if bs_capacity spec \<le> 0 then 10000 else bs_capacity spec)
    \<and> br_ok (sr_breaker (bl_sender b)) \<and> br_state (sr_breaker (bl_sender b)) = BreakerClosed
    \<and> clean_credential (ep_bearer_token (sr_cfg (bl_sender b)))
    \<and> clean_credential (ep_basic_pass (sr_cfg (bl_sender b)))
    \<and> 0 < pu_interval (bl_pusher b) \<and> 0 < pu_drain_timeout (bl_pusher b) \<and> 0 < hc_timeout (bl_client b)
    \<and> sorted (map l_name (pu_ext (bl_pusher b)))"
  using assms by (rule built_ready)

definition demo_spec :: build_spec where
  "demo_spec = \<lparr>bs_name = [], bs_url = ''https://u:p@h/w'', bs_timeout = 0, bs_max_attempts = 0, bs_max_elapsed = 0,
     bs_initial_backoff = 0, bs_max_backoff = 0, bs_failure_threshold = 0, bs_window = 0, bs_cooldown = 0,
     bs_capacity = 0, bs_tls_ca_file = [], bs_tls_insecure_verify = False, bs_insecure_http = False,
     bs_basic_user = [], bs_basic_pass_file = [], bs_bearer_token_file = ''t'', bs_headers = [],
     bs_external_labels = []\<rparr>"

theorem built_sender_is_ready_witness:
  "q_cap (sr_queue (bl_sender (projr (build (\<lambda>_. Some ''s'') (\<lambda>_. True) [demo_spec] True 0 0)))) = 10000"
proof -
  have "bs_bearer_token_file demo_spec = ''t''" "bs_basic_user demo_spec = []" "bs_tls_ca_file demo_spec = []"
    by (simp_all add: demo_spec_def)
  then have "\<exists>b. build (\<lambda>_. Some ''s'') (\<lambda>_. True) [demo_spec] True 0 0 = Inr b"
    by (simp add: build_def load_creds_def new_http_client_def Let_def split: prod.split)
  then obtain b where b: "build (\<lambda>_. Some ''s'') (\<lambda>_. True) [demo_spec] True 0 0 = Inr b" ..
  have "in_i64 (bs_window demo_spec)" "in_i64 (bs_cooldown demo_spec)" "bs_capacity demo_spec = 0"
    by (simp_all add: demo_spec_def i64_defs)
  with built_sender_is_ready [OF b] b show ?thesis by simp
qed

text \<open>Without a configured name, the \<open>endpoint\<close> label of every self metric is the whole authority of the
  URL: user name and password included, when the URL has them, although the errors that are logged
  have them redacted.\<close>

theorem endpoint_label_is_the_authority:
  assumes "bs_name spec = []" "bs_url spec = scheme @ ''://'' @ authority @ ''/'' @ path"
    and "CHR '':'' \<notin> set scheme" "CHR ''/'' \<notin> set authority"
  shows "endpoint_label spec = authority"
proof -
  have "str_index (bs_url spec) ''://'' = Some (length scheme)"
    using str_index_skip [OF assms(3), of "''//'' @ authority @ ''/'' @ path" "''//''"]
    by (simp add: assms(2) str_index_here)
  moreover have "drop (length scheme + 3) (bs_url spec) = authority @ ''/'' @ path"
    by (simp add: assms(2))
  moreover have "str_index (authority @ ''/'' @ path) ''/'' = Some (length authority)"
    using str_index_skip [OF assms(4), of path "[]"] by (simp add: str_index_here)
  ultimately show ?thesis using assms(1) by (simp add: endpoint_label_def host_from_url_def Let_def)
qed

theorem endpoint_label_is_the_authority_witness:
  "endpoint_label demo_spec = ''u:p@h''"
  by (rule endpoint_label_is_the_authority [where scheme = "''https''" and path = "''w''"])
    (simp_all add: demo_spec_def)

text \<open>The self metrics can be registered beside the exporter's metrics: the names of both sets are
  valid and pairwise distinct, and a registry that has been served once is not registered with again.\<close>

theorem self_metrics_register_safely:
  "set rw_metrics = UNIV \<and> list_all (desc_ok \<circ> rw_desc_of) rw_metrics
   \<and> distinct (map (d_name \<circ> desc_of) all_metrics @ map (d_name \<circ> rw_desc_of) rw_metrics)
   \<and> snd (new_self_metrics (fst (new_self_metrics served fresh reg)) fresh' reg') =
       ((case reg' of None \<Rightarrow> fresh' | Some r \<Rightarrow> r) \<notin> set (fst (new_self_metrics served fresh reg)))
   \<and> \<not> snd (new_self_metrics (fst (new_self_metrics served fresh (Some r))) fresh' (Some r))"
proof (intro conjI)
  show "set rw_metrics = UNIV"
  proof -
    have "m \<in> set rw_metrics" for m by (cases m) (simp_all add: rw_metrics_def)
    then show ?thesis by auto
  qed
  show "list_all (desc_ok \<circ> rw_desc_of) rw_metrics"
    by (simp add: rw_metrics_def rw_desc_def desc_ok_def metric_name_ok_def name_byte_ok buckets_ok_def)
      (simp add: is_digit_def byte_def)
  show "distinct (map (d_name \<circ> desc_of) all_metrics @ map (d_name \<circ> rw_desc_of) rw_metrics)"
    by (simp add: rw_metrics_def rw_desc_def all_metrics_def desc_def)
qed (simp_all add: new_self_metrics_def Let_def)

end
