(* ===== verification/Gpu.thy ===== *)
theory Gpu
  imports Metrics
begin

text \<open>
  \<^verbatim>\<open>internal/gpu/gpu.go\<close> and \<^verbatim>\<open>amdgpu.go\<close>: the metrics of the GPU collectors, the discovery of AMD
  GPUs in sysfs and one poll of their sensors. A path is the list of its components below the sysfs
  base; reading a file is \<open>fs_read\<close> (\<open>None\<close> for an error), and \<open>fs_glob\<close> gives the matches of a
  pattern, as the last components of the paths, or \<open>None\<close> for an error. Calls on the metrics are a
  log, as in \<open>Metrics\<close>.
\<close>

section \<open>Metrics\<close>

datatype gpu_metric =
    GpuUtilization
  | GpuTemperature
  | GpuVRAMUsed
  | GpuVRAMTotal
  | GpuPower
  | GpuClock

primrec gpu_desc_of :: "gpu_metric \<Rightarrow> metric_desc" where
  "gpu_desc_of GpuUtilization = desc Gauge ''gpu_utilization_percent'' [''gpu'', ''name''] NoBuckets"
| "gpu_desc_of GpuTemperature = desc Gauge ''gpu_temperature_celsius'' [''gpu'', ''name''] NoBuckets"
| "gpu_desc_of GpuVRAMUsed = desc Gauge ''gpu_vram_used_bytes'' [''gpu'', ''name''] NoBuckets"
| "gpu_desc_of GpuVRAMTotal = desc Gauge ''gpu_vram_total_bytes'' [''gpu'', ''name''] NoBuckets"
| "gpu_desc_of GpuPower = desc Gauge ''gpu_power_watts'' [''gpu'', ''name''] NoBuckets"
| "gpu_desc_of GpuClock = desc Gauge ''gpu_clock_mhz'' [''gpu'', ''name'', ''type''] NoBuckets"

definition gpu_metrics :: "gpu_metric list" where
  "gpu_metrics = [GpuUtilization, GpuTemperature, GpuVRAMUsed, GpuVRAMTotal, GpuPower, GpuClock]"

datatype gpu_call =
    GSet gpu_metric "string list" fval
  | GDelete gpu_metric "string list"

record gpu_options =
  go_enabled :: bool
  go_poll_interval :: duration
  go_sysfs_base :: string

section \<open>Reading sysfs\<close>

type_synonym path = "string list"
type_synonym file_reader = "path \<Rightarrow> string option"
type_synonym globber = "path \<Rightarrow> string \<Rightarrow> string list option"

definition read_trimmed :: "file_reader \<Rightarrow> path \<Rightarrow> string option" where
  "read_trimmed fs_read p = map_option trim_space (fs_read p)"

definition read_uint64 :: "file_reader \<Rightarrow> path \<Rightarrow> nat option" where
  "read_uint64 fs_read p = (case read_trimmed fs_read p of None \<Rightarrow> None | Some s \<Rightarrow> parse_uint64 s)"

text \<open>
  The clock of the active performance state. The result is \<open>None\<close> where the code returns an error:
  no marked line, or a marked line whose last field is no number. A marked line without a field is
  skipped.
\<close>

definition dpm_line :: "(string \<Rightarrow> string) \<Rightarrow> string \<Rightarrow> int option option" where
  "dpm_line uni line0 =
     (let line = trim_space line0 in
      if \<not> has_suffix line ''*'' then None
      else
        let parts = str_fields (trim_space (trim_suffix line ''*'')) in
        if parts = [] then None
        else Some (atoi (trim_suffix (lower_string uni (last parts)) ''mhz'')))"

fun dpm_lines :: "(string \<Rightarrow> string) \<Rightarrow> string list \<Rightarrow> int option" where
  "dpm_lines uni [] = None"
| "dpm_lines uni (l # ls) = (case dpm_line uni l of None \<Rightarrow> dpm_lines uni ls | Some r \<Rightarrow> r)"

definition parse_dpm_content :: "(string \<Rightarrow> string) \<Rightarrow> string \<Rightarrow> int option" where
  "parse_dpm_content uni content = dpm_lines uni (split_char CHR 0x0A content)"

definition parse_dpm_file :: "(string \<Rightarrow> string) \<Rightarrow> file_reader \<Rightarrow> path \<Rightarrow> int option" where
  "parse_dpm_file uni fs_read p = (case fs_read p of None \<Rightarrow> None | Some data \<Rightarrow> parse_dpm_content uni data)"

section \<open>Discovery\<close>

record device =
  de_index :: int
  de_name :: string
  de_sysfs_path :: path
  de_hwmon_path :: "path option"
  de_vram_total :: nat

text \<open>Every byte of a multi-byte rune is outside the digits, so bytes and runes are checked alike.\<close>

definition is_card_dir :: "string \<Rightarrow> bool" where
  "is_card_dir name \<longleftrightarrow>
     has_prefix name ''card'' \<and> drop 4 name \<noteq> [] \<and> list_all is_digit (drop 4 name)"

definition parse_card_index :: "string \<Rightarrow> int option" where
  "parse_card_index name = atoi (drop 4 name)"

definition resolve_hwmon :: "globber \<Rightarrow> path \<Rightarrow> path option" where
  "resolve_hwmon fs_glob dev_path =
     (case fs_glob (dev_path @ [''hwmon'']) ''hwmon*'' of
        None \<Rightarrow> None
      | Some [] \<Rightarrow> None
      | Some (h # _) \<Rightarrow> Some (dev_path @ [''hwmon'', h]))"

definition discover_device :: "file_reader \<Rightarrow> globber \<Rightarrow> string \<Rightarrow> device list" where
  "discover_device fs_read fs_glob base =
     (if \<not> is_card_dir base then []
      else
        let dev_path = [base, ''device''] in
        if read_trimmed fs_read (dev_path @ [''vendor'']) \<noteq> Some ''0x1002'' then []
        else case parse_card_index base of
          None \<Rightarrow> []
        | Some idx \<Rightarrow>
            [\<lparr>de_index = idx,
              de_name = (case read_trimmed fs_read (dev_path @ [''product_name'']) of
                  None \<Rightarrow> ''amdgpu_card'' @ print_int idx
                | Some pn \<Rightarrow> if pn \<noteq> [] then pn else ''amdgpu_card'' @ print_int idx),
              de_sysfs_path = dev_path,
              de_hwmon_path = resolve_hwmon fs_glob dev_path,
              de_vram_total = (case read_uint64 fs_read (dev_path @ [''mem_info_vram_total'']) of
                  None \<Rightarrow> 0 | Some v \<Rightarrow> v)\<rparr>])"

definition discover_devices :: "file_reader \<Rightarrow> globber \<Rightarrow> device list option" where
  "discover_devices fs_read fs_glob =
     map_option (\<lambda>entries. concat (map (discover_device fs_read fs_glob) entries)) (fs_glob [] ''card*'')"

record gpu_collector =
  gp_options :: gpu_options
  gp_devices :: "device list"

definition new_gpu_collector :: "file_reader \<Rightarrow> globber \<Rightarrow> gpu_options \<Rightarrow> gpu_collector" where
  "new_gpu_collector fs_read fs_glob cfg =
     \<lparr>gp_options = cfg
        \<lparr>go_sysfs_base := (if go_sysfs_base cfg = [] then ''/sys/class/drm'' else go_sysfs_base cfg),
         go_poll_interval := (if go_poll_interval cfg \<le> 0 then 15 * second else go_poll_interval cfg)\<rparr>,
      gp_devices = (case discover_devices fs_read fs_glob of None \<Rightarrow> [] | Some ds \<Rightarrow> ds)\<rparr>"

section \<open>One poll\<close>

definition gauge_of :: "gpu_metric \<Rightarrow> string list \<Rightarrow> fval option \<Rightarrow> gpu_call list" where
  "gauge_of m ls v = (case v of None \<Rightarrow> [] | Some x \<Rightarrow> [GSet m ls x])"

definition hwmon_read :: "file_reader \<Rightarrow> device \<Rightarrow> string \<Rightarrow> nat option" where
  "hwmon_read fs_read d f =
     (case de_hwmon_path d of None \<Rightarrow> None | Some h \<Rightarrow> read_uint64 fs_read (h @ [f]))"

definition collect_device :: "(string \<Rightarrow> string) \<Rightarrow> file_reader \<Rightarrow> device \<Rightarrow> gpu_call list" where
  "collect_device uni fs_read d =
     (let ls = [print_int (de_index d), de_name d];
          file = (\<lambda>f. de_sysfs_path d @ [f]);
          whole = map_option (\<lambda>v. FInt (int v));
          scaled = (\<lambda>k. map_option (\<lambda>v. FDiv (FInt (int v)) (FInt k)));
          power = (case hwmon_read fs_read d ''power1_average'' of
                     Some v \<Rightarrow> Some v
                   | None \<Rightarrow> hwmon_read fs_read d ''power1_input'')
      in gauge_of GpuUtilization ls (whole (read_uint64 fs_read (file ''gpu_busy_percent'')))
         @ gauge_of GpuTemperature ls (scaled 1000 (hwmon_read fs_read d ''temp1_input''))
         @ gauge_of GpuVRAMUsed ls (whole (read_uint64 fs_read (file ''mem_info_vram_used'')))
         @ (if de_vram_total d > 0 then [GSet GpuVRAMTotal ls (FInt (int (de_vram_total d)))] else [])
         @ gauge_of GpuPower ls (scaled 1000000 power)
         @ gauge_of GpuClock (ls @ [''gpu'']) (map_option FInt (parse_dpm_file uni fs_read (file ''pp_dpm_sclk'')))
         @ gauge_of GpuClock (ls @ [''memory'']) (map_option FInt (parse_dpm_file uni fs_read (file ''pp_dpm_mclk''))))"

definition gpu_collect :: "(string \<Rightarrow> string) \<Rightarrow> file_reader \<Rightarrow> gpu_collector \<Rightarrow> gpu_call list" where
  "gpu_collect uni fs_read c = concat (map (collect_device uni fs_read) (gp_devices c))"

text \<open>
  \<open>Start\<close>: nothing when disabled or without devices; otherwise one poll at once and one per tick
  until the context ends. \<open>views\<close> is the state of sysfs at each poll.
\<close>

definition gpu_start :: "(string \<Rightarrow> string) \<Rightarrow> file_reader list \<Rightarrow> gpu_collector \<Rightarrow> gpu_call list" where
  "gpu_start uni views c =
     (if \<not> go_enabled (gp_options c) \<or> gp_devices c = [] then []
      else concat (map (\<lambda>fs_read. gpu_collect uni fs_read c) views))"

section \<open>Properties\<close>

definition gpu_call_ok :: "gpu_call \<Rightarrow> bool" where
  "gpu_call_ok c = (case c of
       GSet m ls _ \<Rightarrow> length ls = length (d_labels (gpu_desc_of m))
     | GDelete m ls \<Rightarrow> length ls = length (d_labels (gpu_desc_of m)))"

lemma gauge_of_ok: "length ls = length (d_labels (gpu_desc_of m)) \<Longrightarrow> list_all gpu_call_ok (gauge_of m ls v)"
  by (simp add: gauge_of_def gpu_call_ok_def split: option.split)

lemma collect_device_ok: "list_all gpu_call_ok (collect_device uni fs_read d)"
  by (simp add: collect_device_def Let_def gauge_of_ok desc_def) (simp add: gpu_call_ok_def desc_def)

lemma card_index:
  assumes "is_card_dir name"
  shows "parse_card_index name =
    (if int (digits_val (drop 4 name)) \<le> max_i64 then Some (int (digits_val (drop 4 name))) else None)"
proof -
  have d: "drop 4 name \<noteq> []" "list_all is_digit (drop 4 name)" using assms by (simp_all add: is_card_dir_def)
  then have "\<not> has_prefix (drop 4 name) ''-''" "\<not> has_prefix (drop 4 name) ''+''"
    using digit_not_sign [of "hd (drop 4 name)"] by (cases "drop 4 name"; auto)+
  with d show ?thesis by (simp add: parse_card_index_def atoi_def Let_def in_i64_def min_i64_def)
qed

lemma discovered_device:
  "discover_device fs_read fs_glob base \<noteq> [] \<longleftrightarrow> is_card_dir base
     \<and> read_trimmed fs_read [base, ''device'', ''vendor''] = Some ''0x1002''
     \<and> int (digits_val (drop 4 base)) \<le> max_i64"
  "d \<in> set (discover_device fs_read fs_glob base) \<Longrightarrow> de_sysfs_path d = [base, ''device'']
     \<and> de_name d \<noteq> [] \<and> de_index d = int (digits_val (drop 4 base))"
  by (auto simp: discover_device_def Let_def card_index split: if_splits option.splits)

lemma collector_devices:
  "fs_glob [] ''card*'' = Some entries \<Longrightarrow>
     gp_devices (new_gpu_collector fs_read fs_glob cfg) = concat (map (discover_device fs_read fs_glob) entries)"
  by (simp add: new_gpu_collector_def discover_devices_def)


text \<open>A machine with one AMD card, its connector directory and a card of another vendor.\<close>

definition demo_fs :: file_reader where
  "demo_fs p = (if p = [''card1'', ''device'', ''vendor''] then Some ''0x1002''
     else if p = [''card0'', ''device'', ''vendor''] then Some ''0x8086'' else None)"

definition demo_glob :: globber where
  "demo_glob p pat = (if p = [] then Some [''card0'', ''card1'', ''card1-DP-1''] else None)"

lemma card1_dir: "is_card_dir ''card1''"
  by (simp add: is_card_dir_def is_digit_def byte_def)


text \<open>No call of any run of the GPU collector has the wrong number of labels, which would panic; the calls
  carry the index and the name of a discovered device, and there are none when the collector is
  disabled.\<close>

theorem gpu_calls_well_formed:
  "list_all gpu_call_ok (gpu_start uni views c)
   \<and> (\<forall>m ls v. GSet m ls v \<in> set (gpu_start uni views c) \<longrightarrow> go_enabled (gp_options c)
        \<and> (\<exists>d \<in> set (gp_devices c). take 2 ls = [print_int (de_index d), de_name d]))"
proof
  show "list_all gpu_call_ok (gpu_start uni views c)"
    using collect_device_ok by (auto simp: gpu_start_def gpu_collect_def list_all_iff)
  have "take 2 ls = [print_int (de_index d), de_name d]" if "GSet m ls v \<in> set (collect_device uni fs_read d)"
    for m ls v fs_read d
    using that by (auto simp: collect_device_def Let_def gauge_of_def split: option.splits if_splits)
  then show "\<forall>m ls v. GSet m ls v \<in> set (gpu_start uni views c) \<longrightarrow> go_enabled (gp_options c)
      \<and> (\<exists>d \<in> set (gp_devices c). take 2 ls = [print_int (de_index d), de_name d])"
    by (auto simp: gpu_start_def gpu_collect_def split: if_splits)
qed

section \<open>Clocks\<close>

text \<open>A performance state table as the driver prints it, with one state marked as active.\<close>

definition dpm_state :: "nat \<Rightarrow> nat \<Rightarrow> bool \<Rightarrow> string" where
  "dpm_state i mhz active = itoa i @ '': '' @ itoa mhz @ ''Mhz'' @ (if active then '' *'' else [])"

definition dpm_table :: "nat list \<Rightarrow> nat \<Rightarrow> string list" where
  "dpm_table clocks active = map (\<lambda>i. dpm_state i (clocks ! i) (i = active)) [0..<length clocks]"

lemma digit_visible: "is_digit c \<Longrightarrow> visible c"
  by (simp add: is_digit_def visible_def)

lemma itoa_visible: "list_all visible (itoa n)" "itoa n \<noteq> []" "visible (hd (itoa n))"
  using itoa_digits [of n] by (auto simp: list_all_iff digit_visible)

lemma letters_visible: "visible CHR ''M''" "visible CHR ''h''" "visible CHR ''z''" "visible CHR '':''" "visible CHR ''*''"
  by (simp_all add: visible_def byte_def)

lemma last_suffix: "has_suffix (s @ [c]) [d] \<longleftrightarrow> c = d"
  by (simp add: has_suffix_def)

lemma dpm_line_inactive: "dpm_line uni (dpm_state i mhz False) = None"
proof -
  let ?l = "itoa i @ '': '' @ itoa mhz @ ''Mhz''"
  have "trim_space ?l = ?l" using itoa_visible by (intro trim_space_visible) (simp_all add: letters_visible)
  moreover have "\<not> has_suffix (itoa i @ '': '' @ itoa mhz @ ''Mhz'') ''*''"
    using last_suffix [of "itoa i @ '': '' @ itoa mhz @ ''Mh''" "CHR ''z''" "CHR ''*''"] by simp
  ultimately show ?thesis by (simp add: dpm_line_def dpm_state_def Let_def)
qed

lemma lower_mhz: "to_lower CHR ''M'' = CHR ''m''" "to_lower CHR ''h'' = CHR ''h''" "to_lower CHR ''z'' = CHR ''z''"
  by (simp_all add: to_lower_def is_upper_def byte_def) code_simp

lemma lower_digits: "list_all is_digit ds \<Longrightarrow> map to_lower ds = ds"
  by (induction ds) (auto simp: to_lower_def is_digit_def is_upper_def)

lemma dpm_line_active:
  assumes "int mhz \<le> max_i64"
  shows "dpm_line uni (dpm_state i mhz True) = Some (Some (int mhz))"
proof -
  let ?w = "itoa i @ '': '' @ itoa mhz @ ''Mhz''"
  have w: "?w \<noteq> []" "visible (hd ?w)" "visible (last ?w)" using itoa_visible by (simp_all add: letters_visible)
  have t: "trim_space (?w @ '' *'') = ?w @ '' *''"
    using itoa_visible by (intro trim_space_visible) (simp_all add: letters_visible)
  have s: "trim_suffix (?w @ '' *'') ''*'' = ?w @ '' ''" "has_suffix (?w @ '' *'') ''*''"
    using trim_suffix_append [of "?w @ '' ''" "''*''"] last_suffix [of "?w @ '' ''" "CHR ''*''" "CHR ''*''"] by simp_all
  have v: "list_all visible (itoa i @ '':'')" "list_all visible (itoa mhz @ ''Mhz'')"
    using itoa_visible by (simp_all add: letters_visible)
  have f: "str_fields ?w = [itoa i @ '':'', itoa mhz @ ''Mhz'']"
    using fields_from_blank [OF v(1), of "[]" "itoa mhz @ ''Mhz''"] fields_from_word [OF v(2), of "[]"]
    by (simp add: str_fields_def)
  have "list_all (\<lambda>c. byte c < 128) (itoa mhz @ ''Mhz'')"
    using v(2) by (auto simp: list_all_iff visible_def)
  then have "lower_string uni (itoa mhz @ ''Mhz'') = map to_lower (itoa mhz) @ ''mhz''"
    by (simp add: lower_string_def lower_mhz)
  then have "lower_string uni (itoa mhz @ ''Mhz'') = itoa mhz @ ''mhz''"
    using itoa_digits [of mhz] by (simp add: lower_digits)
  then have "atoi (trim_suffix (lower_string uni (last (str_fields ?w))) ''mhz'') = Some (int mhz)"
    using atoi_itoa [OF assms] f by simp
  then show ?thesis
    using t s f trim_space_after [OF w] by (simp add: dpm_line_def dpm_state_def Let_def)
qed

lemma dpm_lines_append:
  "(\<forall>l \<in> set xs. dpm_line uni l = None) \<Longrightarrow> dpm_lines uni (xs @ ys) = dpm_lines uni ys"
  by (induction xs) simp_all

text \<open>C24. The clock reported is the one of the active state: for any table of states that the driver prints,
  with one of them marked, parsing yields exactly the clock of the marked state.\<close>

theorem active_clock_roundtrip:
  assumes "active < length clocks" "int (clocks ! active) \<le> max_i64"
  shows "parse_dpm_content uni (join_lines (dpm_table clocks active)) = Some (int (clocks ! active))"
proof -
  have nl: "CHR 0x0A \<notin> set (dpm_state i m a)" for i m a
  proof -
    have "CHR 0x0A \<notin> set (itoa n)" for n
      using itoa_visible(1) [of n] by (auto simp: list_all_iff visible_def byte_def)
    then show ?thesis by (simp add: dpm_state_def)
  qed
  let ?st = "\<lambda>i. dpm_state i (clocks ! i) (i = active)"
  have u: "[0..<length clocks] = [0..<active] @ active # [Suc active..<length clocks]"
    using upt_add_eq_append [of 0 active "length clocks - active"] upt_conv_Cons [OF assms(1)] assms(1) by simp
  have "split_char CHR 0x0A (join_lines (dpm_table clocks active)) = dpm_table clocks active @ [[]]"
    by (rule split_char_join) (auto simp: dpm_table_def nl)
  also have "\<dots> = map ?st [0..<active] @ ?st active # map ?st [Suc active..<length clocks] @ [[]]"
    unfolding dpm_table_def u by simp
  finally have "parse_dpm_content uni (join_lines (dpm_table clocks active)) =
      dpm_lines uni (map ?st [0..<active] @ ?st active # map ?st [Suc active..<length clocks] @ [[]])"
    by (simp add: parse_dpm_content_def)
  also have "\<dots> = dpm_lines uni (?st active # map ?st [Suc active..<length clocks] @ [[]])"
    by (rule dpm_lines_append) (auto simp: dpm_line_inactive)
  also have "\<dots> = Some (int (clocks ! active))" using dpm_line_active [OF assms(2)] by simp
  finally show ?thesis .
qed

theorem active_clock_roundtrip_witness:
  "parse_dpm_content id (join_lines (dpm_table [300, 1000, 1750] 1)) = Some 1000"
  using active_clock_roundtrip [of 1 "[300, 1000, 1750]" id] by (simp add: max_i64_def)

end
