(* ===== verification/AppleGpu.thy ===== *)
theory AppleGpu
  imports Gpu
begin

text \<open>
  \<^verbatim>\<open>internal/gpu/ioreg.go\<close>, \<^verbatim>\<open>applepoll.go\<close> and \<^verbatim>\<open>applegpu.go\<close>: the macOS backend. The two regular
  expressions are a key in double quotes, an equals sign between optional white space, and a run of
  digits; the leftmost match counts and the runs are maximal. The output of \<open>ioreg\<close> at each poll and
  of \<open>sysctl\<close> at startup (\<open>None\<close> for an error) are inputs. A log line keeps its level only.
\<close>

section \<open>The output of ioreg\<close>

definition re_space :: "char \<Rightarrow> bool" where
  "re_space c \<longleftrightarrow> c \<in> set [CHR 0x09, CHR 0x0A, CHR 0x0C, CHR 0x0D, CHR 0x20]"

text \<open>A match at the start of the text: the digits of the group.\<close>

definition match_here :: "string \<Rightarrow> string \<Rightarrow> string option" where
  "match_here key s =
     (if \<not> has_prefix s key then None
      else
        let r = dropWhile re_space (drop (length key) s) in
        if r = [] \<or> hd r \<noteq> CHR ''='' then None
        else
          let ds = takeWhile is_digit (dropWhile re_space (tl r)) in
          if ds = [] then None else Some ds)"

fun find_submatch :: "string \<Rightarrow> string \<Rightarrow> string option" where
  "find_submatch key s =
     (case match_here key s of
        Some ds \<Rightarrow> Some ds
      | None \<Rightarrow> (case s of [] \<Rightarrow> None | _ # cs \<Rightarrow> find_submatch key cs))"

declare find_submatch.simps [simp del]

definition util_key :: string where
  "util_key = [CHR 0x22] @ ''Device Utilization %'' @ [CHR 0x22]"

definition mem_key :: string where
  "mem_key = [CHR 0x22] @ ''In use system memory'' @ [CHR 0x22]"

text \<open>
  \<open>strconv.ParseFloat\<close> of digits: an error for a number that rounds to infinity; the value is the
  conversion of the number.
\<close>

definition parse_float_digits :: "string \<Rightarrow> nat option" where
  "parse_float_digits ds = (if 2 ^ 1024 - 2 ^ 970 \<le> digits_val ds then None else Some (digits_val ds))"

record io_accel_stats =
  ia_utilization :: nat
  ia_in_use_memory :: "nat option"

definition parse_io_accelerator :: "string \<Rightarrow> io_accel_stats option" where
  "parse_io_accelerator raw =
     (case find_submatch util_key raw of
        None \<Rightarrow> None
      | Some u \<Rightarrow>
          (case parse_float_digits u of
             None \<Rightarrow> None
           | Some util \<Rightarrow>
               Some \<lparr>ia_utilization = util,
                     ia_in_use_memory = (case find_submatch mem_key raw of
                         None \<Rightarrow> None
                       | Some ds \<Rightarrow> parse_uint64 ds)\<rparr>))"

section \<open>The sampler\<close>

datatype log_level = LWarn | LInfo | LDebug

text \<open>The memory total is 0 when it is unknown.\<close>

record apple_sampler =
  as_name :: string
  as_total :: nat
  as_healthy :: bool
  as_polled :: bool

definition apple_labels :: "apple_sampler \<Rightarrow> string list" where
  "apple_labels s = [''0'', as_name s]"

definition mark_unhealthy :: "apple_sampler \<Rightarrow> apple_sampler \<times> gpu_call list \<times> log_level list" where
  "mark_unhealthy s =
     (s\<lparr>as_healthy := False, as_polled := True\<rparr>,
      [GDelete GpuUtilization (apple_labels s), GDelete GpuVRAMUsed (apple_labels s)],
      [if as_healthy s \<or> \<not> as_polled s then LWarn else LDebug])"

definition apple_poll ::
    "string option \<Rightarrow> apple_sampler \<Rightarrow> bool \<times> apple_sampler \<times> gpu_call list \<times> log_level list" where
  "apple_poll out s =
     (case out of
        None \<Rightarrow> (False, mark_unhealthy s)
      | Some raw \<Rightarrow>
          (case parse_io_accelerator raw of
             None \<Rightarrow> (False, mark_unhealthy s)
           | Some stats \<Rightarrow>
               (True, s\<lparr>as_healthy := True, as_polled := True\<rparr>,
                [GSet GpuUtilization (apple_labels s) (FInt (int (ia_utilization stats)))]
                @ (case ia_in_use_memory stats of
                     Some n \<Rightarrow> [GSet GpuVRAMUsed (apple_labels s) (FInt (int n))]
                   | None \<Rightarrow> [GDelete GpuVRAMUsed (apple_labels s)])
                @ (if as_total s > 0 then [GSet GpuVRAMTotal (apple_labels s) (FInt (int (as_total s)))] else []),
                (if \<not> as_healthy s then [LInfo] else []))))"

fun apple_run :: "string option list \<Rightarrow> apple_sampler \<Rightarrow> apple_sampler \<times> gpu_call list \<times> log_level list" where
  "apple_run [] s = (s, [], [])"
| "apple_run (out # outs) s =
     (let (ok, s1, cs, ls) = apple_poll out s;
          (s2, cs', ls') = apple_run outs s1
      in (s2, cs @ cs', ls @ ls'))"

section \<open>Construction\<close>

type_synonym sysctl = "string \<Rightarrow> string option"

definition sysctl_string :: "sysctl \<Rightarrow> string \<Rightarrow> string" where
  "sysctl_string ctl key = (case ctl key of None \<Rightarrow> [] | Some out \<Rightarrow> trim_space out)"

definition is_apple_silicon :: "sysctl \<Rightarrow> bool" where
  "is_apple_silicon ctl \<longleftrightarrow> sysctl_string ctl ''hw.optional.arm64'' = ''1''"

definition apple_chip_name :: "sysctl \<Rightarrow> string" where
  "apple_chip_name ctl =
     (let v = sysctl_string ctl ''machdep.cpu.brand_string'' in if v \<noteq> [] then v else ''Apple GPU'')"

definition apple_unified_memory :: "sysctl \<Rightarrow> nat" where
  "apple_unified_memory ctl =
     (let v = sysctl_string ctl ''hw.memsize'' in
      if v = [] then 0 else case parse_uint64 v of None \<Rightarrow> 0 | Some n \<Rightarrow> n)"

record apple_collector =
  ac_options :: gpu_options
  ac_silicon :: bool
  ac_sampler :: apple_sampler

definition new_apple_collector :: "sysctl \<Rightarrow> gpu_options \<Rightarrow> apple_collector" where
  "new_apple_collector ctl cfg =
     \<lparr>ac_options = cfg\<lparr>go_poll_interval :=
        (if go_poll_interval cfg \<le> 0 then 15 * second else go_poll_interval cfg)\<rparr>,
      ac_silicon = is_apple_silicon ctl,
      ac_sampler = \<lparr>as_name = apple_chip_name ctl, as_total = apple_unified_memory ctl,
        as_healthy = False, as_polled = False\<rparr>\<rparr>"

text \<open>\<open>Start\<close>, with the outputs of the polls until the context ends.\<close>

definition apple_start :: "string option list \<Rightarrow> apple_collector \<Rightarrow> gpu_call list \<times> log_level list" where
  "apple_start outs c =
     (if \<not> go_enabled (ac_options c) \<or> \<not> ac_silicon c then ([], [])
      else snd (apple_run outs (ac_sampler c)))"

section \<open>The series that are exposed\<close>

text \<open>The value of a series after the calls; \<open>None\<close> when the series is absent.\<close>

fun exposed :: "gpu_metric \<Rightarrow> string list \<Rightarrow> gpu_call list \<Rightarrow> fval option \<Rightarrow> fval option" where
  "exposed m ls [] v = v"
| "exposed m ls (GSet m' ls' x # cs) v = exposed m ls cs (if m' = m \<and> ls' = ls then Some x else v)"
| "exposed m ls (GDelete m' ls' # cs) v = exposed m ls cs (if m' = m \<and> ls' = ls then None else v)"

lemma exposed_append [simp]: "exposed m ls (xs @ ys) v = exposed m ls ys (exposed m ls xs v)"
  by (induction m ls xs v rule: exposed.induct) simp_all

text \<open>What one poll should leave exposed.\<close>

definition poll_stats :: "string option \<Rightarrow> io_accel_stats option" where
  "poll_stats out = (case out of None \<Rightarrow> None | Some raw \<Rightarrow> parse_io_accelerator raw)"

definition memory_reading :: "string option \<Rightarrow> nat option" where
  "memory_reading out = (case poll_stats out of None \<Rightarrow> None | Some st \<Rightarrow> ia_in_use_memory st)"

lemma apple_poll_exposes:
  assumes "apple_poll out s = (ok, s', cs, ls)"
  shows "exposed GpuUtilization (apple_labels s) cs v =
      map_option (\<lambda>st. FInt (int (ia_utilization st))) (poll_stats out)"
    and "exposed GpuVRAMUsed (apple_labels s) cs v = map_option (\<lambda>n. FInt (int n)) (memory_reading out)"
    and "exposed GpuVRAMTotal (apple_labels s) cs v =
      (if poll_stats out \<noteq> None \<and> as_total s > 0 then Some (FInt (int (as_total s))) else v)"
    and "as_name s' = as_name s" "as_total s' = as_total s" "as_polled s'" "as_healthy s' = (poll_stats out \<noteq> None)"
    and "ok = (poll_stats out \<noteq> None)"
    and "ls = (if poll_stats out = None then [if as_healthy s \<or> \<not> as_polled s then LWarn else LDebug]
               else if \<not> as_healthy s then [LInfo] else [])"
  using assms
  by (auto simp: apple_poll_def mark_unhealthy_def poll_stats_def memory_reading_def apple_labels_def
      split: option.splits if_splits)

lemma apple_run_exposes:
  "apple_run outs s = (s', cs, ls) \<Longrightarrow> outs \<noteq> [] \<Longrightarrow>
   exposed GpuUtilization (apple_labels s) cs v = map_option (\<lambda>st. FInt (int (ia_utilization st))) (poll_stats (last outs))
   \<and> exposed GpuVRAMUsed (apple_labels s) cs v' = map_option (\<lambda>n. FInt (int n)) (memory_reading (last outs))
   \<and> exposed GpuVRAMTotal (apple_labels s) cs u =
       (if (\<exists>out \<in> set outs. poll_stats out \<noteq> None) \<and> as_total s > 0 then Some (FInt (int (as_total s))) else u)"
proof (induction outs arbitrary: s cs ls v v' u)
  case (Cons out outs)
  obtain ok s1 cs1 ls1 where p: "apple_poll out s = (ok, s1, cs1, ls1)" by (metis prod_cases4)
  obtain cs2 ls2 where r: "apple_run outs s1 = (s', cs2, ls2)" and cs: "cs = cs1 @ cs2"
    using Cons.prems(1) p by (auto split: prod.splits)
  note e = apple_poll_exposes [OF p]
  have l: "apple_labels s1 = apple_labels s" using e(4) by (simp add: apple_labels_def)
  show ?case
  proof (cases "outs = []")
    case True
    with r e cs show ?thesis by simp
  next
    case False
    show ?thesis using Cons.IH [OF r False, unfolded l] e(3,5) False by (simp add: cs)
  qed
qed simp

text \<open>C21. A broken probe shows up as absent data: whatever happened before, after any number of polls the
  utilization and memory series hold the reading of the last poll, and are absent when that poll
  failed (the memory also when its key was missing); the total, once exposed, stays.\<close>

theorem no_frozen_readings:
  assumes "outs \<noteq> []" "go_enabled (ac_options c)" "ac_silicon c"
  shows "let cs = fst (apple_start outs c); ls = apple_labels (ac_sampler c) in
    exposed GpuUtilization ls cs v = map_option (\<lambda>st. FInt (int (ia_utilization st))) (poll_stats (last outs))
    \<and> exposed GpuVRAMUsed ls cs v' = map_option (\<lambda>n. FInt (int n)) (memory_reading (last outs))
    \<and> exposed GpuVRAMTotal ls cs None =
        (if (\<exists>out \<in> set outs. poll_stats out \<noteq> None) \<and> as_total (ac_sampler c) > 0
         then Some (FInt (int (as_total (ac_sampler c)))) else None)"
proof -
  obtain s' cs ls where r: "apple_run outs (ac_sampler c) = (s', cs, ls)" by (metis prod_cases3)
  with assms(2,3) have "fst (apple_start outs c) = cs" by (simp add: apple_start_def)
  with apple_run_exposes [OF r assms(1), of v v' None] show ?thesis by (simp add: Let_def)
qed

definition demo_apple :: apple_collector where
  "demo_apple = new_apple_collector (\<lambda>key. if key = ''hw.optional.arm64'' then Some ''1'' else None)
     \<lparr>go_enabled = True, go_poll_interval = 0, go_sysfs_base = []\<rparr>"

lemma demo_apple_on: "go_enabled (ac_options demo_apple)" "ac_silicon demo_apple"
proof -
  have "trim_space ''1'' = ''1''" by (rule trim_space_visible) (simp_all add: visible_def byte_def)
  then show "go_enabled (ac_options demo_apple)" "ac_silicon demo_apple"
    by (simp_all add: demo_apple_def new_apple_collector_def is_apple_silicon_def sysctl_string_def)
qed

theorem no_frozen_readings_witness:
  "exposed GpuUtilization (apple_labels (ac_sampler demo_apple)) (fst (apple_start [Some [], None] demo_apple)) (Some (FInt 7)) = None"
  using no_frozen_readings [of "[Some [], None]" demo_apple "Some (FInt 7)" None] demo_apple_on
  by (simp add: Let_def poll_stats_def)

section \<open>Logging\<close>

lemma apple_run_log:
  "apple_run outs s = (s', cs, ls) \<Longrightarrow> as_polled s \<or> \<not> as_healthy s \<Longrightarrow>
   distinct_adj (filter (\<lambda>l. l \<noteq> LDebug) ls) \<and>
   (as_polled s \<longrightarrow> filter (\<lambda>l. l \<noteq> LDebug) ls \<noteq> [] \<longrightarrow>
      hd (filter (\<lambda>l. l \<noteq> LDebug) ls) = (if as_healthy s then LWarn else LInfo))"
proof (induction outs arbitrary: s cs ls)
  case (Cons out outs)
  obtain ok s1 cs1 ls1 where p: "apple_poll out s = (ok, s1, cs1, ls1)" by (metis prod_cases4)
  obtain cs2 ls2 where r: "apple_run outs s1 = (s', cs2, ls2)" and ls: "ls = ls1 @ ls2"
    using Cons.prems(1) p by (auto split: prod.splits)
  note e = apple_poll_exposes [OF p]
  have "as_polled s1 \<or> \<not> as_healthy s1" using e(6) by simp
  from Cons.IH [OF r this] e(6,7,9) Cons.prems(2) show ?case
    by (cases "filter (\<lambda>l. l \<noteq> LDebug) ls2") (auto simp: ls split: if_splits)
qed simp

text \<open>State changes are logged once: whatever the sequence of polls, warnings of an outage and notices of
  a recovery alternate; repeated failures only appear at debug level.\<close>

theorem outages_logged_once:
  "distinct_adj (filter (\<lambda>l. l \<noteq> LDebug) (snd (apple_start outs (new_apple_collector ctl cfg))))"
proof -
  let ?c = "new_apple_collector ctl cfg"
  obtain s' cs ls where r: "apple_run outs (ac_sampler ?c) = (s', cs, ls)" by (metis prod_cases3)
  have "\<not> as_healthy (ac_sampler ?c)" by (simp add: new_apple_collector_def)
  with apple_run_log [OF r] r show ?thesis by (simp add: apple_start_def)
qed

section \<open>Reading the keys\<close>

lemma find_submatch_skip:
  "match_here key (c # s) = None \<Longrightarrow> find_submatch key (c # s) = find_submatch key s"
  by (subst find_submatch.simps) simp

lemma find_submatch_here: "match_here key s = Some ds \<Longrightarrow> find_submatch key s = Some ds"
  by (subst find_submatch.simps) simp

lemma find_submatch_run:
  "(\<forall>c \<in> set w. c \<noteq> CHR 0x22) \<Longrightarrow> find_submatch (CHR 0x22 # k) (w @ s) = find_submatch (CHR 0x22 # k) s"
proof (induction w)
  case (Cons c w)
  then have "match_here (CHR 0x22 # k) (c # w @ s) = None" by (simp add: match_here_def)
  with Cons show ?case by (simp add: find_submatch_skip)
qed simp

lemma find_submatch_prefix:
  "\<forall>i < length a. \<not> has_prefix (drop i (a @ t)) key \<Longrightarrow> find_submatch key (a @ t) = find_submatch key t"
proof (induction a)
  case (Cons c a)
  have "\<forall>i < length a. \<not> has_prefix (drop i (a @ t)) key"
  proof (intro allI impI)
    fix i assume "i < length a"
    with Cons.prems [rule_format, of "Suc i"] show "\<not> has_prefix (drop i (a @ t)) key" by simp
  qed
  moreover have "match_here key (c # a @ t) = None" using Cons.prems by (auto simp: match_here_def)
  ultimately show ?case using Cons.IH find_submatch_skip by simp
qed simp

definition driver_key :: string where
  "driver_key = [CHR 0x22] @ ''In use system memory (driver)'' @ [CHR 0x22]"

lemma takeWhile_digits:
  "list_all is_digit ds \<Longrightarrow> rest = [] \<or> \<not> is_digit (hd rest) \<Longrightarrow> takeWhile is_digit (ds @ rest) = ds"
  by (cases rest) (simp_all add: list_all_iff takeWhile_append)

text \<open>The memory in use is read from its own key: an entry of the driver's key before it, whose name
  starts the same, is not taken for it, and the value is the whole number.\<close>

theorem driver_memory_is_not_matched:
  assumes "\<forall>i < length a. \<not> has_prefix (drop i raw) mem_key" "CHR 0x22 \<notin> set b" "n \<le> 18446744073709551615"
    and "rest = [] \<or> \<not> is_digit (hd rest)"
    and "raw = a @ driver_key @ ''='' @ b @ mem_key @ ''='' @ itoa n @ rest"
    and "parse_io_accelerator raw = Some st"
  shows "ia_in_use_memory st = Some n"
proof -
  let ?t = "mem_key @ ''='' @ itoa n @ rest" and ?b = "CHR ''='' # b"
  have d: "list_all is_digit (itoa n)" "itoa n \<noteq> []" "digits_val (itoa n) = n" using itoa_digits by auto
  have sp: "\<not> re_space (hd (itoa n))" using d(1,2) by (cases "itoa n") (auto simp: re_space_def is_digit_def byte_def)
  then have "dropWhile re_space (itoa n @ rest) = itoa n @ rest" using d(2) by (cases "itoa n") auto
  then have "match_here mem_key ?t = Some (itoa n)"
    using takeWhile_digits [OF d(1) assms(4)] d(2)
    by (simp add: match_here_def Let_def) (simp add: re_space_def)
  then have t: "find_submatch mem_key ?t = Some (itoa n)" by (rule find_submatch_here)
  have m: "mem_key = CHR 0x22 # ''In use system memory'' @ [CHR 0x22]" by (simp add: mem_key_def)
  have "find_submatch mem_key raw = find_submatch mem_key (driver_key @ ?b @ ?t)"
    using find_submatch_prefix [of a "driver_key @ ?b @ ?t" mem_key] assms(1,5) by simp
  also have "\<dots> = find_submatch mem_key (''In use system memory (driver)'' @ CHR 0x22 # ?b @ ?t)"
    using find_submatch_skip [of mem_key "CHR 0x22" "''In use system memory (driver)'' @ CHR 0x22 # ?b @ ?t"]
    by (simp add: driver_key_def match_here_def mem_key_def)
  also have "\<dots> = find_submatch mem_key (CHR 0x22 # ?b @ ?t)"
    using find_submatch_run [of "''In use system memory (driver)''" "''In use system memory'' @ [CHR 0x22]" "CHR 0x22 # ?b @ ?t"]
    by (simp add: m)
  also have "\<dots> = find_submatch mem_key (?b @ ?t)"
  proof (rule find_submatch_skip)
    show "match_here mem_key (CHR 0x22 # ?b @ ?t) = None"
      by (simp add: match_here_def mem_key_def)
  qed
  also have "\<dots> = find_submatch mem_key ?t"
    using find_submatch_run [of ?b "''In use system memory'' @ [CHR 0x22]" ?t] assms(2) by (auto simp: m)
  finally have "find_submatch mem_key raw = Some (itoa n)" using t by simp
  moreover have "parse_uint64 (itoa n) = Some n" using d assms(3) by (simp add: parse_uint64_def)
  ultimately show ?thesis using assms(6)
    by (auto simp: parse_io_accelerator_def split: option.splits)
qed

definition demo_raw :: string where
  "demo_raw = util_key @ ''=5,'' @ driver_key @ ''=0,'' @ mem_key @ ''=7''"

theorem driver_memory_is_not_matched_witness:
  "\<exists>st. parse_io_accelerator demo_raw = Some st \<and> ia_in_use_memory st = Some 7"
proof -
  have "match_here util_key demo_raw = Some ''5''"
    by (simp add: match_here_def demo_raw_def util_key_def re_space_def is_digit_def byte_def Let_def)
  then have "find_submatch util_key demo_raw = Some ''5''" by (rule find_submatch_here)
  moreover have "parse_float_digits ''5'' = Some 5"
    by (simp add: parse_float_digits_def digits_val_def digit_val_def byte_def)
  ultimately obtain st where st: "parse_io_accelerator demo_raw = Some st"
    by (simp add: parse_io_accelerator_def)
  have "\<forall>i \<in> set [0..<length (util_key @ ''=5,'')]. \<not> has_prefix (drop i demo_raw) mem_key"
    by (simp add: demo_raw_def util_key_def mem_key_def driver_key_def upt_rec)
  then have a: "\<forall>i < length (util_key @ ''=5,''). \<not> has_prefix (drop i demo_raw) mem_key"
    by (simp only: set_upt) simp
  have "itoa 7 = ''7''" by (simp add: itoa.simps) code_simp
  then have r: "demo_raw = (util_key @ ''=5,'') @ driver_key @ ''='' @ ''0,'' @ mem_key @ ''='' @ itoa 7 @ []"
    by (simp add: demo_raw_def)
  have "ia_in_use_memory st = Some 7"
    by (rule driver_memory_is_not_matched [OF a _ _ _ r st]) simp_all
  with st show ?thesis by blast
qed

end
