(* ===== verification/MetadataSpec.thy ===== *)
theory MetadataSpec
  imports GoBase
begin

text \<open>
  The contract between the metadata cache and the components that label their metrics with it: a
  lookup that stores what it returns, leaves the other entries alone and answers from the store
  when it can, and an eviction by name. \<open>ModelCache\<close> provides it; the poller and the proxy are
  clients.
\<close>

primrec get_all :: "('s \<Rightarrow> 'k \<Rightarrow> 'i \<times> 's) \<Rightarrow> 's \<Rightarrow> 'k list \<Rightarrow> 'i list \<times> 's" where
  "get_all get s [] = ([], s)"
| "get_all get s (k # ks) =
     (let (i, s1) = get s k; (is, s2) = get_all get s1 ks in (i # is, s2))"

locale metadata_source =
  fixes get :: "'s \<Rightarrow> 'k \<Rightarrow> 'i \<times> 's"
    and peek :: "'s \<Rightarrow> 'k \<Rightarrow> 'i option"
    and evict :: "'s \<Rightarrow> ('k \<Rightarrow> bool) \<Rightarrow> 's"
  assumes get_hit: "peek s k = Some i \<Longrightarrow> get s k = (i, s)"
    and get_stores: "peek (snd (get s k)) k = Some (fst (get s k))"
    and get_keeps: "k \<noteq> l \<Longrightarrow> peek (snd (get s k)) l = peek s l"
    and evict_peek: "peek (evict s p) k = (if p k then peek s k else None)"
begin

lemma get_again: "fst (get (snd (get s k)) k) = fst (get s k)"
  using get_hit [OF get_stores, of s k] by simp

lemma known_kept: "peek s l = Some i \<Longrightarrow> peek (snd (get s k)) l = Some i"
  using get_hit [of s l i] get_keeps [of k l s] by (cases "k = l") auto

lemma get_all_kept: "peek s l = Some i \<Longrightarrow> peek (snd (get_all get s ks)) l = Some i"
proof (induction ks arbitrary: s)
  case (Cons k ks)
  from Cons.IH [OF known_kept [OF Cons.prems, of k]] show ?case
    by (simp add: Let_def split_def)
qed simp

lemma get_all_known: "k \<in> set ks \<Longrightarrow> \<exists>i. peek (snd (get_all get s ks)) k = Some i"
proof (induction ks arbitrary: s)
  case (Cons x ks)
  obtain i s1 where g: "get s x = (i, s1)" by fastforce
  have "peek s1 x = Some i" using get_stores [of s x] g by simp
  have f: "snd (get_all get s (x # ks)) = snd (get_all get s1 ks)"
    using g by (simp add: Let_def split_def)
  show ?case
  proof (cases "k = x")
    case True
    then show ?thesis using get_all_kept [OF \<open>peek s1 x = Some i\<close>] f by auto
  next
    case False
    then show ?thesis using Cons f by simp
  qed
qed simp

lemma get_all_answers:
  "get_all get s ks = (is, s') \<Longrightarrow> list_all2 (\<lambda>k i. peek s' k = Some i) ks is"
proof (induction ks arbitrary: s s' "is")
  case (Cons k ks)
  obtain i s1 where g: "get s k = (i, s1)" by fastforce
  obtain js s2 where r: "get_all get s1 ks = (js, s2)" by fastforce
  have "peek s1 k = Some i" using get_stores [of s k] g by simp
  then have "peek s2 k = Some i" using get_all_kept [of s1 k i ks] r by simp
  with Cons.IH [OF r] Cons.prems g r show ?case by (auto simp: Let_def)
qed simp

lemma get_all_hits:
  "\<forall>k \<in> set ks. peek s k \<noteq> None \<Longrightarrow> get_all get s ks = (map (\<lambda>k. the (peek s k)) ks, s)"
  by (induction ks) (auto simp: Let_def get_hit)

lemma evict_then_known: "peek (evict s p) k = Some i \<Longrightarrow> p k \<and> peek s k = Some i"
  by (simp add: evict_peek split: if_splits)

end

end
