(* ===== verification/ModelCache.thy ===== *)
theory ModelCache
  imports GoStrings MetadataSpec
begin

text \<open>
  \<^verbatim>\<open>internal/collector/modelcache.go\<close>: family and quantization of a model, fetched from
  \<^verbatim>\<open>/api/show\<close> on the first access to its name and cached until the poller prunes it.

  What the server answers to \<open>Show\<close> at a call is the argument \<open>show_fn\<close> (\<open>None\<close> is an error). The
  names it was asked for are kept in \<open>mc_shows\<close>. \<open>strings.ToLower\<close> is exact on ASCII; on other
  strings it is the argument \<open>uni\<close>, the Unicode tables being outside this model.
\<close>

section \<open>Model names\<close>

record model_info =
  mi_family :: string
  mi_quant :: string

record show_details =
  sd_quantization_level :: string
  sd_family :: string

type_synonym show_fn = "string \<Rightarrow> show_details option"

text \<open>\<open>strings.SplitN(s, ":", 2)\<close>: the first part, and the second if there is one.\<close>

definition split_colon :: "string \<Rightarrow> string \<times> string option" where
  "split_colon s =
     (takeWhile (\<lambda>c. c \<noteq> CHR '':'') s,
      if CHR '':'' \<in> set s then Some (tl (dropWhile (\<lambda>c. c \<noteq> CHR '':'') s)) else None)"

definition parse_model_name :: "string \<Rightarrow> string \<times> string" where
  "parse_model_name name =
     (let (base, tag) = split_colon name;
          family = (case str_index base ''.'' of
                      Some idx \<Rightarrow> if idx > 0 then take idx base else base
                    | None \<Rightarrow> base);
          quant = (case tag of
                     None \<Rightarrow> ''unknown''
                   | Some t \<Rightarrow> (case last_index_char t (CHR ''-'') of
                                 Some idx \<Rightarrow> drop (idx + 1) t
                               | None \<Rightarrow> t))
      in (family, quant))"

definition mc_fetch :: "(string \<Rightarrow> string) \<Rightarrow> show_fn \<Rightarrow> string \<Rightarrow> model_info" where
  "mc_fetch uni show_fn model =
     (case show_fn model of
        None \<Rightarrow> \<lparr>mi_family = fst (parse_model_name model), mi_quant = ''unknown''\<rparr>
      | Some d \<Rightarrow>
          let family = lower_string uni (trim_space (sd_family d));
              quant = lower_string uni (trim_space (sd_quantization_level d))
          in \<lparr>mi_family = (if family = [] then fst (parse_model_name model) else family),
              mi_quant = (if quant = [] then ''unknown'' else quant)\<rparr>)"

section \<open>The cache\<close>

record model_cache =
  mc_cache :: "string \<rightharpoonup> model_info"
  mc_shows :: "string list"

definition new_model_cache :: model_cache where
  "new_model_cache = \<lparr>mc_cache = Map.empty, mc_shows = []\<rparr>"

definition fetch_and_cache :: "(string \<Rightarrow> string) \<Rightarrow> show_fn \<Rightarrow> model_cache \<Rightarrow> string \<Rightarrow> model_info \<times> model_cache" where
  "fetch_and_cache uni show_fn mc model =
     (case mc_cache mc model of
        Some info \<Rightarrow> (info, mc)
      | None \<Rightarrow>
          let info = mc_fetch uni show_fn model
          in (info, mc\<lparr>mc_cache := (mc_cache mc)(model \<mapsto> info), mc_shows := mc_shows mc @ [model]\<rparr>))"

definition mc_get :: "(string \<Rightarrow> string) \<Rightarrow> show_fn \<Rightarrow> model_cache \<Rightarrow> string \<Rightarrow> model_info \<times> model_cache" where
  "mc_get uni show_fn mc model =
     (case mc_cache mc model of
        Some info \<Rightarrow> (info, mc)
      | None \<Rightarrow> fetch_and_cache uni show_fn mc model)"

definition mc_prune :: "model_cache \<Rightarrow> (string \<Rightarrow> bool) \<Rightarrow> model_cache" where
  "mc_prune mc present = mc\<lparr>mc_cache := (\<lambda>name. if present name then mc_cache mc name else None)\<rparr>"

interpretation mc: metadata_source "mc_get uni show_fn" mc_cache mc_prune for uni show_fn
  by unfold_locales
    (auto simp: mc_get_def fetch_and_cache_def mc_prune_def Let_def restrict_map_def
      split: option.splits)

section \<open>Concurrent lookups\<close>

text \<open>
  \<open>Get\<close> looks under the read lock, and on a miss looks again and fetches under the write lock:
  between the two another call may have filled the cache. A call in progress is before its first
  look, between the two, or has returned. Each step is one critical section; the answers of the
  server may differ at every step. The index of the run counts the prunes.
\<close>

datatype getter = Looking string | Missed string | Got string model_info

record cache_world =
  cw_cache :: model_cache
  cw_calls :: "getter list"

inductive cache_run :: "(string \<Rightarrow> string) \<Rightarrow> nat \<Rightarrow> cache_world \<Rightarrow> bool" for uni where
  run_start: "cache_run uni 0 \<lparr>cw_cache = new_model_cache, cw_calls = []\<rparr>"
| run_call: "cache_run uni n w \<Longrightarrow> cache_run uni n (w\<lparr>cw_calls := cw_calls w @ [Looking m]\<rparr>)"
| run_hit: "cache_run uni n w \<Longrightarrow> i < length (cw_calls w) \<Longrightarrow> cw_calls w ! i = Looking m \<Longrightarrow>
    mc_cache (cw_cache w) m = Some info \<Longrightarrow>
    cache_run uni n (w\<lparr>cw_calls := (cw_calls w)[i := Got m info]\<rparr>)"
| run_miss: "cache_run uni n w \<Longrightarrow> i < length (cw_calls w) \<Longrightarrow> cw_calls w ! i = Looking m \<Longrightarrow>
    mc_cache (cw_cache w) m = None \<Longrightarrow>
    cache_run uni n (w\<lparr>cw_calls := (cw_calls w)[i := Missed m]\<rparr>)"
| run_fetch: "cache_run uni n w \<Longrightarrow> i < length (cw_calls w) \<Longrightarrow> cw_calls w ! i = Missed m \<Longrightarrow>
    fetch_and_cache uni show_fn (cw_cache w) m = (info, mc') \<Longrightarrow>
    cache_run uni n (w\<lparr>cw_cache := mc', cw_calls := (cw_calls w)[i := Got m info]\<rparr>)"
| run_prune: "cache_run uni n w \<Longrightarrow>
    cache_run uni (Suc n) (w\<lparr>cw_cache := mc_prune (cw_cache w) present\<rparr>)"

definition fetched_once :: "nat \<Rightarrow> model_cache \<Rightarrow> bool" where
  "fetched_once n mc \<longleftrightarrow>
     (\<forall>m. count_list (mc_shows mc) m \<le> n + (if mc_cache mc m = None then 0 else 1))"

definition answers_agree :: "cache_world \<Rightarrow> bool" where
  "answers_agree w \<longleftrightarrow> (\<forall>m i. Got m i \<in> set (cw_calls w) \<longrightarrow> mc_cache (cw_cache w) m = Some i)"

lemma fetched_once_fetch:
  assumes "fetched_once n mc" "fetch_and_cache uni show_fn mc m = (info, mc')"
  shows "fetched_once n mc'"
proof (cases "mc_cache mc m")
  case None
  with assms(2) have mc': "mc' = mc\<lparr>mc_cache := (mc_cache mc)(m \<mapsto> info), mc_shows := mc_shows mc @ [m]\<rparr>"
    by (auto simp: fetch_and_cache_def Let_def)
  have k: "count_list (mc_shows mc) k \<le> n + (if mc_cache mc k = None then 0 else 1)" for k
    using assms(1) by (simp add: fetched_once_def)
  have "count_list (mc_shows mc') k \<le> n + (if mc_cache mc' k = None then 0 else 1)" for k
    using k [of k] None by (cases "k = m") (simp_all add: mc')
  then show ?thesis by (simp add: fetched_once_def)
next
  case (Some i)
  with assms show ?thesis by (simp add: fetch_and_cache_def)
qed

lemma fetched_once_prune:
  assumes "fetched_once n mc"
  shows "fetched_once (Suc n) (mc_prune mc p)"
proof -
  have "count_list (mc_shows mc) k \<le> Suc n" for k
    using assms by (auto simp: fetched_once_def split: if_splits dest: spec [of _ k])
  then show ?thesis by (auto simp: fetched_once_def mc_prune_def intro: le_SucI)
qed

lemma set_update_got: "x \<in> set (xs[i := y]) \<Longrightarrow> x = y \<or> x \<in> set xs"
  using set_update_subset_insert by fastforce

lemma fetch_answer:
  assumes "fetch_and_cache uni show_fn mc m = (info, mc')"
  shows "mc_cache mc' m = Some info" "mc_cache mc k = Some i \<Longrightarrow> mc_cache mc' k = Some i"
  using assms by (auto simp: fetch_and_cache_def Let_def split: option.splits if_splits)

lemma cache_run_inv:
  assumes "cache_run uni n w"
  shows "fetched_once n (cw_cache w) \<and> (n = 0 \<longrightarrow> answers_agree w)"
  using assms
proof induction
  case run_start
  then show ?case by (simp add: fetched_once_def answers_agree_def new_model_cache_def)
next
  case (run_call n w m)
  then show ?case by (auto simp: answers_agree_def)
next
  case (run_hit n w i m info)
  then show ?case by (auto simp: answers_agree_def dest!: set_update_got)
next
  case (run_miss n w i m)
  then show ?case by (auto simp: answers_agree_def dest!: set_update_got)
next
  case (run_fetch n w i m show_fn info mc')
  then show ?case
    by (auto simp: answers_agree_def fetch_answer fetched_once_fetch dest!: set_update_got)
next
  case (run_prune n w p)
  then show ?case by (simp add: fetched_once_prune)
qed

section \<open>Properties\<close>

text \<open>C36. However many lookups run concurrently, \<open>/api/show\<close> is called at most once per model name
  between two prunes; and as long as nothing was pruned all the lookups of a name return the same
  metadata, whatever the server would have answered later.\<close>

theorem one_fetch_per_model:
  assumes "cache_run uni n w"
  shows "count_list (mc_shows (cw_cache w)) m \<le> Suc n \<and>
    (n = 0 \<longrightarrow> Got m i \<in> set (cw_calls w) \<longrightarrow> Got m j \<in> set (cw_calls w) \<longrightarrow> i = j)"
proof -
  have 1: "fetched_once n (cw_cache w)" "n = 0 \<Longrightarrow> answers_agree w"
    using cache_run_inv [OF assms] by simp_all
  have "count_list (mc_shows (cw_cache w)) m \<le> n + 1"
    using 1(1) by (auto simp: fetched_once_def split: if_splits dest: spec [of _ m])
  moreover have "i = j" if "n = 0" "Got m i \<in> set (cw_calls w)" "Got m j \<in> set (cw_calls w)"
    using 1(2) [OF that(1)] that(2,3) unfolding answers_agree_def by (metis option.inject)
  ultimately show ?thesis by simp
qed

theorem one_fetch_per_model_witness:
  "count_list (mc_shows (cw_cache \<lparr>cw_cache = \<lparr>mc_cache = [''a'' \<mapsto> \<lparr>mi_family = ''a'', mi_quant = ''unknown''\<rparr>],
     mc_shows = [''a'']\<rparr>, cw_calls = [Got ''a'' \<lparr>mi_family = ''a'', mi_quant = ''unknown''\<rparr>]\<rparr>)) ''a'' \<le> 1"
proof -
  let ?i = "\<lparr>mi_family = ''a'', mi_quant = ''unknown''\<rparr>"
  have "cache_run id 0 \<lparr>cw_cache = new_model_cache, cw_calls = [Looking ''a'']\<rparr>"
    using run_call [OF run_start, of id "''a''"] by simp
  then have "cache_run id 0 \<lparr>cw_cache = new_model_cache, cw_calls = [Missed ''a'']\<rparr>"
    using run_miss [of id 0 "\<lparr>cw_cache = new_model_cache, cw_calls = [Looking ''a'']\<rparr>" 0 "''a''"]
    by (simp add: new_model_cache_def)
  moreover have "fetch_and_cache id (\<lambda>_. None) new_model_cache ''a'' = (?i, \<lparr>mc_cache = [''a'' \<mapsto> ?i], mc_shows = [''a'']\<rparr>)"
    by (simp add: fetch_and_cache_def new_model_cache_def mc_fetch_def parse_model_name_def
        split_colon_def str_index.simps Let_def)
  ultimately have "cache_run id 0 \<lparr>cw_cache = \<lparr>mc_cache = [''a'' \<mapsto> ?i], mc_shows = [''a'']\<rparr>, cw_calls = [Got ''a'' ?i]\<rparr>"
    using run_fetch [of id 0 "\<lparr>cw_cache = new_model_cache, cw_calls = [Missed ''a'']\<rparr>" 0 "''a''"
        "\<lambda>_. None" ?i "\<lparr>mc_cache = [''a'' \<mapsto> ?i], mc_shows = [''a'']\<rparr>"] by simp
  from one_fetch_per_model [OF this, of "''a''"] show ?thesis by simp
qed

text \<open>The fallback reading of a tag: the family is what precedes the version and the colon, the
  quantization what follows the last hyphen of the tag.\<close>

theorem parse_model_name_parts:
  assumes "family \<noteq> []" "CHR '':'' \<notin> set family" "CHR ''.'' \<notin> set family" "CHR '':'' \<notin> set version"
    "CHR ''-'' \<notin> set quant"
  shows "parse_model_name (family @ ''.'' @ version @ '':'' @ params @ ''-'' @ quant) = (family, quant)"
proof -
  let ?base = "family @ ''.'' @ version" and ?tag = "params @ ''-'' @ quant"
  have b: "takeWhile (\<lambda>c. c \<noteq> CHR '':'') (?base @ '':'' @ ?tag) = ?base"
    "dropWhile (\<lambda>c. c \<noteq> CHR '':'') (?base @ '':'' @ ?tag) = '':'' @ ?tag"
    using assms(2,4) by (subst takeWhile_append2 dropWhile_append2; auto)+
  have i: "str_index (f @ ''.'' @ v) ''.'' = Some (length f)" if "CHR ''.'' \<notin> set f" for f v
    using that by (induction f) (auto simp: str_index.simps)
  have n: "last_index_char quant (CHR ''-'') = None"
    using assms(5) by (induction quant) (auto split: option.split)
  have l: "last_index_char (s @ ''-'' @ quant) (CHR ''-'') = Some (length s)" for s
    using n by (induction s) auto
  have "split_colon (?base @ '':'' @ ?tag) = (?base, Some ?tag)"
    unfolding split_colon_def using b by simp
  then show ?thesis
    using assms(1) i [OF assms(3), of version] l [of params]
    by (simp add: parse_model_name_def)
qed

theorem parse_model_name_parts_witness:
  "parse_model_name ''llama3.1:8b-q4_0'' = (''llama3'', ''q4_0'')"
  using parse_model_name_parts [of "''llama3''" "''1''" "''q4_0''" "''8b''"] by simp

end
