(* ===== verification/JsonText.thy ===== *)
theory JsonText
  imports GoStrings
begin

text \<open>
  The parts of Go's \<open>encoding/json\<close> and \<open>unicode/utf8\<close> packages that the response observer calls on
  single scalar tokens: validity of a token (\<open>json.Valid\<close>) and the decoding of a string token into
  a Go string (\<open>json.Unmarshal\<close> into a \<open>string\<close>), on bytes and executable.
\<close>

section \<open>UTF-8\<close>

definition in_range :: "nat \<Rightarrow> nat \<Rightarrow> char \<Rightarrow> bool" where
  "in_range lo hi c \<longleftrightarrow> lo \<le> byte c \<and> byte c \<le> hi"

abbreviation continuation :: "char \<Rightarrow> bool" where
  "continuation \<equiv> in_range 128 191"

text \<open>
  The length of the valid encoding at the start of a string, as \<open>utf8.DecodeRune\<close> finds it: 0 where
  it reports an invalid encoding (overlong, surrogate, out of range, truncated or a stray byte).
\<close>

definition utf8_len :: "string \<Rightarrow> nat" where
  "utf8_len s =
     (case s of
        [] \<Rightarrow> 0
      | a # s1 \<Rightarrow>
          if byte a < 128 then 1
          else case s1 of
            [] \<Rightarrow> 0
          | b # s2 \<Rightarrow>
              if in_range 194 223 a then (if continuation b then 2 else 0)
              else case s2 of
                [] \<Rightarrow> 0
              | c # s3 \<Rightarrow>
                  if in_range 224 239 a then
                    (if (if byte a = 224 then in_range 160 191 b
                         else if byte a = 237 then in_range 128 159 b else continuation b)
                        \<and> continuation c then 3 else 0)
                  else case s3 of
                    [] \<Rightarrow> 0
                  | d # _ \<Rightarrow>
                      if in_range 240 244 a
                         \<and> (if byte a = 240 then in_range 144 191 b
                            else if byte a = 244 then in_range 128 143 b else continuation b)
                         \<and> continuation c \<and> continuation d then 4 else 0)"

definition replacement_char :: string where
  "replacement_char = encode_rune 65533"

section \<open>String tokens\<close>

definition is_hex :: "char \<Rightarrow> bool" where
  "is_hex c \<longleftrightarrow> c \<in> set ''0123456789abcdefABCDEF''"

definition hex_val :: "char \<Rightarrow> nat" where
  "hex_val c = (if is_digit c then byte c - 48 else if is_lower c then byte c - 87 else byte c - 55)"

definition simple_escape :: "char \<Rightarrow> bool" where
  "simple_escape c \<longleftrightarrow> c \<in> set (CHR 0x22 # CHR 0x5C # ''/bfnrt'')"

text \<open>The body of a string token, between its quotes, as the scanner of \<open>encoding/json\<close> accepts it.\<close>

fun valid_body :: "string \<Rightarrow> bool" where
  "valid_body [] = True"
| "valid_body (c # cs) =
     (if c = CHR 0x5C then
        (case cs of
           [] \<Rightarrow> False
         | e # r \<Rightarrow>
             if e = CHR ''u'' then 4 \<le> length r \<and> list_all is_hex (take 4 r) \<and> valid_body (drop 4 r)
             else simple_escape e \<and> valid_body r)
      else c \<noteq> CHR 0x22 \<and> 32 \<le> byte c \<and> valid_body cs)"

definition quote :: "string \<Rightarrow> string" where
  "quote body = CHR 0x22 # body @ [CHR 0x22]"

definition valid_string_token :: "string \<Rightarrow> bool" where
  "valid_string_token t \<longleftrightarrow>
     2 \<le> length t \<and> hd t = CHR 0x22 \<and> last t = CHR 0x22 \<and> valid_body (butlast (tl t))"

text \<open>\<open>getu4\<close> after its \<open>\u\<close>; \<open>None\<close> is its \<open>-1\<close>.\<close>

definition getu4 :: "string \<Rightarrow> nat option" where
  "getu4 r = (if 4 \<le> length r \<and> list_all is_hex (take 4 r)
     then Some (foldl (\<lambda>n c. 16 * n + hex_val c) 0 (take 4 r)) else None)"

definition is_surrogate :: "nat \<Rightarrow> bool" where
  "is_surrogate r \<longleftrightarrow> 55296 \<le> r \<and> r < 57344"

definition surrogate_pair :: "nat \<Rightarrow> string \<Rightarrow> nat option" where
  "surrogate_pair hi r =
     (if hi < 56320 \<and> has_prefix r (CHR 0x5C # ''u'') then
        (case getu4 (drop 2 r) of
           Some lo \<Rightarrow> if 56320 \<le> lo \<and> lo < 57344
             then Some ((hi - 55296) * 1024 + (lo - 56320) + 65536) else None
         | None \<Rightarrow> None)
      else None)"

definition escaped_byte :: "char \<Rightarrow> char" where
  "escaped_byte e =
     (if e = CHR ''b'' then CHR 0x08 else if e = CHR ''f'' then CHR 0x0C
      else if e = CHR ''n'' then CHR 0x0A else if e = CHR ''r'' then CHR 0x0D
      else if e = CHR ''t'' then CHR 0x09 else e)"

text \<open>
  One turn of the loop of \<open>unquoteBytes\<close> on a body the scanner has accepted: the bytes written and
  the number of bytes read (0 only at the end, or where the scanner would have refused the body).
\<close>

definition unquote_step :: "string \<Rightarrow> string \<times> nat" where
  "unquote_step s =
     (case s of
        [] \<Rightarrow> ([], 0)
      | c # cs \<Rightarrow>
          if c = CHR 0x5C then
            (case cs of
               [] \<Rightarrow> ([], 0)
             | e # r \<Rightarrow>
                 if e = CHR ''u'' then
                   (case getu4 r of
                      None \<Rightarrow> ([], 0)
                    | Some rr \<Rightarrow>
                        if is_surrogate rr then
                          (case surrogate_pair rr (drop 4 r) of
                             Some rune \<Rightarrow> (encode_rune rune, 12)
                           | None \<Rightarrow> (replacement_char, 6))
                        else (encode_rune rr, 6))
                 else ([escaped_byte e], 2))
          else if byte c < 128 then ([c], 1)
          else if utf8_len s = 0 then (replacement_char, 1)
          else (take (utf8_len s) s, utf8_len s))"

function unquote_body :: "string \<Rightarrow> string" where
  "unquote_body s =
     (let (out, n) = unquote_step s
      in if s = [] \<or> n = 0 then [] else out @ unquote_body (drop n s))"
  by pat_completeness auto
termination
  by (relation "measure length") auto

declare unquote_body.simps [simp del]

definition json_unquote :: "string \<Rightarrow> string option" where
  "json_unquote t = (if valid_string_token t then Some (unquote_body (butlast (tl t))) else None)"

section \<open>Numbers and literals: the JSON grammar\<close>

definition json_exp_part :: "string \<Rightarrow> bool" where
  "json_exp_part s =
     (case s of
        [] \<Rightarrow> True
      | c # r \<Rightarrow> (c = CHR ''e'' \<or> c = CHR ''E'') \<and>
          (let ds = (if has_prefix r ''+'' \<or> has_prefix r ''-'' then tl r else r)
           in ds \<noteq> [] \<and> list_all is_digit ds))"

definition json_frac_part :: "string \<Rightarrow> bool" where
  "json_frac_part s =
     (case s of
        [] \<Rightarrow> True
      | c # r \<Rightarrow>
          if c = CHR ''.'' then takeWhile is_digit r \<noteq> [] \<and> json_exp_part (dropWhile is_digit r)
          else json_exp_part s)"

definition json_int_part :: "string \<Rightarrow> bool" where
  "json_int_part s =
     (case s of
        [] \<Rightarrow> False
      | c # r \<Rightarrow> is_digit c \<and> json_frac_part (if c = CHR ''0'' then r else dropWhile is_digit r))"

definition json_number :: "string \<Rightarrow> bool" where
  "json_number s = json_int_part (if has_prefix s ''-'' then tl s else s)"

definition json_literal :: "string \<Rightarrow> bool" where
  "json_literal s \<longleftrightarrow> s \<in> set [''true'', ''false'', ''null'']"

text \<open>\<open>json.Valid\<close> on a token that starts as a scalar and contains no white space outside a string.\<close>

definition json_valid :: "string \<Rightarrow> bool" where
  "json_valid t \<longleftrightarrow> valid_string_token t \<or> json_number t \<or> json_literal t"

section \<open>Decoding does not grow a token by more than a factor of three\<close>

lemma length_encode_rune: "length (encode_rune r) \<le> 4" "r < 65536 \<Longrightarrow> length (encode_rune r) \<le> 3"
  by (simp_all add: encode_rune_def)

lemma length_replacement_char: "length replacement_char = 3"
  by (simp add: replacement_char_def encode_rune_def)

lemma is_hex_val: "is_hex c \<Longrightarrow> hex_val c < 16"
  by (auto simp: is_hex_def hex_val_def is_digit_def is_lower_def byte_def)

lemma take4: "4 \<le> length r \<Longrightarrow> \<exists>a b c d r'. r = a # b # c # d # r'"
  by (auto simp: eval_nat_numeral Suc_le_length_iff)

lemma getu4_bounds: "getu4 r = Some x \<Longrightarrow> x < 65536 \<and> 4 \<le> length r"
proof -
  assume g: "getu4 r = Some x"
  then have "4 \<le> length r" by (auto simp: getu4_def split: if_splits)
  then obtain a b c d r' where r: "r = a # b # c # d # r'" using take4 by blast
  with g is_hex_val [of a] is_hex_val [of b] is_hex_val [of c] is_hex_val [of d]
  show ?thesis by (auto simp: getu4_def split: if_splits)
qed

lemma surrogate_pair_length: "surrogate_pair hi r = Some x \<Longrightarrow> 6 \<le> length r"
  by (auto simp: surrogate_pair_def has_prefix_append split: if_splits option.splits
      dest!: getu4_bounds)

lemma utf8_len_le: "utf8_len s \<le> length s"
  by (auto simp: utf8_len_def split: list.split)

lemma unquote_step_bounds:
  "length (fst (unquote_step s)) \<le> 3 * snd (unquote_step s) \<and> snd (unquote_step s) \<le> length s"
proof (cases s)
  case Nil
  then show ?thesis by (simp add: unquote_step_def)
next
  case (Cons c cs)
  show ?thesis
  proof (cases "c = CHR 0x5C")
    case True
    show ?thesis
    proof (cases cs)
      case Nil
      with Cons True show ?thesis by (simp add: unquote_step_def)
    next
      case (Cons e r)
      have e3: "length (encode_rune x) \<le> 18" "length (encode_rune x) \<le> 36" for x
        using length_encode_rune(1) [of x] by simp_all
      show ?thesis using \<open>s = c # cs\<close> True Cons e3 length_replacement_char
        by (auto simp: unquote_step_def split: option.split
            dest!: getu4_bounds surrogate_pair_length)
    qed
  next
    case False
    with Cons utf8_len_le [of s] length_replacement_char show ?thesis
      by (auto simp: unquote_step_def)
  qed
qed

lemma length_unquote_body: "length (unquote_body s) \<le> 3 * length s"
proof (induction s rule: unquote_body.induct)
  case (1 s)
  obtain out n where st: "unquote_step s = (out, n)" by fastforce
  show ?case
  proof (cases "s = [] \<or> n = 0")
    case True
    with st show ?thesis by (subst unquote_body.simps) simp
  next
    case False
    then have "length (unquote_body (drop n s)) \<le> 3 * length (drop n s)"
      using "1.IH" [OF st [symmetric] refl] by simp
    moreover have "length out \<le> 3 * n" "3 * length (drop n s) + 3 * n = 3 * length s"
      using st unquote_step_bounds [of s] by auto
    ultimately have "length (out @ unquote_body (drop n s)) \<le> 3 * length s" by simp
    with False st show ?thesis by (subst unquote_body.simps) simp
  qed
qed

section \<open>Multi-byte encodings\<close>

text \<open>What the second byte may be after the first of an encoding of three or four bytes.\<close>

definition second_byte :: "char \<Rightarrow> char \<Rightarrow> bool" where
  "second_byte a b =
     (if byte a = 224 then in_range 160 191 b else if byte a = 237 then in_range 128 159 b
      else if byte a = 240 then in_range 144 191 b else if byte a = 244 then in_range 128 143 b
      else continuation b)"

lemma second_byte_high: "second_byte a b \<Longrightarrow> 128 \<le> byte b"
  by (simp add: second_byte_def in_range_def split: if_splits)

lemma utf8_len_multi:
  assumes "0 < utf8_len s" "128 \<le> byte (hd s)"
  obtains (two) a b t where "s = a # b # t" "in_range 194 223 a" "continuation b" "utf8_len s = 2"
  | (three) a b c t where "s = a # b # c # t" "in_range 224 239 a" "second_byte a b" "continuation c" "utf8_len s = 3"
  | (four) a b c d t where "s = a # b # c # d # t" "in_range 240 244 a" "second_byte a b" "continuation c"
      "continuation d" "utf8_len s = 4"
proof -
  obtain a s1 where s: "s = a # s1" using assms(1) by (cases s) (simp_all add: utf8_len_def)
  obtain b s2 where s1: "s1 = b # s2" using assms s by (cases s1) (simp_all add: utf8_len_def)
  show thesis
  proof (cases "in_range 194 223 a")
    case True
    then show thesis using assms s s1 two by (simp add: utf8_len_def split: if_splits)
  next
    case n2: False
    obtain c s3 where s2: "s2 = c # s3" using assms s s1 n2 by (cases s2) (simp_all add: utf8_len_def)
    show thesis
    proof (cases "in_range 224 239 a")
      case True
      then have "byte a \<noteq> 240" "byte a \<noteq> 244" by (auto simp: in_range_def)
      then show thesis using assms s s1 s2 n2 True three [of a b c s3]
        by (simp add: utf8_len_def second_byte_def split: if_splits)
    next
      case n3: False
      obtain d s4 where s3: "s3 = d # s4" using assms s s1 s2 n2 n3 by (cases s3) (simp_all add: utf8_len_def)
      then have "utf8_len s = (if in_range 240 244 a
                         \<and> (if byte a = 240 then in_range 144 191 b
                            else if byte a = 244 then in_range 128 143 b else continuation b)
                         \<and> continuation c \<and> continuation d then 4 else 0)"
        using assms s s1 s2 n2 n3 by (simp add: utf8_len_def)
      moreover from this assms(1) have "in_range 240 244 a" by (auto split: if_splits)
      moreover from this have "byte a \<noteq> 224" "byte a \<noteq> 237" by (auto simp: in_range_def)
      ultimately show thesis using assms(1) s s1 s2 s3 four [of a b c d s4]
        by (auto simp: second_byte_def split: if_splits)
    qed
  qed
qed

lemma utf8_len_parts:
  "in_range 194 223 a \<Longrightarrow> continuation b \<Longrightarrow> utf8_len (a # b # t) = 2"
  "in_range 224 239 a \<Longrightarrow> second_byte a b \<Longrightarrow> continuation c \<Longrightarrow> utf8_len (a # b # c # t) = 3"
  "in_range 240 244 a \<Longrightarrow> second_byte a b \<Longrightarrow> continuation c \<Longrightarrow> continuation d \<Longrightarrow> utf8_len (a # b # c # d # t) = 4"
proof -
  show "utf8_len (a # b # t) = 2" if "in_range 194 223 a" "continuation b"
    using that by (simp add: utf8_len_def) (simp add: in_range_def)
  show "utf8_len (a # b # c # t) = 3" if "in_range 224 239 a" "second_byte a b" "continuation c"
  proof -
    have "\<not> byte a < 128" "\<not> in_range 194 223 a" "byte a \<noteq> 240" "byte a \<noteq> 244" using that(1) by (auto simp: in_range_def)
    with that show ?thesis by (simp add: utf8_len_def second_byte_def)
  qed
  show "utf8_len (a # b # c # d # t) = 4" if "in_range 240 244 a" "second_byte a b" "continuation c" "continuation d"
  proof -
    have "\<not> byte a < 128" "\<not> in_range 194 223 a" "\<not> in_range 224 239 a" "byte a \<noteq> 224" "byte a \<noteq> 237" using that(1) by (auto simp: in_range_def)
    with that show ?thesis by (simp add: utf8_len_def second_byte_def)
  qed
qed

lemma utf8_len_take:
  assumes "0 < utf8_len s" "128 \<le> byte (hd s)"
  shows "utf8_len (take (utf8_len s) s @ r) = utf8_len s"
  using assms by (cases rule: utf8_len_multi) (simp_all add: utf8_len_parts numeral_eq_Suc)

lemma utf8_len_high:
  assumes "0 < utf8_len s" "128 \<le> byte (hd s)"
  shows "list_all (\<lambda>c. 128 \<le> byte c) (take (utf8_len s) s)"
  using assms by (cases rule: utf8_len_multi) (auto simp: numeral_eq_Suc dest: second_byte_high simp: in_range_def)

end
