(* ===== verification/StreamJson.thy ===== *)
theory StreamJson
  imports JsonText
begin

text \<open>
  \<^verbatim>\<open>internal/collector/streamjson.go\<close>: the bounded SAX-style JSON recognizer \<open>jsonFields\<close>. It
  reads a byte at a time, keeps a stack of at most 64 frames, the current token and the selected
  scalar fields, and hands the field map of each finished top-level object to its \<open>emit\<close> callback.

  The stack is kept with the innermost frame first (Go's last element). The single-character
  states of the source are the constructors below. A call of \<open>emit\<close> appends the map to
  \<open>jf_emitted\<close>; an index out of range of the source sets \<open>jf_panic\<close>.
\<close>

section \<open>State\<close>

datatype fkind = FObject | FArray

text \<open>The frame states \<^verbatim>\<open>'k' 'K' ':' 'v' 'a' ','\<close> of the source, in this order.\<close>

datatype fstate = FirstKey | NextKey | AtColon | AtValue | FirstItem | AtComma

text \<open>The \<open>mode\<close> byte: 0, a quote, or \<^verbatim>\<open>'s'\<close>.\<close>

datatype jmode = ModeNone | ModeString | ModeScalar

text \<open>The \<open>number\<close> byte: 0 and \<^verbatim>\<open>'-' '0' 'i' '.' 'f' 'e' 's' 'd'\<close>.\<close>

datatype jnum = NumStart | NumMinus | NumZero | NumInt | NumDot | NumFrac | NumExp | NumSign | NumExpDigits

record jframe =
  f_kind :: fkind
  f_state :: fstate
  f_key :: string

type_synonym fields = "string \<rightharpoonup> string"

record jfields =
  jf_stack :: "jframe list"
  jf_token :: string
  jf_mode :: jmode
  jf_escape :: bool
  jf_unicode :: nat
  jf_number :: jnum
  jf_literal :: string
  jf_literal_pos :: nat
  jf_key_token :: bool
  jf_overflow :: bool
  jf_bad :: bool
  jf_failure :: string
  jf_key_skipped :: bool
  jf_fields :: fields
  jf_emitted :: "fields list"
  jf_panic :: bool

definition new_jfields :: jfields where
  "new_jfields = \<lparr>jf_stack = [], jf_token = [], jf_mode = ModeNone, jf_escape = False,
     jf_unicode = 0, jf_number = NumStart, jf_literal = [], jf_literal_pos = 0,
     jf_key_token = False, jf_overflow = False, jf_bad = False, jf_failure = [],
     jf_key_skipped = False, jf_fields = Map.empty, jf_emitted = [], jf_panic = False\<rparr>"

section \<open>Selected paths\<close>

definition wanted_paths :: "string list" where
  "wanted_paths = [''model'', ''done'', ''error'', ''type'', ''load_duration'', ''eval_count'',
     ''eval_duration'', ''prompt_eval_count'', ''prompt_eval_duration'', ''usage.prompt_tokens'',
     ''usage.completion_tokens'', ''usage.input_tokens'', ''usage.output_tokens'', ''message.model'',
     ''message.usage.input_tokens'', ''message.usage.output_tokens'']"

definition wanted :: "string \<Rightarrow> bool" where
  "wanted path \<longleftrightarrow> path \<in> set wanted_paths"

definition frames_path :: "jframe list \<Rightarrow> string" where
  "frames_path stack =
     (if length stack > 3 then []
      else if \<exists>f \<in> set stack. f_kind f \<noteq> FObject \<or> CHR ''.'' \<in> set (f_key f) then []
      else case rev stack of
        [a] \<Rightarrow> f_key a
      | [a, b] \<Rightarrow> f_key a @ ''.'' @ f_key b
      | [a, b, c] \<Rightarrow> f_key a @ ''.'' @ f_key b @ ''.'' @ f_key c
      | _ \<Rightarrow> [])"

definition j_path :: "jfields \<Rightarrow> string" where
  "j_path j = frames_path (jf_stack j)"

section \<open>Tokens\<close>

definition token_limit :: "jfields \<Rightarrow> nat" where
  "token_limit j = (if jf_key_token j then 128 else 4096)"

definition j_append :: "jfields \<Rightarrow> char \<Rightarrow> jfields" where
  "j_append j c =
     (if length (jf_token j) < token_limit j then j\<lparr>jf_token := jf_token j @ [c]\<rparr>
      else j\<lparr>jf_overflow := True\<rparr>)"

definition set_top :: "jfields \<Rightarrow> (jframe \<Rightarrow> jframe) \<Rightarrow> jfields" where
  "set_top j upd =
     (case jf_stack j of
        [] \<Rightarrow> j\<lparr>jf_panic := True\<rparr>
      | f # fs \<Rightarrow> j\<lparr>jf_stack := upd f # fs\<rparr>)"

definition value_done :: "jfields \<Rightarrow> jfields" where
  "value_done j =
     (if jf_stack j = [] then j\<lparr>jf_bad := True\<rparr>
      else set_top j (\<lambda>f. f\<lparr>f_state := AtComma\<rparr>))"

definition scalar_complete :: "jfields \<Rightarrow> bool" where
  "scalar_complete j =
     (if jf_literal j \<noteq> [] then jf_literal_pos j = length (jf_literal j)
      else jf_number j \<in> {NumZero, NumInt, NumFrac, NumExpDigits})"

definition reset_token :: "jfields \<Rightarrow> jfields" where
  "reset_token j = j\<lparr>jf_token := [], jf_mode := ModeNone, jf_overflow := False,
     jf_number := NumStart, jf_literal := [], jf_literal_pos := 0\<rparr>"

definition key_scalar :: "jfields \<Rightarrow> jfields" where
  "key_scalar j =
     (let j1 = (if jf_overflow j then (set_top j (\<lambda>f. f\<lparr>f_key := []\<rparr>))\<lparr>jf_key_skipped := True\<rparr>
                else case json_unquote (jf_token j) of
                  Some k \<Rightarrow> set_top j (\<lambda>f. f\<lparr>f_key := k\<rparr>)
                | None \<Rightarrow> j\<lparr>jf_bad := True\<rparr>)
      in reset_token (set_top j1 (\<lambda>f. f\<lparr>f_state := AtColon\<rparr>)))"

definition value_scalar :: "jfields \<Rightarrow> jfields" where
  "value_scalar j =
     (let path = j_path j in
      if wanted path then
        if jf_overflow j then j\<lparr>jf_failure := ''selected_value_limit'', jf_bad := True\<rparr>
        else if \<not> json_valid (jf_token j) then j\<lparr>jf_bad := True\<rparr>
        else reset_token (value_done (j\<lparr>jf_fields := (jf_fields j)(path \<mapsto> jf_token j)\<rparr>))
      else if jf_mode j \<noteq> ModeString \<and> \<not> scalar_complete j then j\<lparr>jf_bad := True\<rparr>
      else reset_token (value_done j))"

definition j_scalar :: "jfields \<Rightarrow> jfields" where
  "j_scalar j = (if jf_key_token j then key_scalar j else value_scalar j)"

section \<open>The grammar of numbers and literals\<close>

definition start_literal :: "string \<Rightarrow> jfields \<Rightarrow> jfields" where
  "start_literal l j = j\<lparr>jf_literal := l, jf_literal_pos := 1\<rparr>"

definition num_to :: "jnum \<Rightarrow> jfields \<Rightarrow> jfields" where
  "num_to n j = j\<lparr>jf_number := n\<rparr>"

definition mark_bad :: "jfields \<Rightarrow> jfields" where
  "mark_bad j = j\<lparr>jf_bad := True\<rparr>"

definition is_e :: "char \<Rightarrow> bool" where
  "is_e c \<longleftrightarrow> c = CHR ''e'' \<or> c = CHR ''E''"

definition scalar_byte :: "jfields \<Rightarrow> char \<Rightarrow> jfields" where
  "scalar_byte j c =
     (let digit = is_digit c in
      if jf_literal j \<noteq> [] then
        (if jf_literal_pos j \<ge> length (jf_literal j) \<or> c \<noteq> jf_literal j ! jf_literal_pos j
         then mark_bad j else j\<lparr>jf_literal_pos := jf_literal_pos j + 1\<rparr>)
      else case jf_number j of
        NumStart \<Rightarrow>
          if c = CHR ''t'' then start_literal ''true'' j
          else if c = CHR ''f'' then start_literal ''false'' j
          else if c = CHR ''n'' then start_literal ''null'' j
          else if c = CHR ''-'' then num_to NumMinus j
          else if c = CHR ''0'' then num_to NumZero j
          else if digit then num_to NumInt j
          else mark_bad j
      | NumMinus \<Rightarrow>
          if c = CHR ''0'' then num_to NumZero j else if digit then num_to NumInt j else mark_bad j
      | NumZero \<Rightarrow>
          if c = CHR ''.'' then num_to NumDot j else if is_e c then num_to NumExp j else mark_bad j
      | NumInt \<Rightarrow>
          if c = CHR ''.'' then num_to NumDot j else if is_e c then num_to NumExp j
          else if \<not> digit then mark_bad j else j
      | NumDot \<Rightarrow> if digit then num_to NumFrac j else mark_bad j
      | NumFrac \<Rightarrow> if is_e c then num_to NumExp j else if \<not> digit then mark_bad j else j
      | NumExp \<Rightarrow>
          if c = CHR ''+'' \<or> c = CHR ''-'' then num_to NumSign j
          else if digit then num_to NumExpDigits j else mark_bad j
      | NumSign \<Rightarrow> if digit then num_to NumExpDigits j else mark_bad j
      | NumExpDigits \<Rightarrow> if \<not> digit then mark_bad j else j)"

section \<open>Bytes\<close>

definition json_space :: "char \<Rightarrow> bool" where
  "json_space c \<longleftrightarrow> byte c \<in> {32, 10, 13, 9}"

definition delimiter :: "char \<Rightarrow> bool" where
  "delimiter c \<longleftrightarrow> c = CHR '','' \<or> c = CHR ''}'' \<or> c = CHR '']'' \<or> json_space c"

text \<open>A byte inside a string token.\<close>

definition string_byte :: "jfields \<Rightarrow> char \<Rightarrow> jfields" where
  "string_byte j0 c =
     (let j = j_append j0 c in
      if jf_unicode j > 0 then
        (let j' = (if \<not> is_hex c then mark_bad j else j) in j'\<lparr>jf_unicode := jf_unicode j - 1\<rparr>)
      else if jf_escape j then
        (let j' = j\<lparr>jf_escape := False\<rparr> in
         if c = CHR ''u'' then j'\<lparr>jf_unicode := 4\<rparr>
         else if \<not> simple_escape c then mark_bad j' else j')
      else if c = CHR 0x5C then j\<lparr>jf_escape := True\<rparr>
      else if c = CHR 0x22 then j_scalar j
      else if byte c < 32 then mark_bad j
      else j)"

definition j_close :: "jfields \<Rightarrow> char \<Rightarrow> jfields" where
  "j_close j c =
     (case jf_stack j of
        [] \<Rightarrow> j\<lparr>jf_panic := True\<rparr>
      | f # fs \<Rightarrow>
          if (c = CHR ''}'' \<and> f_kind f \<noteq> FObject) \<or> (c = CHR '']'' \<and> f_kind f \<noteq> FArray)
          then mark_bad j
          else
            let j' = j\<lparr>jf_stack := fs\<rparr>
            in if fs = [] then j'\<lparr>jf_emitted := jf_emitted j' @ [jf_fields j']\<rparr>
               else value_done j')"

definition open_value :: "jfields \<Rightarrow> char \<Rightarrow> jfields" where
  "open_value j c =
     (let path = j_path j;
          j1 = (if wanted path
                then j\<lparr>jf_fields := (jf_fields j)(path \<mapsto> (if c = CHR ''{'' then ''{}'' else ''[]''))\<rparr>
                else j)
      in if length (jf_stack j1) = 64 then j1\<lparr>jf_failure := ''depth_limit'', jf_bad := True\<rparr>
         else j1\<lparr>jf_stack :=
           (if c = CHR ''{'' then \<lparr>f_kind = FObject, f_state = FirstKey, f_key = []\<rparr>
            else \<lparr>f_kind = FArray, f_state = FirstItem, f_key = []\<rparr>) # jf_stack j1\<rparr>)"

definition scalar_start :: "char \<Rightarrow> bool" where
  "scalar_start c \<longleftrightarrow> c \<in> set ''-0123456789tfn''"

definition start_value :: "jfields \<Rightarrow> char \<Rightarrow> jfields" where
  "start_value j0 c =
     (let j = j0\<lparr>jf_key_token := False\<rparr> in
      if c = CHR ''{'' \<or> c = CHR ''['' then open_value j c
      else if c = CHR 0x22 then j_append (j\<lparr>jf_mode := ModeString\<rparr>) c
      else if \<not> scalar_start c then mark_bad j
      else j_append (scalar_byte (j\<lparr>jf_mode := ModeScalar\<rparr>) c) c)"

text \<open>A byte between tokens.\<close>

definition struct_byte :: "jfields \<Rightarrow> char \<Rightarrow> jfields" where
  "struct_byte j c =
     (if json_space c then j
      else case jf_stack j of
        [] \<Rightarrow>
          if c \<noteq> CHR ''{'' then mark_bad j
          else j\<lparr>jf_fields := Map.empty,
                 jf_stack := [\<lparr>f_kind = FObject, f_state = FirstKey, f_key = []\<rparr>]\<rparr>
      | f # fs \<Rightarrow>
          (if f_state f = FirstKey \<or> f_state f = NextKey then
             if c = CHR ''}'' \<and> f_state f = FirstKey then j_close j c
             else if c \<noteq> CHR 0x22 then mark_bad j
             else j_append (j\<lparr>jf_key_token := True, jf_mode := ModeString\<rparr>) c
           else if f_state f = AtColon then
             if c \<noteq> CHR '':'' then mark_bad j else set_top j (\<lambda>f. f\<lparr>f_state := AtValue\<rparr>)
           else if f_state f = AtComma then
             if c = CHR ''}'' \<or> c = CHR '']'' then j_close j c
             else if c \<noteq> CHR '','' then mark_bad j
             else set_top j (\<lambda>f. f\<lparr>f_state := (if f_kind f = FObject then NextKey else AtValue)\<rparr>)
           else
             if c = CHR '']'' \<and> f_state f = FirstItem then j_close j c else start_value j c))"

text \<open>
  \<open>byte\<close>. After a delimiter has ended a scalar the source calls \<open>byte\<close> again; it returns at once
  when the scalar was bad, and otherwise the mode is 0 (\<open>scalar_then_byte\<close> below).
\<close>

definition json_byte :: "jfields \<Rightarrow> char \<Rightarrow> jfields" where
  "json_byte j c =
     (if jf_bad j then j
      else case jf_mode j of
        ModeString \<Rightarrow> string_byte j c
      | ModeScalar \<Rightarrow>
          if delimiter c then
            (let j' = j_scalar j in if jf_bad j' then j' else struct_byte j' c)
          else j_append (scalar_byte j c) c
      | ModeNone \<Rightarrow> struct_byte j c)"

definition json_feed :: "jfields \<Rightarrow> string \<Rightarrow> jfields" where
  "json_feed j data = foldl json_byte j data"

definition json_complete :: "jfields \<Rightarrow> bool" where
  "json_complete j \<longleftrightarrow> \<not> jf_bad j \<and> jf_stack j = [] \<and> jf_mode j = ModeNone"

definition failure_reason :: "jfields \<Rightarrow> string" where
  "failure_reason j =
     (if jf_failure j \<noteq> [] then jf_failure j else if jf_bad j then ''malformed'' else ''incomplete'')"

section \<open>The recognizer is bounded and never indexes out of range\<close>

definition fields_bounded :: "fields \<Rightarrow> bool" where
  "fields_bounded m \<longleftrightarrow> (\<forall>k v. m k = Some v \<longrightarrow> wanted k \<and> length v \<le> 4096)"

definition j_ok :: "jfields \<Rightarrow> bool" where
  "j_ok j \<longleftrightarrow> \<not> jf_panic j \<and> length (jf_stack j) \<le> 64 \<and> length (jf_token j) \<le> token_limit j
     \<and> (\<forall>f \<in> set (jf_stack j). length (f_key f) \<le> 378)
     \<and> fields_bounded (jf_fields j) \<and> (\<forall>m \<in> set (jf_emitted j). fields_bounded m)
     \<and> (jf_mode j \<noteq> ModeNone \<longrightarrow> jf_stack j \<noteq> [])
     \<and> (jf_mode j = ModeScalar \<longrightarrow> \<not> jf_key_token j)
     \<and> (\<not> jf_bad j \<longrightarrow> jf_mode j = ModeNone \<longrightarrow> jf_token j = [])"

lemma new_jfields_ok: "j_ok new_jfields"
  by (simp add: j_ok_def new_jfields_def token_limit_def fields_bounded_def)

lemma fields_bounded_upd:
  "fields_bounded m \<Longrightarrow> wanted k \<Longrightarrow> length v \<le> 4096 \<Longrightarrow> fields_bounded (m(k \<mapsto> v))"
  by (simp add: fields_bounded_def)

lemma fields_bounded_empty [simp]: "fields_bounded Map.empty"
  by (simp add: fields_bounded_def)

lemma json_unquote_length: "json_unquote t = Some k \<Longrightarrow> length t \<le> 128 \<Longrightarrow> length k \<le> 378"
  using length_unquote_body [of "butlast (tl t)"]
  by (auto simp: json_unquote_def split: if_splits)

lemma j_append_ok: "j_ok j \<Longrightarrow> jf_mode j \<noteq> ModeNone \<Longrightarrow> j_ok (j_append j c)"
  by (auto simp: j_ok_def j_append_def token_limit_def)

lemma scalar_helper_frame [simp]:
  "jf_stack (mark_bad j) = jf_stack j"
  "jf_stack (start_literal l j) = jf_stack j"
  "jf_stack (num_to n j) = jf_stack j"
  "jf_token (mark_bad j) = jf_token j"
  "jf_token (start_literal l j) = jf_token j"
  "jf_token (num_to n j) = jf_token j"
  "jf_mode (mark_bad j) = jf_mode j"
  "jf_mode (start_literal l j) = jf_mode j"
  "jf_mode (num_to n j) = jf_mode j"
  "jf_key_token (mark_bad j) = jf_key_token j"
  "jf_key_token (start_literal l j) = jf_key_token j"
  "jf_key_token (num_to n j) = jf_key_token j"
  "jf_fields (mark_bad j) = jf_fields j"
  "jf_fields (start_literal l j) = jf_fields j"
  "jf_fields (num_to n j) = jf_fields j"
  "jf_emitted (mark_bad j) = jf_emitted j"
  "jf_emitted (start_literal l j) = jf_emitted j"
  "jf_emitted (num_to n j) = jf_emitted j"
  "jf_panic (mark_bad j) = jf_panic j"
  "jf_panic (start_literal l j) = jf_panic j"
  "jf_panic (num_to n j) = jf_panic j"
  "jf_failure (mark_bad j) = jf_failure j"
  "jf_failure (start_literal l j) = jf_failure j"
  "jf_failure (num_to n j) = jf_failure j"
  "jf_key_skipped (mark_bad j) = jf_key_skipped j"
  "jf_key_skipped (start_literal l j) = jf_key_skipped j"
  "jf_key_skipped (num_to n j) = jf_key_skipped j"
  "jf_overflow (mark_bad j) = jf_overflow j"
  "jf_overflow (start_literal l j) = jf_overflow j"
  "jf_overflow (num_to n j) = jf_overflow j"
  "jf_escape (mark_bad j) = jf_escape j"
  "jf_escape (start_literal l j) = jf_escape j"
  "jf_escape (num_to n j) = jf_escape j"
  "jf_unicode (mark_bad j) = jf_unicode j"
  "jf_unicode (start_literal l j) = jf_unicode j"
  "jf_unicode (num_to n j) = jf_unicode j"
  "jf_bad (mark_bad j) = True" "jf_bad (start_literal l j) = jf_bad j" "jf_bad (num_to n j) = jf_bad j"
  by (simp_all add: mark_bad_def start_literal_def num_to_def)

text \<open>A scalar byte only moves the grammar of the scalar: number, literal and bad change.\<close>

definition grammar_only :: "jfields \<Rightarrow> jfields \<Rightarrow> bool" where
  "grammar_only j i \<longleftrightarrow>
     (\<exists>n l p b. i = j\<lparr>jf_number := n, jf_literal := l, jf_literal_pos := p, jf_bad := (jf_bad j \<or> b)\<rparr>)"

lemma grammar_only_intros:
  "grammar_only j j" "grammar_only j (mark_bad j)" "grammar_only j (num_to n j)"
  "grammar_only j (start_literal l j)" "grammar_only j (j\<lparr>jf_literal_pos := p\<rparr>)"
  "grammar_only j x \<Longrightarrow> grammar_only j y \<Longrightarrow> grammar_only j (if b then x else y)"
proof -
  have g: "grammar_only j (j\<lparr>jf_number := n, jf_literal := l, jf_literal_pos := p, jf_bad := (jf_bad j \<or> b)\<rparr>)"
    for n l p b unfolding grammar_only_def by blast
  show "grammar_only j j" using g [where n = "jf_number j" and l = "jf_literal j" and p = "jf_literal_pos j" and b = False] by simp
  show "grammar_only j (mark_bad j)"
    using g [where n = "jf_number j" and l = "jf_literal j" and p = "jf_literal_pos j" and b = True] by (simp add: mark_bad_def)
  show "grammar_only j (num_to n j)"
    using g [where n = n and l = "jf_literal j" and p = "jf_literal_pos j" and b = False] by (simp add: num_to_def)
  show "grammar_only j (start_literal l j)"
    using g [where n = "jf_number j" and l = l and p = 1 and b = False] by (simp add: start_literal_def)
  show "grammar_only j (j\<lparr>jf_literal_pos := p\<rparr>)"
    using g [where n = "jf_number j" and l = "jf_literal j" and p = p and b = False] by simp
qed simp

lemma scalar_byte_grammar_only: "grammar_only j (scalar_byte j c)"
  unfolding scalar_byte_def Let_def
  by (cases "jf_number j"; simp only: jnum.case; (intro grammar_only_intros)+)

lemma scalar_byte_frame [simp]:
  "jf_stack (scalar_byte j c) = jf_stack j"
  "jf_token (scalar_byte j c) = jf_token j"
  "jf_mode (scalar_byte j c) = jf_mode j"
  "jf_key_token (scalar_byte j c) = jf_key_token j"
  "jf_fields (scalar_byte j c) = jf_fields j"
  "jf_emitted (scalar_byte j c) = jf_emitted j"
  "jf_panic (scalar_byte j c) = jf_panic j"
  "jf_failure (scalar_byte j c) = jf_failure j"
  "jf_key_skipped (scalar_byte j c) = jf_key_skipped j"
  "jf_overflow (scalar_byte j c) = jf_overflow j"
  "jf_escape (scalar_byte j c) = jf_escape j"
  "jf_unicode (scalar_byte j c) = jf_unicode j"
  using scalar_byte_grammar_only [of j c] by (auto simp: grammar_only_def)

lemma scalar_byte_keeps_bad: "jf_bad j \<Longrightarrow> jf_bad (scalar_byte j c)"
  by (cases "jf_literal j = []"; cases "jf_number j") (simp_all add: scalar_byte_def Let_def)

lemma scalar_byte_ok: "j_ok j \<Longrightarrow> jf_mode j \<noteq> ModeNone \<Longrightarrow> j_ok (scalar_byte j c)"
  by (simp add: j_ok_def token_limit_def)

lemma mark_bad_ok: "j_ok j \<Longrightarrow> j_ok (mark_bad j)"
  by (simp add: j_ok_def mark_bad_def token_limit_def)

lemma reset_token_ok: "j_ok j \<Longrightarrow> j_ok (reset_token j)"
  by (simp add: j_ok_def reset_token_def token_limit_def)

lemma set_top_ok:
  assumes "j_ok j" "jf_stack j \<noteq> []" "\<And>f. length (f_key f) \<le> 378 \<Longrightarrow> length (f_key (g f)) \<le> 378"
  shows "j_ok (set_top j g)"
  using assms by (cases "jf_stack j") (simp_all add: j_ok_def set_top_def token_limit_def)

lemma set_top_frame [simp]:
  "jf_mode (set_top j g) = jf_mode j" "jf_bad (set_top j g) = jf_bad j"
  "jf_fields (set_top j g) = jf_fields j" "jf_emitted (set_top j g) = jf_emitted j"
  "jf_key_token (set_top j g) = jf_key_token j" "(jf_stack (set_top j g) = []) = (jf_stack j = [])"
  by (simp_all add: set_top_def split: list.split)

lemma j_ok_skipped [simp]: "j_ok (j\<lparr>jf_key_skipped := b\<rparr>) = j_ok j"
  by (simp add: j_ok_def token_limit_def)

lemma j_ok_bad: "j_ok j \<Longrightarrow> j_ok (j\<lparr>jf_bad := True\<rparr>)"
  by (simp add: j_ok_def token_limit_def)

lemma key_scalar_ok:
  assumes "j_ok j" "jf_mode j \<noteq> ModeNone" "jf_key_token j"
  shows "j_ok (key_scalar j)"
proof -
  have s: "jf_stack j \<noteq> []" and len: "length (jf_token j) \<le> 128"
    using assms by (simp_all add: j_ok_def token_limit_def)
  have k: "j_ok (set_top j (\<lambda>f. f\<lparr>f_key := k\<rparr>))" if "length k \<le> 378" for k
    using assms(1) s that by (simp add: set_top_ok)
  have c: "j_ok (reset_token (set_top i (\<lambda>f. f\<lparr>f_state := AtColon\<rparr>)))"
    if "j_ok i" "jf_stack i \<noteq> []" for i
    using that by (simp add: set_top_ok reset_token_ok)
  show ?thesis
  proof (cases "jf_overflow j")
    case True
    then show ?thesis using k [of "[]"] s by (simp add: key_scalar_def c)
  next
    case False
    show ?thesis
    proof (cases "json_unquote (jf_token j)")
      case None
      then show ?thesis using False s j_ok_bad [OF assms(1)] by (simp add: key_scalar_def c)
    next
      case (Some u)
      then show ?thesis
        using False s k [OF json_unquote_length [OF Some len]] by (simp add: key_scalar_def c)
    qed
  qed
qed

lemma value_done_ok: "j_ok j \<Longrightarrow> j_ok (value_done j)"
  by (simp add: value_done_def j_ok_bad set_top_ok)

lemma j_ok_fields:
  "j_ok j \<Longrightarrow> wanted p \<Longrightarrow> length v \<le> 4096 \<Longrightarrow> j_ok (j\<lparr>jf_fields := (jf_fields j)(p \<mapsto> v)\<rparr>)"
  by (simp add: j_ok_def token_limit_def fields_bounded_upd)

lemma value_scalar_ok:
  assumes "j_ok j" "jf_mode j \<noteq> ModeNone" "\<not> jf_key_token j"
  shows "j_ok (value_scalar j)"
proof -
  have "length (jf_token j) \<le> 4096" using assms by (simp add: j_ok_def token_limit_def)
  then have w: "wanted p \<Longrightarrow> j_ok (reset_token (value_done (j\<lparr>jf_fields := (jf_fields j)(p \<mapsto> jf_token j)\<rparr>)))" for p
    using assms(1) by (intro reset_token_ok value_done_ok j_ok_fields)
  have "j_ok (j\<lparr>jf_failure := r, jf_bad := True\<rparr>)" for r
    using assms(1) by (simp add: j_ok_def token_limit_def)
  then show ?thesis
    using w j_ok_bad [OF assms(1)] reset_token_ok [OF value_done_ok [OF assms(1)]]
    by (simp add: value_scalar_def Let_def)
qed

lemma j_scalar_ok: "j_ok j \<Longrightarrow> jf_mode j \<noteq> ModeNone \<Longrightarrow> j_ok (j_scalar j)"
  by (simp add: j_scalar_def key_scalar_ok value_scalar_ok)

lemma j_scalar_mode: "\<not> jf_bad (j_scalar j) \<Longrightarrow> jf_mode (j_scalar j) = ModeNone"
  by (auto simp: j_scalar_def key_scalar_def value_scalar_def reset_token_def Let_def split: if_splits)

lemma j_append_mode [simp]: "jf_mode (j_append j c) = jf_mode j" "jf_stack (j_append j c) = jf_stack j"
    "jf_key_token (j_append j c) = jf_key_token j" "jf_bad (j_append j c) = jf_bad j"
    "jf_unicode (j_append j c) = jf_unicode j" "jf_escape (j_append j c) = jf_escape j"
  by (simp_all add: j_append_def)

lemma j_ok_flags [simp]:
  "j_ok (j\<lparr>jf_unicode := n\<rparr>) = j_ok j" "j_ok (j\<lparr>jf_escape := b\<rparr>) = j_ok j"
  by (simp_all add: j_ok_def token_limit_def)

lemma string_byte_ok:
  assumes "j_ok j" "jf_mode j = ModeString"
  shows "j_ok (string_byte j c)"
proof -
  have a: "j_ok (j_append j c)" using assms by (simp add: j_append_ok)
  have s: "j_ok (j_scalar (j_append j c))" using a assms by (simp add: j_scalar_ok)
  have m: "j_ok (mark_bad (j_append j c))" by (rule mark_bad_ok [OF a])
  have e: "j_ok (mark_bad (j_append j c\<lparr>jf_escape := False\<rparr>))" using a by (simp add: mark_bad_ok)
  consider "jf_unicode j > 0" | "jf_unicode j = 0" "jf_escape j" | "jf_unicode j = 0" "\<not> jf_escape j"
    by auto
  then show ?thesis
  proof cases
    case 1
    then show ?thesis using a m by (cases "is_hex c") (simp_all add: string_byte_def Let_def)
  next
    case 2
    then show ?thesis using a e by (cases "c = CHR ''u''") (simp_all add: string_byte_def Let_def)
  next
    case 3
    then show ?thesis using a s m
      by (cases "c = CHR 0x22"; cases "c = CHR 0x5C") (simp_all add: string_byte_def Let_def)
  qed
qed

lemma j_close_ok: "j_ok j \<Longrightarrow> jf_mode j = ModeNone \<Longrightarrow> jf_stack j \<noteq> [] \<Longrightarrow> j_ok (j_close j c)"
  by (cases "jf_stack j")
    (auto simp: j_close_def Let_def mark_bad_ok intro!: value_done_ok, auto simp: j_ok_def token_limit_def)

lemma open_value_ok: "j_ok j \<Longrightarrow> jf_mode j = ModeNone \<Longrightarrow> j_ok (open_value j c)"
  by (auto simp: j_ok_def open_value_def token_limit_def Let_def fields_bounded_upd)

lemma start_value_ok:
  assumes "j_ok j" "jf_mode j = ModeNone" "jf_stack j \<noteq> []" "\<not> jf_bad j"
  shows "j_ok (start_value j c)"
proof -
  let ?j = "j\<lparr>jf_key_token := False\<rparr>"
  have k: "j_ok ?j" "jf_mode ?j = ModeNone" using assms by (simp_all add: j_ok_def token_limit_def)
  have "j_ok (?j\<lparr>jf_mode := ModeString\<rparr>)" "j_ok (?j\<lparr>jf_mode := ModeScalar\<rparr>)"
    using k assms by (simp_all add: j_ok_def token_limit_def)
  then show ?thesis
    using open_value_ok [OF k] mark_bad_ok [OF k(1)]
    by (auto simp: start_value_def Let_def intro!: j_append_ok scalar_byte_ok)
qed

lemma struct_byte_ok:
  assumes "j_ok j" "jf_mode j = ModeNone" "\<not> jf_bad j"
  shows "j_ok (struct_byte j c)"
proof (cases "jf_stack j")
  case Nil
  with assms show ?thesis
    by (auto simp: struct_byte_def mark_bad_ok) (auto simp: j_ok_def token_limit_def)
next
  case (Cons f fs)
  then have ne: "jf_stack j \<noteq> []" by simp
  have "j_ok (set_top j (\<lambda>f. f\<lparr>f_state := g f\<rparr>))" for g
    using assms Cons by (auto simp: set_top_def j_ok_def token_limit_def)
  moreover have "j_ok (j_append (j\<lparr>jf_key_token := True, jf_mode := ModeString\<rparr>) c)"
    using assms Cons by (intro j_append_ok) (auto simp: j_ok_def token_limit_def)
  ultimately show ?thesis
    using assms Cons j_close_ok [OF assms(1,2) ne] start_value_ok [OF assms(1,2) ne assms(3)]
    by (auto simp: struct_byte_def mark_bad_ok)
qed

lemma json_byte_ok: "j_ok j \<Longrightarrow> j_ok (json_byte j c)"
  using j_scalar_ok [of j] j_scalar_mode [of j]
  by (auto simp: json_byte_def Let_def split: jmode.split
      intro!: string_byte_ok struct_byte_ok j_append_ok scalar_byte_ok)

lemma json_feed_append: "json_feed j (xs @ ys) = json_feed (json_feed j xs) ys"
  by (simp add: json_feed_def)

lemma json_feed_simps [simp]:
  "json_feed j [] = j" "json_feed j (c # cs) = json_feed (json_byte j c) cs"
  by (simp_all add: json_feed_def)

lemma json_feed_ok: "j_ok j \<Longrightarrow> j_ok (json_feed j data)"
  by (induction data arbitrary: j) (simp_all add: json_byte_ok)

lemma scalar_then_byte:
  "\<not> jf_bad j \<Longrightarrow> jf_mode j = ModeScalar \<Longrightarrow> delimiter c \<Longrightarrow> json_byte j c = json_byte (j_scalar j) c"
  using j_scalar_mode [of j] by (simp add: json_byte_def Let_def)

lemma json_feed_bad: "jf_bad j \<Longrightarrow> json_feed j data = j"
  by (induction data) (simp_all add: json_byte_def)

section \<open>Properties of the recognizer\<close>

text \<open>C29. The memory of the recognizer is bounded whatever the response holds: at most 64 frames with
  keys of at most 378 bytes, a token of at most 4096 bytes (128 for a key), and only the 16 selected
  paths, with at most 4096 bytes each, in the current and in every emitted field map; and it never
  indexes an empty stack.\<close>

theorem recognizer_bounded:
  "let j = json_feed new_jfields data in
     \<not> jf_panic j \<and> length (jf_stack j) \<le> 64 \<and> length (jf_token j) \<le> token_limit j \<and>
     (\<forall>f \<in> set (jf_stack j). length (f_key f) \<le> 378) \<and>
     (\<forall>m \<in> insert (jf_fields j) (set (jf_emitted j)).
        dom m \<subseteq> set wanted_paths \<and> (\<forall>v \<in> ran m. length v \<le> 4096))"
  using json_feed_ok [OF new_jfields_ok, of data]
  by (auto simp: Let_def j_ok_def fields_bounded_def wanted_def ran_def dom_def)

theorem recognizer_bounded_witness:
  "length (jf_stack (json_feed new_jfields ''{'')) \<le> 64"
  using recognizer_bounded [of "''{''"] by (simp add: Let_def)

end
