(* ===== verification/ResponseBody.thy ===== *)
theory ResponseBody
  imports StreamJson
begin

text \<open>
  \<^verbatim>\<open>internal/collector/responsebody.go\<close>: \<open>responseBody\<close>, the byte-transparent reader that the
  proxy puts around the body of an inference response. It feeds the bytes the client reads to the
  recognizer (directly, or through a server-sent-events line decoder), collects the selected fields
  and calls its three callbacks: \<open>emit\<close> with the collected sample after a clean end of the body,
  \<open>result\<close> at most once with the outcome of the extraction, and \<open>notice\<close> at most once when a
  field name was too long to be read.

  The calls of the callbacks are the entries of \<open>rb_log\<close>, in their order. The \<open>emit\<close> callback itself
  calls \<open>report\<close>; what it reports for a sample is the argument \<open>verdict\<close> of the operations (the
  theory Proxy gives it). The emit callback of the parser only changes fields that the parser does
  not read, so \<open>parser_byte\<close> runs it after the byte that made the parser call it.
\<close>

section \<open>State\<close>

datatype rb_call = CallEmit fields | CallResult string string | CallNotice

datatype read_err = NoErr | EOF | ReadFailed

record rbody =
  rb_parser :: jfields
  rb_sse :: bool
  rb_prefix :: string
  rb_line_data :: bool
  rb_line_bytes :: bool
  rb_pending_cr :: bool
  rb_marker :: string
  rb_event_fields :: "fields option"
  rb_sample :: fields
  rb_terminal :: bool
  rb_seen :: bool
  rb_failed :: bool
  rb_ended :: bool
  rb_closed :: bool
  rb_close_err :: "string option"
  rb_reported :: bool
  rb_noticed :: bool
  rb_failure :: string
  rb_log :: "rb_call list"

definition new_response_body :: "bool \<Rightarrow> rbody" where
  "new_response_body sse = \<lparr>rb_parser = new_jfields, rb_sse = sse, rb_prefix = [],
     rb_line_data = False, rb_line_bytes = False, rb_pending_cr = False, rb_marker = [],
     rb_event_fields = None, rb_sample = Map.empty, rb_terminal = False, rb_seen = False,
     rb_failed = False, rb_ended = False, rb_closed = False, rb_close_err = None,
     rb_reported = False, rb_noticed = False, rb_failure = [], rb_log = []\<rparr>"

section \<open>Recording outcomes\<close>

definition rb_fail :: "string \<Rightarrow> rbody \<Rightarrow> rbody" where
  "rb_fail reason b =
     b\<lparr>rb_failed := True, rb_failure := (if rb_failure b = [] then reason else rb_failure b)\<rparr>"

definition rb_report :: "string \<Rightarrow> string \<Rightarrow> rbody \<Rightarrow> rbody" where
  "rb_report outcome reason b =
     (if rb_reported b then b
      else b\<lparr>rb_reported := True, rb_log := rb_log b @ [CallResult outcome reason]\<rparr>)"

definition note_field_skip :: "rbody \<Rightarrow> rbody" where
  "note_field_skip b =
     (if jf_key_skipped (rb_parser b) \<and> \<not> rb_noticed b
      then b\<lparr>rb_noticed := True, rb_log := rb_log b @ [CallNotice]\<rparr> else b)"

section \<open>Fields\<close>

text \<open>\<open>json.Unmarshal\<close> of a field into a string that is empty before; \<open>None\<close> is an error (a missing
  field included). The fields hold valid scalar tokens or \<^verbatim>\<open>{}\<close> or \<^verbatim>\<open>[]\<close>.\<close>

definition unmarshal_string :: "string option \<Rightarrow> string option" where
  "unmarshal_string raw =
     (case raw of
        None \<Rightarrow> None
      | Some t \<Rightarrow> if t = ''null'' then Some [] else json_unquote t)"

definition rb_merge :: "fields \<Rightarrow> rbody \<Rightarrow> rbody" where
  "rb_merge f b =
     (if f ''error'' \<noteq> None then rb_fail ''upstream_error'' b
      else
        let b1 = b\<lparr>rb_sample := rb_sample b ++ f\<rparr>;
            is_stop = (unmarshal_string (f ''type'') = Some ''message_stop'')
        in if f ''done'' = Some ''true'' \<or> is_stop then b1\<lparr>rb_terminal := True\<rparr> else b1)"

text \<open>The emit callback of the parser.\<close>

definition parser_emit :: "rbody \<Rightarrow> fields \<Rightarrow> rbody" where
  "parser_emit b f =
     (let b1 = b\<lparr>rb_seen := True\<rparr> in
      if rb_sse b1 then
        (if rb_event_fields b1 \<noteq> None then rb_fail ''malformed'' b1 else b1)\<lparr>rb_event_fields := Some f\<rparr>
      else rb_merge f b1)"

definition parser_byte :: "rbody \<Rightarrow> char \<Rightarrow> rbody" where
  "parser_byte b c =
     (let p = rb_parser b; p' = json_byte p c
      in foldl parser_emit (b\<lparr>rb_parser := p'\<rparr>) (drop (length (jf_emitted p)) (jf_emitted p')))"

section \<open>Server-sent events\<close>

definition rb_dispatch :: "rbody \<Rightarrow> rbody" where
  "rb_dispatch b0 =
     (let b = note_field_skip b0;
          b1 = (if trim_space (rb_marker b) = ''[DONE]'' then b\<lparr>rb_terminal := True\<rparr>
                else if rb_marker b \<noteq> [] then rb_fail ''malformed'' b else b);
          b2 = (if \<not> json_complete (rb_parser b1) then rb_fail (failure_reason (rb_parser b1)) b1
                else case rb_event_fields b1 of Some f \<Rightarrow> rb_merge f b1 | None \<Rightarrow> b1)
      in b2\<lparr>rb_event_fields := None, rb_marker := [], rb_parser := new_jfields\<rparr>)"

definition sse_newline :: "rbody \<Rightarrow> rbody" where
  "sse_newline b =
     (let b1 = (if \<not> rb_line_bytes b then rb_dispatch b
                else if rb_line_data b \<and> rb_marker b = [] then parser_byte b (CHR 0x0A)
                else b)
      in b1\<lparr>rb_prefix := [], rb_line_data := False, rb_line_bytes := False\<rparr>)"

definition sse_data :: "rbody \<Rightarrow> char \<Rightarrow> rbody" where
  "sse_data b c =
     (if rb_marker b \<noteq> [] then
        if length (rb_marker b) < 32 then b\<lparr>rb_marker := rb_marker b @ encode_rune (byte c)\<rparr>
        else rb_fail ''malformed'' b
      else if c = CHR ''['' \<and> json_complete (rb_parser b) \<and> rb_event_fields b = None
      then b\<lparr>rb_marker := ''[''\<rparr>
      else parser_byte b c)"

definition sse_byte :: "rbody \<Rightarrow> char \<Rightarrow> rbody" where
  "sse_byte b0 c =
     (if c = CHR 0x0A then sse_newline b0
      else
        let b = b0\<lparr>rb_line_bytes := True\<rparr>
        in if rb_line_data b then sse_data b c
           else
             let b1 = (if length (rb_prefix b) < 6
                       then b\<lparr>rb_prefix := rb_prefix b @ encode_rune (byte c)\<rparr> else b)
             in if rb_prefix b1 = ''data:'' then b1\<lparr>rb_line_data := True\<rparr> else b1)"

text \<open>A byte of an event stream as \<open>Read\<close> sees it, with the pending carriage return.\<close>

definition sse_read_byte :: "rbody \<Rightarrow> char \<Rightarrow> rbody" where
  "sse_read_byte b c =
     (let b1 = (if rb_pending_cr b then
                  (let b' = b\<lparr>rb_pending_cr := False\<rparr>
                   in if c \<noteq> CHR 0x0A then sse_byte b' (CHR 0x0A) else b')
                else b)
      in if c = CHR 0x0D then b1\<lparr>rb_pending_cr := True\<rparr> else sse_byte b1 c)"

section \<open>Read and Close\<close>

definition rb_observe :: "rbody \<Rightarrow> string \<Rightarrow> rbody" where
  "rb_observe b data = (if rb_sse b then foldl sse_read_byte b data else foldl parser_byte b data)"

text \<open>The \<open>emit\<close> callback: it is called with the sample and reports the verdict for it.\<close>

definition call_emit :: "(fields \<Rightarrow> string \<times> string) \<Rightarrow> rbody \<Rightarrow> rbody" where
  "call_emit verdict b =
     (let (outcome, reason) = verdict (rb_sample b)
      in rb_report outcome reason (b\<lparr>rb_log := rb_log b @ [CallEmit (rb_sample b)]\<rparr>))"

definition rb_flush :: "rbody \<Rightarrow> rbody" where
  "rb_flush b =
     (if rb_sse b
      then rb_dispatch (if rb_line_bytes b \<or> rb_pending_cr b then sse_byte b (CHR 0x0A) else b)
      else b)"

definition rb_success :: "rbody \<Rightarrow> bool" where
  "rb_success b \<longleftrightarrow> \<not> rb_failed b \<and> json_complete (rb_parser b) \<and> (rb_seen b \<or> rb_terminal b)
     \<and> (\<not> rb_sse b \<or> rb_terminal b)"

definition rb_clean_eof :: "(fields \<Rightarrow> string \<times> string) \<Rightarrow> rbody \<Rightarrow> rbody" where
  "rb_clean_eof verdict b0 =
     (let b = rb_flush b0 in
      if rb_success b then call_emit verdict b
      else if rb_failed b then rb_report ''failed'' (rb_failure b) b
      else if \<not> json_complete (rb_parser b) then rb_report ''failed'' (failure_reason (rb_parser b)) b
      else rb_report ''skipped'' ''incomplete'' b)"

text \<open>\<open>Read\<close>, where the wrapped reader returned \<open>data\<close> and \<open>err\<close>; the client gets both as they are.\<close>

definition rb_read :: "(fields \<Rightarrow> string \<times> string) \<Rightarrow> rbody \<Rightarrow> string \<Rightarrow> read_err \<Rightarrow> rbody \<times> string \<times> read_err" where
  "rb_read verdict b data err =
     (let b1 = (if rb_ended b then b
                else
                  let b2 = note_field_skip (rb_observe b data)
                  in case err of
                       NoErr \<Rightarrow> b2
                     | EOF \<Rightarrow> rb_clean_eof verdict (b2\<lparr>rb_ended := True\<rparr>)
                     | ReadFailed \<Rightarrow> rb_report ''failed'' ''read_error'' (b2\<lparr>rb_ended := True\<rparr>))
      in (b1, data, err))"

text \<open>\<open>Close\<close>, where closing the wrapped reader would return \<open>err\<close>.\<close>

definition rb_close :: "rbody \<Rightarrow> string option \<Rightarrow> rbody \<times> string option" where
  "rb_close b err =
     (let b1 = (if rb_closed b then b else b\<lparr>rb_closed := True, rb_close_err := err\<rparr>);
          b2 = rb_report ''skipped'' ''body_closed'' b1
      in (b2, rb_close_err b2))"

text \<open>What a client does with the body.\<close>

datatype rb_op = OpRead string read_err | OpClose "string option"

primrec rb_op_step :: "(fields \<Rightarrow> string \<times> string) \<Rightarrow> rbody \<Rightarrow> rb_op \<Rightarrow> rbody" where
  "rb_op_step verdict b (OpRead data err) = fst (rb_read verdict b data err)"
| "rb_op_step verdict b (OpClose err) = fst (rb_close b err)"

definition rb_ops :: "(fields \<Rightarrow> string \<times> string) \<Rightarrow> rbody \<Rightarrow> rb_op list \<Rightarrow> rbody" where
  "rb_ops verdict b ops = foldl (rb_op_step verdict) b ops"

section \<open>What observing changes\<close>

text \<open>Observing bytes logs nothing but the notice, and does not touch what the reader reports.\<close>

definition quiet :: "rbody \<Rightarrow> rbody \<Rightarrow> bool" where
  "quiet b b' \<longleftrightarrow> rb_log b' = rb_log b \<and> rb_reported b' = rb_reported b \<and> rb_noticed b' = rb_noticed b
     \<and> rb_ended b' = rb_ended b \<and> rb_closed b' = rb_closed b \<and> rb_close_err b' = rb_close_err b
     \<and> rb_sse b' = rb_sse b"

lemma quiet_refl [simp]: "quiet b b"
  by (simp add: quiet_def)

lemma quiet_trans: "quiet a b \<Longrightarrow> quiet b c \<Longrightarrow> quiet a c"
  by (simp add: quiet_def)

lemma quiet_fail: "quiet b (rb_fail r b)"
  by (simp add: quiet_def rb_fail_def)

lemma quiet_merge: "quiet b (rb_merge f b)"
  by (simp add: quiet_def rb_merge_def rb_fail_def Let_def)

lemma quiet_parser_emit: "quiet b (parser_emit b f)"
  using quiet_merge [of "b\<lparr>rb_seen := True\<rparr>" f]
  by (auto simp: parser_emit_def quiet_def rb_fail_def Let_def)

lemma quiet_foldl_emit: "quiet b (foldl parser_emit b fs)"
  by (induction fs arbitrary: b) (auto intro: quiet_trans quiet_parser_emit)

lemma quiet_parser_byte: "quiet b (parser_byte b c)"
  using quiet_foldl_emit [of "b\<lparr>rb_parser := json_byte (rb_parser b) c\<rparr>"]
  by (simp add: parser_byte_def quiet_def Let_def)

text \<open>Key-skipping is sticky in the recognizer, until \<open>dispatch\<close> replaces it.\<close>

lemma j_append_skipped [simp]: "jf_key_skipped (j_append j c) = jf_key_skipped j"
  by (simp add: j_append_def)

lemma set_top_skipped [simp]: "jf_key_skipped (set_top j g) = jf_key_skipped j"
  by (simp add: set_top_def split: list.split)

lemma value_done_skipped [simp]: "jf_key_skipped (value_done j) = jf_key_skipped j"
  by (simp add: value_done_def)

lemma j_scalar_skipped: "jf_key_skipped j \<Longrightarrow> jf_key_skipped (j_scalar j)"
  by (simp add: j_scalar_def key_scalar_def value_scalar_def reset_token_def Let_def split: option.split)

lemma j_close_skipped [simp]: "jf_key_skipped (j_close j c) = jf_key_skipped j"
  by (simp add: j_close_def Let_def split: list.split)

lemma start_value_skipped [simp]: "jf_key_skipped (start_value j c) = jf_key_skipped j"
  by (simp add: start_value_def open_value_def Let_def)

lemma struct_byte_skipped [simp]: "jf_key_skipped (struct_byte j c) = jf_key_skipped j"
  by (cases "jf_stack j") (simp_all add: struct_byte_def)

lemma string_byte_skipped: "jf_key_skipped j \<Longrightarrow> jf_key_skipped (string_byte j c)"
  by (simp add: string_byte_def Let_def j_scalar_skipped)

lemma json_byte_skipped: "jf_key_skipped j \<Longrightarrow> jf_key_skipped (json_byte j c)"
  by (simp add: json_byte_def Let_def string_byte_skipped j_scalar_skipped split: jmode.split)

text \<open>The notice flag and the log are not read by what observes a byte.\<close>

definition relog :: "bool \<Rightarrow> rb_call list \<Rightarrow> rbody \<Rightarrow> rbody" where
  "relog n l b = b\<lparr>rb_noticed := n, rb_log := l\<rparr>"

lemma relog_fail: "rb_fail r (relog n l b) = relog n l (rb_fail r b)"
  by (simp add: rb_fail_def relog_def)

lemma relog_merge: "rb_merge f (relog n l b) = relog n l (rb_merge f b)"
  by (simp add: rb_merge_def rb_fail_def relog_def Let_def)

lemma relog_emit: "parser_emit (relog n l b) f = relog n l (parser_emit b f)"
proof (cases "rb_sse b")
  case True
  then show ?thesis by (simp add: parser_emit_def relog_def rb_fail_def Let_def)
next
  case False
  have "(relog n l b)\<lparr>rb_seen := True\<rparr> = relog n l (b\<lparr>rb_seen := True\<rparr>)" "\<not> rb_sse (relog n l b)"
      "\<not> rb_sse (relog n l (b\<lparr>rb_seen := True\<rparr>))"
    using False by (simp_all add: relog_def)
  with False show ?thesis by (simp add: parser_emit_def relog_merge Let_def)
qed

lemma relog_foldl_emit: "foldl parser_emit (relog n l b) fs = relog n l (foldl parser_emit b fs)"
  by (induction fs arbitrary: b) (simp_all add: relog_emit)

lemma relog_parser_byte: "parser_byte (relog n l b) c = relog n l (parser_byte b c)"
proof -
  have "(relog n l b)\<lparr>rb_parser := p\<rparr> = relog n l (b\<lparr>rb_parser := p\<rparr>)" for p
    by (simp add: relog_def)
  moreover have "rb_parser (relog n l b) = rb_parser b" by (simp add: relog_def)
  ultimately show ?thesis by (simp add: parser_byte_def relog_foldl_emit Let_def)
qed

lemma parser_byte_parser [simp]: "rb_parser (parser_byte b c) = json_byte (rb_parser b) c"
proof -
  have "rb_parser (foldl parser_emit i fs) = rb_parser i" for i fs
    by (induction fs arbitrary: i) (simp_all add: parser_emit_def rb_merge_def rb_fail_def Let_def)
  then show ?thesis by (simp add: parser_byte_def Let_def)
qed

text \<open>Noting a skipped key before an observation changes nothing that noting it after does not.\<close>

definition late_note :: "(rbody \<Rightarrow> rbody) \<Rightarrow> bool" where
  "late_note g \<longleftrightarrow> (\<forall>b. note_field_skip (g (note_field_skip b)) = note_field_skip (g b))"

lemma late_note_id: "late_note (\<lambda>b. b)"
  by (simp add: late_note_def note_field_skip_def)

lemma late_noteI:
  assumes "\<And>b n l. g (relog n l b) = relog n l (g b)" "\<And>b. quiet b (g b)"
    "\<And>b. jf_key_skipped (rb_parser b) \<Longrightarrow> jf_key_skipped (rb_parser (g b))"
  shows "late_note g"
  unfolding late_note_def
proof
  fix b
  show "note_field_skip (g (note_field_skip b)) = note_field_skip (g b)"
  proof (cases "jf_key_skipped (rb_parser b) \<and> \<not> rb_noticed b")
    case True
    then have n: "note_field_skip b = relog True (rb_log b @ [CallNotice]) b"
      by (simp add: note_field_skip_def relog_def)
    have "note_field_skip (g b) = relog True (rb_log b @ [CallNotice]) (g b)"
      using True assms(2) [of b] assms(3) [of b] by (simp add: note_field_skip_def relog_def quiet_def)
    moreover have "note_field_skip (relog True l i) = relog True l i" for l i
      by (simp add: note_field_skip_def relog_def)
    ultimately show ?thesis by (simp add: n assms(1))
  next
    case False
    then have "note_field_skip b = b" unfolding note_field_skip_def by (simp only: if_False)
    then show ?thesis by simp
  qed
qed

lemma late_note_comp: "late_note f \<Longrightarrow> late_note g \<Longrightarrow> late_note (\<lambda>b. g (f b))"
  unfolding late_note_def by metis

lemma late_note_if:
  assumes "late_note f" "late_note g" "\<And>b. P (note_field_skip b) = P b"
  shows "late_note (\<lambda>b. if P b then f b else g b)"
  using assms by (simp add: late_note_def)

lemma note_frame [simp]:
  "rb_parser (note_field_skip b) = rb_parser b" "rb_sse (note_field_skip b) = rb_sse b"
  "rb_prefix (note_field_skip b) = rb_prefix b" "rb_line_data (note_field_skip b) = rb_line_data b"
  "rb_line_bytes (note_field_skip b) = rb_line_bytes b"
  "rb_pending_cr (note_field_skip b) = rb_pending_cr b" "rb_marker (note_field_skip b) = rb_marker b"
  "rb_event_fields (note_field_skip b) = rb_event_fields b"
  "rb_sample (note_field_skip b) = rb_sample b" "rb_terminal (note_field_skip b) = rb_terminal b"
  "rb_seen (note_field_skip b) = rb_seen b" "rb_failed (note_field_skip b) = rb_failed b"
  "rb_ended (note_field_skip b) = rb_ended b" "rb_reported (note_field_skip b) = rb_reported b"
  "rb_failure (note_field_skip b) = rb_failure b" "rb_closed (note_field_skip b) = rb_closed b"
  by (simp_all add: note_field_skip_def)

lemma note_idem [simp]: "note_field_skip (note_field_skip b) = note_field_skip b"
  by (simp add: note_field_skip_def)

lemma late_note_parser_byte: "late_note (\<lambda>b. parser_byte b c)"
  by (rule late_noteI) (simp_all add: relog_parser_byte quiet_parser_byte json_byte_skipped)

lemma late_note_dispatch: "late_note rb_dispatch"
  by (simp add: late_note_def rb_dispatch_def)

lemma late_note_newline: "late_note sse_newline"
proof -
  have "late_note (\<lambda>b. (if \<not> rb_line_bytes b then rb_dispatch b
      else if rb_line_data b \<and> rb_marker b = [] then parser_byte b (CHR 0x0A) else b))"
    by (intro late_note_if late_note_id late_note_dispatch late_note_parser_byte) simp_all
  moreover have "late_note (\<lambda>b. b\<lparr>rb_prefix := [], rb_line_data := False, rb_line_bytes := False\<rparr>)"
    by (rule late_noteI) (simp_all add: relog_def quiet_def)
  ultimately have "late_note (\<lambda>b. (if \<not> rb_line_bytes b then rb_dispatch b
      else if rb_line_data b \<and> rb_marker b = [] then parser_byte b (CHR 0x0A) else b)
        \<lparr>rb_prefix := [], rb_line_data := False, rb_line_bytes := False\<rparr>)"
    by (rule late_note_comp)
  then show ?thesis unfolding sse_newline_def Let_def .
qed

lemma late_note_data: "late_note (\<lambda>b. sse_data b c)"
  unfolding sse_data_def
  by (intro late_note_if late_note_parser_byte late_noteI)
    (simp_all add: relog_def quiet_def rb_fail_def)

lemma sse_byte_eq:
  "sse_byte b c =
     (if c = CHR 0x0A then sse_newline b
      else if rb_line_data b then sse_data (b\<lparr>rb_line_bytes := True\<rparr>) c
      else
        let p = (if length (rb_prefix b) < 6 then rb_prefix b @ encode_rune (byte c) else rb_prefix b)
        in b\<lparr>rb_line_bytes := True, rb_prefix := p, rb_line_data := (p = ''data:'')\<rparr>)"
  by (simp add: sse_byte_def Let_def)

lemma late_note_sse_byte: "late_note (\<lambda>b. sse_byte b c)"
proof -
  have "late_note (\<lambda>b. b\<lparr>rb_line_bytes := True\<rparr>)"
    by (rule late_noteI) (simp_all add: relog_def quiet_def)
  from late_note_comp [OF this late_note_data]
  have d: "late_note (\<lambda>b. sse_data (b\<lparr>rb_line_bytes := True\<rparr>) c)" .
  have "late_note (\<lambda>b. let p = (if length (rb_prefix b) < 6 then rb_prefix b @ encode_rune (byte c) else rb_prefix b)
        in b\<lparr>rb_line_bytes := True, rb_prefix := p, rb_line_data := (p = ''data:'')\<rparr>)"
    by (rule late_noteI) (simp_all add: relog_def quiet_def Let_def)
  then show ?thesis unfolding sse_byte_eq
    by (intro late_note_if late_note_newline d) simp_all
qed

lemma late_note_sse_read: "late_note (\<lambda>b. sse_read_byte b c)"
proof -
  have u: "late_note (\<lambda>b. b\<lparr>rb_pending_cr := v\<rparr>)" for v
    by (rule late_noteI) (simp_all add: relog_def quiet_def)
  have 1: "late_note (\<lambda>b. if rb_pending_cr b then
      (if c \<noteq> CHR 0x0A then sse_byte (b\<lparr>rb_pending_cr := False\<rparr>) (CHR 0x0A) else b\<lparr>rb_pending_cr := False\<rparr>)
      else b)"
    by (intro late_note_if late_note_id u late_note_comp [OF u late_note_sse_byte]) simp_all
  have 2: "late_note (\<lambda>b. if c = CHR 0x0D then b\<lparr>rb_pending_cr := True\<rparr> else sse_byte b c)"
    by (intro late_note_if u late_note_sse_byte) simp_all
  show ?thesis unfolding sse_read_byte_def Let_def by (rule late_note_comp [OF 1 2])
qed

lemma late_note_foldl:
  assumes "\<And>c. late_note (\<lambda>b. g b c)"
  shows "late_note (\<lambda>b. foldl g b cs)"
proof (induction cs)
  case Nil
  then show ?case by (simp add: late_note_id)
next
  case (Cons c cs)
  from late_note_comp [OF assms this] show ?case by simp
qed

text \<open>Observing any number of bytes keeps the reporting state and logs at most the notice.\<close>

definition calm :: "rbody \<Rightarrow> rbody \<Rightarrow> bool" where
  "calm b b' \<longleftrightarrow> rb_reported b' = rb_reported b \<and> rb_ended b' = rb_ended b \<and> rb_closed b' = rb_closed b
     \<and> rb_sse b' = rb_sse b
     \<and> (rb_noticed b' = rb_noticed b \<and> rb_log b' = rb_log b
        \<or> \<not> rb_noticed b \<and> rb_noticed b' \<and> rb_log b' = rb_log b @ [CallNotice])"

lemma calm_refl [simp]: "calm b b"
  by (simp add: calm_def)

lemma calm_trans: "calm a b \<Longrightarrow> calm b c \<Longrightarrow> calm a c"
  by (auto simp: calm_def)

lemma quiet_calm: "quiet a b \<Longrightarrow> calm a b"
  by (simp add: calm_def quiet_def)

lemma calm_note: "calm b (note_field_skip b)"
  by (simp add: calm_def note_field_skip_def)

lemma calm_dispatch: "calm b (rb_dispatch b)"
proof -
  let ?n = "note_field_skip b"
  define m where "m = (if trim_space (rb_marker ?n) = ''[DONE]'' then ?n\<lparr>rb_terminal := True\<rparr>
                else if rb_marker ?n \<noteq> [] then rb_fail ''malformed'' ?n else ?n)"
  define e where "e = (if \<not> json_complete (rb_parser m) then rb_fail (failure_reason (rb_parser m)) m
                else case rb_event_fields m of Some f \<Rightarrow> rb_merge f m | None \<Rightarrow> m)"
  have "quiet ?n m" by (simp add: m_def quiet_fail) (simp add: quiet_def)
  moreover have "quiet m e" by (simp add: e_def quiet_fail quiet_merge split: option.split)
  ultimately have "calm b e" by (blast intro: calm_trans calm_note quiet_calm)
  moreover have "rb_dispatch b = e\<lparr>rb_event_fields := None, rb_marker := [], rb_parser := new_jfields\<rparr>"
    unfolding rb_dispatch_def Let_def m_def e_def by (rule refl)
  ultimately show ?thesis by (simp add: calm_def)
qed

lemma calm_newline: "calm b (sse_newline b)"
  using calm_dispatch [of b] quiet_calm [OF quiet_parser_byte, of b "CHR 0x0A"]
  by (simp add: sse_newline_def Let_def calm_def)

lemma calm_data: "calm b (sse_data b c)"
  using quiet_calm [OF quiet_parser_byte, of b c] quiet_calm [OF quiet_fail, of b]
  by (simp add: sse_data_def) (simp add: calm_def)

lemma calm_sse_byte: "calm b (sse_byte b c)"
  using calm_newline [of b] calm_data [of "b\<lparr>rb_line_bytes := True\<rparr>" c]
  by (simp add: sse_byte_eq Let_def) (simp add: calm_def)

lemma calm_sse_read: "calm b (sse_read_byte b c)"
proof -
  define b1 where "b1 = (if rb_pending_cr b then
      (let b' = b\<lparr>rb_pending_cr := False\<rparr> in if c \<noteq> CHR 0x0A then sse_byte b' (CHR 0x0A) else b') else b)"
  have "calm b b1" using calm_sse_byte [of "b\<lparr>rb_pending_cr := False\<rparr>" "CHR 0x0A"]
    by (simp add: b1_def Let_def) (simp add: calm_def)
  moreover have "calm b1 (b1\<lparr>rb_pending_cr := True\<rparr>)" by (simp add: calm_def)
  ultimately have "calm b (b1\<lparr>rb_pending_cr := True\<rparr>)" "calm b (sse_byte b1 c)"
    by (blast intro: calm_trans calm_sse_byte)+
  then show ?thesis by (simp add: sse_read_byte_def flip: b1_def)
qed

lemma calm_foldl: "(\<And>b c. calm b (g b c)) \<Longrightarrow> calm b (foldl g b cs)"
  by (induction cs arbitrary: b) (auto intro: calm_trans)

lemma calm_observe: "calm b (rb_observe b data)"
  by (simp add: rb_observe_def calm_foldl calm_sse_read quiet_calm quiet_parser_byte)

lemma calm_flush: "calm b (rb_flush b)"
  using calm_dispatch calm_sse_byte by (auto simp: rb_flush_def intro: calm_trans)

lemma observe_append: "rb_observe b (xs @ ys) = rb_observe (rb_observe b xs) ys"
  using calm_observe [of b xs] by (simp add: rb_observe_def calm_def)

lemma late_note_observe:
  "note_field_skip (rb_observe (note_field_skip b) data) = note_field_skip (rb_observe b data)"
  using late_note_foldl [of sse_read_byte data] late_note_foldl [of parser_byte data]
    late_note_sse_read late_note_parser_byte
  by (simp add: late_note_def rb_observe_def)

lemma read_read:
  assumes "\<not> rb_ended b"
  shows "fst (rb_read v (fst (rb_read v b xs NoErr)) ys err) = fst (rb_read v b (xs @ ys) err)"
proof -
  have "\<not> rb_ended (note_field_skip (rb_observe b xs))"
    using assms calm_observe [of b xs] by (simp add: calm_def)
  with assms show ?thesis by (simp add: rb_read_def late_note_observe observe_append)
qed

lemma read_open: "\<not> rb_ended b \<Longrightarrow> \<not> rb_ended (fst (rb_read v b xs NoErr))"
  using calm_observe [of b xs] by (simp add: rb_read_def calm_def)

lemma reads_concat:
  "\<not> rb_ended b \<Longrightarrow>
   rb_ops v b (map (\<lambda>d. OpRead d NoErr) ds @ [OpRead d err]) = fst (rb_read v b (concat ds @ d) err)"
proof (induction ds arbitrary: b)
  case Nil
  then show ?case by (simp add: rb_ops_def)
next
  case (Cons x ds)
  from Cons.IH [OF read_open [OF Cons.prems]] show ?case
    by (simp add: rb_ops_def read_read [OF Cons.prems])
qed

section \<open>One terminal result per response\<close>

definition is_result :: "rb_call \<Rightarrow> bool" where
  "is_result e = (case e of CallResult _ _ \<Rightarrow> True | _ \<Rightarrow> False)"

definition is_emit :: "rb_call \<Rightarrow> bool" where
  "is_emit e = (case e of CallEmit _ \<Rightarrow> True | _ \<Rightarrow> False)"

definition rb_ok :: "rbody \<Rightarrow> bool" where
  "rb_ok b \<longleftrightarrow> length (filter is_result (rb_log b)) = (if rb_reported b then 1 else 0)
     \<and> count_list (rb_log b) CallNotice = (if rb_noticed b then 1 else 0)
     \<and> length (filter is_emit (rb_log b)) \<le> (if rb_ended b then 1 else 0)"

lemma result_simps [simp]:
  "is_result (CallResult a r)" "\<not> is_result (CallEmit f)" "\<not> is_result CallNotice"
  "\<not> is_emit (CallResult a r)" "is_emit (CallEmit f)" "\<not> is_emit CallNotice"
  by (simp_all add: is_result_def is_emit_def)

lemma ok_calm:
  assumes "rb_ok b" "calm b b'"
  shows "rb_ok b'"
proof (cases "rb_log b' = rb_log b")
  case True
  with assms show ?thesis unfolding rb_ok_def calm_def by simp
next
  case False
  with assms have "\<not> rb_noticed b" "rb_noticed b'" "rb_log b' = rb_log b @ [CallNotice]"
    "rb_reported b' = rb_reported b" "rb_ended b' = rb_ended b" unfolding calm_def by blast+
  with assms(1) show ?thesis unfolding rb_ok_def by simp
qed

lemma ok_ended: "rb_ok b \<Longrightarrow> rb_ok (b\<lparr>rb_ended := True\<rparr>)"
  by (simp add: rb_ok_def split: if_splits)

lemma ok_report: "rb_ok b \<Longrightarrow> rb_ok (rb_report x y b)"
  by (auto simp: rb_ok_def rb_report_def)

lemma report_frame [simp]:
  "rb_ended (rb_report x y b) = rb_ended b" "rb_reported (rb_report x y b)"
  by (simp_all add: rb_report_def)

lemma ok_emit:
  assumes "rb_ok b" "rb_ended b" "filter is_emit (rb_log b) = []"
  shows "rb_ok (call_emit v b)"
proof -
  have "rb_ok (b\<lparr>rb_log := rb_log b @ [CallEmit (rb_sample b)]\<rparr>)"
    using assms by (simp add: rb_ok_def)
  from ok_report [OF this] show ?thesis by (simp add: call_emit_def split: prod.split)
qed

lemma emit_frame [simp]: "rb_ended (call_emit v b) = rb_ended b" "rb_reported (call_emit v b)"
  by (simp_all add: call_emit_def split: prod.split)

lemma calm_emits: "calm b b' \<Longrightarrow> filter is_emit (rb_log b') = filter is_emit (rb_log b)"
  by (auto simp: calm_def)

lemma eof_frame:
  "rb_ended (rb_clean_eof v b) = rb_ended b" "rb_reported (rb_clean_eof v b)"
  using calm_flush [of b] by (simp_all add: rb_clean_eof_def Let_def calm_def)

lemma ok_eof:
  assumes "rb_ok b" "rb_ended b" "filter is_emit (rb_log b) = []"
  shows "rb_ok (rb_clean_eof v b)"
proof -
  have "rb_ok (rb_flush b)" by (rule ok_calm [OF assms(1) calm_flush])
  moreover have "rb_ended (rb_flush b)" using calm_flush [of b] assms(2) by (simp add: calm_def)
  moreover have "filter is_emit (rb_log (rb_flush b)) = []"
    using calm_emits [OF calm_flush] assms(3) by simp
  ultimately show ?thesis by (simp add: rb_clean_eof_def Let_def ok_report ok_emit)
qed

lemma ok_open: "rb_ok b \<Longrightarrow> \<not> rb_ended b \<Longrightarrow> filter is_emit (rb_log b) = []"
  by (simp add: rb_ok_def)

lemma calm_seen: "calm b (note_field_skip (rb_observe b d))"
  by (rule calm_trans [OF calm_observe calm_note])

lemma ok_read: "rb_ok b \<Longrightarrow> rb_ok (fst (rb_read v b d e))"
proof -
  assume ok: "rb_ok b"
  let ?b = "note_field_skip (rb_observe b d)"
  have 1: "rb_ok ?b" by (rule ok_calm [OF ok calm_seen])
  have 2: "filter is_emit (rb_log ?b) = []" if "\<not> rb_ended b"
    using ok_open [OF ok that] calm_emits [OF calm_seen, of b d] by simp
  have 3: "rb_ok (rb_clean_eof v (?b\<lparr>rb_ended := True\<rparr>))" if "\<not> rb_ended b"
    using ok_eof [OF ok_ended [OF 1]] 2 [OF that] by simp
  show ?thesis
    using ok 1 3 by (simp add: rb_read_def Let_def ok_ended ok_report split: read_err.split)
qed

lemma ok_close: "rb_ok b \<Longrightarrow> rb_ok (fst (rb_close b e))"
proof -
  assume ok: "rb_ok b"
  then have "rb_ok (b\<lparr>rb_closed := True, rb_close_err := e\<rparr>)" by (simp add: rb_ok_def)
  from ok_report [OF this] ok_report [OF ok] show ?thesis by (simp add: rb_close_def Let_def)
qed

text \<open>The operations after which the extraction has its result.\<close>

definition final_op :: "rb_op \<Rightarrow> bool" where
  "final_op op = (case op of OpRead _ e \<Rightarrow> e \<noteq> NoErr | OpClose _ \<Rightarrow> True)"

definition ended_reported :: "rbody \<Rightarrow> bool" where
  "ended_reported b \<longleftrightarrow> (rb_ended b \<longrightarrow> rb_reported b)"

lemma step_reported:
  assumes "ended_reported b"
  shows "rb_reported (rb_op_step v b op) = (rb_reported b \<or> final_op op)"
    and "ended_reported (rb_op_step v b op)"
proof -
  have r: "rb_reported (note_field_skip (rb_observe b d)) = rb_reported b"
    "rb_ended (note_field_skip (rb_observe b d)) = rb_ended b" for d
    using calm_seen [of b d] by (simp_all add: calm_def)
  show "rb_reported (rb_op_step v b op) = (rb_reported b \<or> final_op op)"
    using r assms by (cases op)
      (auto simp: rb_read_def rb_close_def Let_def final_op_def ended_reported_def eof_frame
        split: read_err.split)
  show "ended_reported (rb_op_step v b op)"
    using r assms by (cases op)
      (auto simp: rb_read_def rb_close_def Let_def ended_reported_def eof_frame split: read_err.split)
qed

lemma ops_reported:
  assumes "ended_reported b" "rb_ok b"
  shows "rb_reported (rb_ops v b ops) = (rb_reported b \<or> (\<exists>op \<in> set ops. final_op op)) \<and> rb_ok (rb_ops v b ops)"
  using assms
proof (induction ops arbitrary: b)
  case (Cons op ops)
  have "rb_ok (rb_op_step v b op)" using Cons.prems(2) by (cases op) (simp_all add: ok_read ok_close)
  from Cons.IH [OF step_reported(2) [OF Cons.prems(1)] this] step_reported(1) [OF Cons.prems(1), of v op]
  show ?case by (auto simp: rb_ops_def)
qed (simp add: rb_ops_def)

lemma new_body_ok: "rb_ok (new_response_body sse)" "ended_reported (new_response_body sse)"
  by (simp_all add: rb_ok_def ended_reported_def new_response_body_def)

text \<open>C11. Whatever the client does with the body (reads of any sizes, errors, one or several Closes, in
  any order), exactly one result is reported once a read has failed or reached the end or the body
  was closed, and none before; the sample is emitted at most once and the field notice is raised at
  most once.\<close>

theorem one_result_per_response:
  "let log = rb_log (rb_ops v (new_response_body sse) ops) in
     length (filter is_result log) = (if list_ex final_op ops then 1 else 0) \<and>
     length (filter is_emit log) \<le> 1 \<and> count_list log CallNotice \<le> 1"
proof -
  from ops_reported [OF new_body_ok(2,1), of v sse ops]
  have r: "rb_reported (rb_ops v (new_response_body sse) ops) = list_ex final_op ops"
    and ok: "rb_ok (rb_ops v (new_response_body sse) ops)"
    by (simp_all add: list_ex_iff new_response_body_def)
  from ok show ?thesis unfolding rb_ok_def Let_def r by (auto split: if_splits)
qed

text \<open>C27. The extraction does not depend on how the bytes of the response arrive: reading them in any
  chunks makes the same callbacks, in the same order and with the same arguments, as reading the
  whole response in one piece.\<close>

theorem extraction_independent_of_chunks:
  "rb_ops v (new_response_body sse) (map (\<lambda>d. OpRead d NoErr) ds @ [OpRead d err]) =
   fst (rb_read v (new_response_body sse) (concat ds @ d) err)"
  by (rule reads_concat) (simp add: new_response_body_def)

end
