(* ===== verification/Proxy.thy ===== *)
theory Proxy
  imports Metrics ModelCache ResponseBody
begin

text \<open>
  \<^verbatim>\<open>internal/collector/proxy.go\<close> and \<^verbatim>\<open>usage.go\<close>: what the proxy records about a request and the sample
  extracted from its response. \<open>instrumentedHandler\<close> wraps the forwarding of a request,
  \<open>modifyResponse\<close> decides whether a response is observed, and the emit callback it installs turns a
  sample into metric calls. The reverse proxy itself, the HTTP server and the sockets are library
  code: the handler takes the forwarding as an argument.
\<close>

section \<open>Decoding fields\<close>

text \<open>
  \<open>json.Unmarshal\<close> of a field into an int64 or a bool that is zero before; \<open>None\<close> is an error. An
  integer is a number token that \<open>strconv.ParseInt\<close> accepts: no fraction, no exponent, in range.
\<close>

definition unmarshal_int :: "string \<Rightarrow> int option" where
  "unmarshal_int raw =
     (if raw = ''null'' then Some 0 else if json_number raw then atoi raw else None)"

definition unmarshal_bool :: "string \<Rightarrow> bool option" where
  "unmarshal_bool raw =
     (if raw = ''null'' \<or> raw = ''false'' then Some False
      else if raw = ''true'' then Some True else None)"

text \<open>
  The native sample is marshalled to an object and unmarshalled into \<open>ollama.GenerateResponse\<close>: a
  missing field keeps its zero value, a field of another type is an error.
\<close>

record generate_response =
  g_model :: string
  g_done :: bool
  g_load_duration :: int
  g_prompt_eval_count :: int
  g_prompt_eval_duration :: int
  g_eval_count :: int
  g_eval_duration :: int

definition field_string :: "fields \<Rightarrow> string \<Rightarrow> string option" where
  "field_string f k = (case f k of None \<Rightarrow> Some [] | Some raw \<Rightarrow> unmarshal_string (Some raw))"

definition field_int :: "fields \<Rightarrow> string \<Rightarrow> int option" where
  "field_int f k = (case f k of None \<Rightarrow> Some 0 | Some raw \<Rightarrow> unmarshal_int raw)"

definition field_bool :: "fields \<Rightarrow> string \<Rightarrow> bool option" where
  "field_bool f k = (case f k of None \<Rightarrow> Some False | Some raw \<Rightarrow> unmarshal_bool raw)"

definition decode_generate :: "fields \<Rightarrow> generate_response option" where
  "decode_generate f =
     (case (field_string f ''model'', field_bool f ''done'', field_int f ''load_duration'',
            field_int f ''prompt_eval_count'', field_int f ''prompt_eval_duration'',
            field_int f ''eval_count'', field_int f ''eval_duration'') of
        (Some m, Some d, Some ld, Some pc, Some pd, Some ec, Some ed) \<Rightarrow>
          Some \<lparr>g_model = m, g_done = d, g_load_duration = ld, g_prompt_eval_count = pc,
                g_prompt_eval_duration = pd, g_eval_count = ec, g_eval_duration = ed\<rparr>
      | _ \<Rightarrow> None)"

section \<open>Native responses\<close>

definition ns_to_sec :: fval where "ns_to_sec = FInt 1000000000"

definition seconds_of :: "int \<Rightarrow> fval" where "seconds_of ns = FDiv (FInt ns) ns_to_sec"

definition generate_calls :: "generate_response \<Rightarrow> string \<Rightarrow> model_info \<Rightarrow> metric_call list" where
  "generate_calls gen path info =
     (let labels = [g_model gen, mi_family info, mi_quant info] in
      (if g_load_duration gen > 0 then
         [MObserve LoadDuration labels (seconds_of (g_load_duration gen)),
          MObserve ModelLoadDurationSeconds [g_model gen] (seconds_of (g_load_duration gen))]
       else [])
      @ (if g_prompt_eval_duration gen > 0 then
           [MObserve PromptEvalDuration labels (seconds_of (g_prompt_eval_duration gen))]
           @ (if g_prompt_eval_count gen > 0 then
                [MSet PromptTokensPerSec labels
                   (FDiv (FInt (g_prompt_eval_count gen)) (seconds_of (g_prompt_eval_duration gen))),
                 MSet KVCachePressureRatio labels
                   (FDiv (FInt (g_prompt_eval_duration gen)) (FInt (g_prompt_eval_count gen)))]
              else [])
         else [])
      @ (if g_eval_duration gen > 0 then
           [MObserve EvalDuration labels (seconds_of (g_eval_duration gen))]
           @ (if g_eval_count gen > 0 then
                [MSet TokensPerSecond labels
                   (FDiv (FInt (g_eval_count gen)) (seconds_of (g_eval_duration gen)))]
              else [])
         else [])
      @ (if g_prompt_eval_count gen > 0
         then [MAdd PromptTokensTotal (labels @ [path]) (FInt (g_prompt_eval_count gen))] else [])
      @ (if g_eval_count gen > 0
         then [MAdd EvalTokensTotal (labels @ [path]) (FInt (g_eval_count gen))] else [])
      @ [MInc RequestsTotal (labels @ [path])])"

definition record_generate_metrics ::
    "(string \<Rightarrow> string) \<Rightarrow> show_fn \<Rightarrow> model_cache \<Rightarrow> generate_response \<Rightarrow> string \<Rightarrow> model_cache \<times> metric_call list" where
  "record_generate_metrics uni show_fn mc gen path =
     (let (info, mc') = mc_get uni show_fn mc (g_model gen) in (mc', generate_calls gen path info))"

section \<open>Compatibility responses\<close>

definition usage_model :: "string \<Rightarrow> fields \<Rightarrow> string" where
  "usage_model requested f =
     foldl (\<lambda>model key. case unmarshal_string (f key) of
              Some v \<Rightarrow> if v \<noteq> [] then v else model
            | None \<Rightarrow> model) requested [''model'', ''message.model'']"

definition input_keys :: "string list" where
  "input_keys = [''usage.prompt_tokens'', ''usage.input_tokens'', ''message.usage.input_tokens'']"

definition output_keys :: "string list" where
  "output_keys = [''usage.completion_tokens'', ''usage.output_tokens'', ''message.usage.output_tokens'']"

text \<open>A usage field that counts: present and not null.\<close>

definition usage_raw :: "fields \<Rightarrow> string \<Rightarrow> string option" where
  "usage_raw f key = (case f key of Some raw \<Rightarrow> if raw \<noteq> ''null'' then Some raw else None | None \<Rightarrow> None)"

definition usage_count :: "string \<Rightarrow> int option" where
  "usage_count raw =
     (case unmarshal_int raw of Some n \<Rightarrow> if n \<ge> 0 then Some n else None | None \<Rightarrow> None)"

definition usage_valid :: "fields \<Rightarrow> bool" where
  "usage_valid f \<longleftrightarrow> list_all (\<lambda>key. case usage_raw f key of Some raw \<Rightarrow> usage_count raw \<noteq> None | None \<Rightarrow> True)
     (input_keys @ output_keys)"

definition usage_present :: "fields \<Rightarrow> bool" where
  "usage_present f \<longleftrightarrow> list_ex (\<lambda>key. usage_raw f key \<noteq> None) (input_keys @ output_keys)"

text \<open>The first of the keys with a valid count, after which the loop breaks.\<close>

fun first_count :: "fields \<Rightarrow> string list \<Rightarrow> int option" where
  "first_count f [] = None"
| "first_count f (key # keys) =
     (case usage_raw f key of
        Some raw \<Rightarrow> (case usage_count raw of Some n \<Rightarrow> Some n | None \<Rightarrow> first_count f keys)
      | None \<Rightarrow> first_count f keys)"

definition observe_count :: "metric \<Rightarrow> string list \<Rightarrow> int option \<Rightarrow> metric_call list" where
  "observe_count m labels n = (case n of Some v \<Rightarrow> [MObserve m labels (FInt v)] | None \<Rightarrow> [])"

definition record_usage ::
    "(string \<Rightarrow> string) \<Rightarrow> show_fn \<Rightarrow> model_cache \<Rightarrow> string \<Rightarrow> string \<Rightarrow> fields
     \<Rightarrow> model_cache \<times> metric_call list \<times> string \<times> string" where
  "record_usage uni show_fn mc requested path f =
     (let model = usage_model requested f in
      if \<not> usage_valid f then (mc, [], ''failed'', ''invalid_fields'')
      else
        let (info, mc') = mc_get uni show_fn mc model;
            labels = [model, mi_family info, mi_quant info, path]
        in (mc', [MInc RequestsTotal labels]
                 @ observe_count CompatibilityInputTokens labels (first_count f input_keys)
                 @ observe_count CompatibilityOutputTokens labels (first_count f output_keys),
            if \<not> usage_present f then (''skipped'', ''usage_absent'') else (''success'', ''none'')))"

section \<open>The emit callback\<close>

definition record_sample ::
    "(string \<Rightarrow> string) \<Rightarrow> show_fn \<Rightarrow> model_cache \<Rightarrow> bool \<Rightarrow> string \<Rightarrow> string \<Rightarrow> fields
     \<Rightarrow> model_cache \<times> metric_call list \<times> string \<times> string" where
  "record_sample uni show_fn mc compatibility requested path f =
     (if compatibility then record_usage uni show_fn mc requested path f
      else case decode_generate f of
        None \<Rightarrow> (mc, [], ''failed'', ''invalid_fields'')
      | Some gen \<Rightarrow>
          if \<not> g_done gen then (mc, [], ''skipped'', ''incomplete'')
          else
            let (mc', calls) = record_generate_metrics uni show_fn mc gen path
            in (mc', calls, ''success'', ''none''))"

text \<open>What the callback reports for a sample does not depend on the cache.\<close>

definition sample_verdict :: "bool \<Rightarrow> fields \<Rightarrow> string \<times> string" where
  "sample_verdict compatibility f =
     (if compatibility then
        if \<not> usage_valid f then (''failed'', ''invalid_fields'')
        else if \<not> usage_present f then (''skipped'', ''usage_absent'') else (''success'', ''none'')
      else case decode_generate f of
        None \<Rightarrow> (''failed'', ''invalid_fields'')
      | Some gen \<Rightarrow> if \<not> g_done gen then (''skipped'', ''incomplete'') else (''success'', ''none''))"

lemma record_sample_verdict:
  "snd (snd (record_sample uni s mc cp req path f)) = sample_verdict cp f"
  by (simp add: record_sample_def sample_verdict_def record_usage_def Let_def split: prod.split option.split)

section \<open>Which responses are observed\<close>

definition inference_path :: "string \<Rightarrow> bool" where
  "inference_path path \<longleftrightarrow> path \<in> set [''/api/generate'', ''/api/chat'', ''/v1/chat/completions'',
     ''/v1/completions'', ''/v1/messages'']"

record request =
  rq_method :: string
  rq_path :: string
  rq_query_model :: string
  rq_model :: string

record response =
  rs_request :: request
  rs_status :: int
  rs_content_type :: string

datatype observation = NotObserved "metric_call list" | Observed bool rbody

definition compat_path :: "string \<Rightarrow> bool" where
  "compat_path path \<longleftrightarrow> has_prefix path ''/v1/''"

definition modify_response :: "string list \<Rightarrow> response \<Rightarrow> observation" where
  "modify_response exclude_paths resp =
     (let path = rq_path (rs_request resp) in
      if rq_method (rs_request resp) \<noteq> ''POST'' \<or> \<not> inference_path path then NotObserved []
      else if path \<in> set exclude_paths then NotObserved []
      else if rs_status resp < 200 \<or> rs_status resp \<ge> 300
      then NotObserved [MInc ExtractionResults [''skipped'', ''http_status'']]
      else
        let compatibility = compat_path path
        in Observed compatibility
             (new_response_body (compatibility \<and> has_prefix (rs_content_type resp) ''text/event-stream'')))"

section \<open>An observed exchange\<close>

text \<open>
  The callbacks as metric calls: \<open>result\<close> and \<open>notice\<close> increment their counters, \<open>emit\<close> records the
  sample. The cache is threaded through; \<open>show_fn\<close> is what the server answers meanwhile.
\<close>

primrec callback_calls ::
    "(string \<Rightarrow> string) \<Rightarrow> show_fn \<Rightarrow> bool \<Rightarrow> request \<Rightarrow> model_cache \<Rightarrow> rb_call \<Rightarrow> model_cache \<times> metric_call list" where
  "callback_calls uni s cp rq mc (CallResult outcome reason) =
     (mc, [MInc ExtractionResults [outcome, reason]])"
| "callback_calls uni s cp rq mc CallNotice = (mc, [MInc ExtractionFieldSkips [''field_name_limit'']])"
| "callback_calls uni s cp rq mc (CallEmit f) =
     (let (mc', calls, _, _) = record_sample uni s mc cp (rq_model rq) (rq_path rq) f in (mc', calls))"

primrec callbacks_calls ::
    "(string \<Rightarrow> string) \<Rightarrow> show_fn \<Rightarrow> bool \<Rightarrow> request \<Rightarrow> model_cache \<Rightarrow> rb_call list \<Rightarrow> model_cache \<times> metric_call list" where
  "callbacks_calls uni s cp rq mc [] = (mc, [])"
| "callbacks_calls uni s cp rq mc (c # cs) =
     (let (mc1, xs) = callback_calls uni s cp rq mc c;
          (mc2, ys) = callbacks_calls uni s cp rq mc1 cs
      in (mc2, xs @ ys))"

text \<open>A response, and the operations the server makes on its body while it copies it to the client.\<close>

definition exchange ::
    "(string \<Rightarrow> string) \<Rightarrow> show_fn \<Rightarrow> string list \<Rightarrow> model_cache \<Rightarrow> response \<Rightarrow> rb_op list \<Rightarrow> model_cache \<times> metric_call list" where
  "exchange uni s exclude_paths mc resp ops =
     (case modify_response exclude_paths resp of
        NotObserved calls \<Rightarrow> (mc, calls)
      | Observed cp b \<Rightarrow>
          callbacks_calls uni s cp (rs_request resp) mc (rb_log (rb_ops (sample_verdict cp) b ops)))"

section \<open>The request\<close>

text \<open>
  An inbound body: its bytes, and whether they end with an error. \<open>io.ReadAll\<close> on an \<open>io.LimitReader\<close>
  reads up to the limit; it meets the error of the body only when the body ends before the limit.
\<close>

record inbound_body =
  ib_bytes :: string
  ib_error :: bool

definition body_limit :: nat where "body_limit = 65536"

definition read_prefix :: "inbound_body \<Rightarrow> string \<times> bool" where
  "read_prefix body =
     (take body_limit (ib_bytes body), ib_error body \<and> length (ib_bytes body) < body_limit)"

text \<open>What is left for the \<open>MultiReader\<close> after the prefix.\<close>

definition forwarded_body :: "inbound_body \<Rightarrow> inbound_body" where
  "forwarded_body body =
     \<lparr>ib_bytes = fst (read_prefix body) @ drop body_limit (ib_bytes body), ib_error = ib_error body\<rparr>"

definition peek_model :: "string \<Rightarrow> string \<Rightarrow> string" where
  "peek_model query_model prefix =
     (if prefix = [] then query_model
      else case unmarshal_string (jf_fields (json_feed new_jfields prefix) ''model'') of
        Some m \<Rightarrow> if m \<noteq> [] then m else query_model
      | None \<Rightarrow> query_model)"

datatype served = Rejected | Forwarded request "inbound_body option"

text \<open>\<open>eofReader\<close>: after the end of the body has been seen the source is not read again.\<close>

definition eof_read :: "bool \<Rightarrow> string \<times> read_err \<Rightarrow> bool \<times> (string \<times> read_err)" where
  "eof_read eof source = (if eof then (eof, [], EOF) else (snd source = EOF, source))"

text \<open>
  The handler. \<open>next\<close> is the forwarding: it gets the request with its model and returns the cache
  and the metric calls of the exchange; \<open>elapsed\<close> is the measured duration.
\<close>

definition instrumented_handler ::
    "(string \<Rightarrow> string) \<Rightarrow> show_fn \<Rightarrow> string list
     \<Rightarrow> (request \<Rightarrow> model_cache \<Rightarrow> model_cache \<times> metric_call list) \<Rightarrow> duration
     \<Rightarrow> model_cache \<Rightarrow> request \<Rightarrow> inbound_body option \<Rightarrow> model_cache \<times> metric_call list \<times> served" where
  "instrumented_handler uni s exclude_paths next elapsed mc rq body =
     (let endpoint = rq_path rq;
          peeked = (if rq_method rq = ''POST'' \<and> inference_path endpoint then body else None);
          (model, read_err, body') =
            (case peeked of
               None \<Rightarrow> (rq_query_model rq, False, body)
             | Some b \<Rightarrow> (peek_model (rq_query_model rq) (fst (read_prefix b)), snd (read_prefix b),
                          Some (forwarded_body b)));
          rq' = rq\<lparr>rq_model := model\<rparr>
      in if endpoint \<in> set exclude_paths then
           if read_err then (mc, [], Rejected)
           else (let (mc1, calls) = next rq mc in (mc1, calls, Forwarded rq body'))
         else
           let (mc1, calls) = (if read_err then (mc, []) else next rq' mc);
               (info, mc2) = mc_get uni s mc1 model
           in (mc2, [MInc RequestsInFlight [model, endpoint]] @ calls
                    @ [MObserve RequestDuration [model, mi_family info, mi_quant info, endpoint] (FSeconds elapsed),
                       MDec RequestsInFlight [model, endpoint]],
               if read_err then Rejected else Forwarded rq' body'))"

text \<open>The whole of a proxied request, the upstream's response and the body operations being given.\<close>

definition proxied ::
    "(string \<Rightarrow> string) \<Rightarrow> show_fn \<Rightarrow> string list \<Rightarrow> model_cache \<Rightarrow> request \<Rightarrow> inbound_body option
     \<Rightarrow> response \<Rightarrow> rb_op list \<Rightarrow> duration \<Rightarrow> model_cache \<times> metric_call list \<times> served" where
  "proxied uni s exclude_paths mc rq body resp ops elapsed =
     instrumented_handler uni s exclude_paths
       (\<lambda>rq' mc'. exchange uni s exclude_paths mc' (resp\<lparr>rs_request := rq'\<rparr>) ops) elapsed mc rq body"

section \<open>What an exchange records\<close>

lemma callbacks_all:
  assumes "\<And>c mc. c \<in> set cs \<Longrightarrow> list_all P (snd (callback_calls uni s cp rq mc c))"
  shows "list_all P (snd (callbacks_calls uni s cp rq mc cs))"
  using assms
proof (induction cs arbitrary: mc)
  case (Cons c cs)
  have "list_all P (snd (callback_calls uni s cp rq mc c))" by (rule Cons.prems) simp
  moreover have "list_all P (snd (callbacks_calls uni s cp rq (fst (callback_calls uni s cp rq mc c)) cs))"
    by (rule Cons.IH) (simp add: Cons.prems)
  ultimately show ?case by (simp add: Let_def split_def)
qed simp

lemma callbacks_count:
  assumes "\<And>c mc. calls_of P (snd (callback_calls uni s cp rq mc c)) = (if Q c then 1 else 0)"
  shows "calls_of P (snd (callbacks_calls uni s cp rq mc cs)) = length (filter Q cs)"
proof (induction cs arbitrary: mc)
  case (Cons c cs)
  then show ?case using assms [of mc c] by (simp add: Let_def split_def)
qed simp

text \<open>The calls of a sample.\<close>

definition is_extraction :: "metric_call \<Rightarrow> bool" where
  "is_extraction c = (case c of MInc m _ \<Rightarrow> m = ExtractionResults | _ \<Rightarrow> False)"

lemma generate_calls_all:
  assumes "\<And>ls v. length ls = 3 \<Longrightarrow> P (MObserve LoadDuration ls v) \<and> P (MObserve PromptEvalDuration ls v)
      \<and> P (MObserve EvalDuration ls v) \<and> P (MSet PromptTokensPerSec ls v) \<and> P (MSet KVCachePressureRatio ls v)
      \<and> P (MSet TokensPerSecond ls v)"
    "\<And>n v. P (MObserve ModelLoadDurationSeconds [n] v)"
    "\<And>ls i. length ls = 4 \<Longrightarrow> 0 < i \<Longrightarrow> P (MAdd PromptTokensTotal ls (FInt i)) \<and> P (MAdd EvalTokensTotal ls (FInt i))"
    "\<And>ls. length ls = 4 \<Longrightarrow> P (MInc RequestsTotal ls)"
  shows "list_all P (generate_calls gen path info)"
  using assms by (simp add: generate_calls_def Let_def)

lemma record_sample_all:
  assumes "\<And>gen path info. list_all P (generate_calls gen path info)"
    "\<And>a b c d. P (MInc RequestsTotal [a, b, c, d])"
    "\<And>a b c d v. P (MObserve CompatibilityInputTokens [a, b, c, d] v)"
    "\<And>a b c d v. P (MObserve CompatibilityOutputTokens [a, b, c, d] v)"
  shows "list_all P (fst (snd (record_sample uni s mc cp req path f)))"
  using assms
  by (simp add: record_sample_def record_usage_def record_generate_metrics_def observe_count_def Let_def
      split: prod.split option.split)

lemma sample_no_extraction: "list_all (\<lambda>c. \<not> is_extraction c) (fst (snd (record_sample uni s mc cp req path f)))"
  by (rule record_sample_all, rule generate_calls_all) (simp_all add: is_extraction_def)

lemma calls_of_none: "list_all (\<lambda>c. \<not> P c) cs \<Longrightarrow> calls_of P cs = 0"
  by (induction cs) simp_all

lemma callback_extraction:
  "calls_of is_extraction (snd (callback_calls uni s cp rq mc c)) = (if is_result c then 1 else 0)"
proof (cases c)
  case (CallEmit f)
  then show ?thesis
    using calls_of_none [OF sample_no_extraction, of uni s mc cp "rq_model rq" "rq_path rq" f]
    by (simp add: Let_def split_def)
qed (simp_all add: is_extraction_def)

text \<open>The responses that the proxy looks into.\<close>

definition eligible :: "string list \<Rightarrow> request \<Rightarrow> bool" where
  "eligible exclude_paths rq \<longleftrightarrow> rq_method rq = ''POST'' \<and> inference_path (rq_path rq) \<and> rq_path rq \<notin> set exclude_paths"

lemma ops_results:
  "length (filter is_result (rb_log (rb_ops v (new_response_body sse) ops))) = (if list_ex final_op ops then 1 else 0)"
proof -
  from ops_reported [OF new_body_ok(2,1), of v sse ops]
  have r: "rb_reported (rb_ops v (new_response_body sse) ops) = list_ex final_op ops"
    and ok: "rb_ok (rb_ops v (new_response_body sse) ops)"
    by (simp_all add: list_ex_iff new_response_body_def)
  from ok show ?thesis unfolding rb_ok_def r by simp
qed

text \<open>One terminal extraction result per eligible response, whatever the client and the upstream do: an
  inference POST on a path that is not excluded adds exactly one to \<^verbatim>\<open>proxy_extraction_total\<close> once its
  status is known not to be 2xx or its body has been read to an end or closed, and no other
  exchange ever does.\<close>

theorem one_extraction_result_per_eligible_response:
  "calls_of is_extraction (snd (exchange uni s exclude_paths mc resp ops)) =
     (if eligible exclude_paths (rs_request resp) \<and>
         (rs_status resp < 200 \<or> rs_status resp \<ge> 300 \<or> list_ex final_op ops) then 1 else 0)"
  using callbacks_count [OF callback_extraction] ops_results
  by (simp add: exchange_def modify_response_def eligible_def Let_def is_extraction_def)

section \<open>Fixed label vocabularies\<close>

definition outcomes :: "string set" where "outcomes = {''success'', ''failed'', ''skipped''}"

definition parser_reasons :: "string set" where
  "parser_reasons = {''malformed'', ''incomplete'', ''selected_value_limit'', ''depth_limit''}"

definition body_reasons :: "string set" where
  "body_reasons = insert ''upstream_error'' parser_reasons"

definition reasons :: "string set" where
  "reasons = body_reasons \<union> {''http_status'', ''read_error'', ''body_closed'', ''invalid_fields'', ''usage_absent'', ''none''}"

definition failure_ok :: "jfields \<Rightarrow> bool" where
  "failure_ok j \<longleftrightarrow> jf_failure j \<in> {[], ''selected_value_limit'', ''depth_limit''}"

lemma failure_ok_reason: "failure_ok j \<Longrightarrow> failure_reason j \<in> parser_reasons"
  by (auto simp: failure_ok_def failure_reason_def parser_reasons_def)

lemma j_append_failure [simp]: "jf_failure (j_append j c) = jf_failure j"
  by (simp add: j_append_def)

lemma set_top_failure [simp]: "jf_failure (set_top j g) = jf_failure j"
  by (simp add: set_top_def split: list.split)

lemma value_done_failure [simp]: "jf_failure (value_done j) = jf_failure j"
  by (simp add: value_done_def)

lemma reset_token_failure [simp]: "jf_failure (reset_token j) = jf_failure j"
  by (simp add: reset_token_def)

lemma key_scalar_failure [simp]: "jf_failure (key_scalar j) = jf_failure j"
  by (simp add: key_scalar_def Let_def split: option.split)

lemma j_scalar_failure: "failure_ok j \<Longrightarrow> failure_ok (j_scalar j)"
  by (simp add: j_scalar_def value_scalar_def failure_ok_def Let_def)

lemma failure_ok_same: "failure_ok j \<Longrightarrow> jf_failure i = jf_failure j \<Longrightarrow> failure_ok i"
  by (simp add: failure_ok_def)

lemma j_close_failure [simp]: "jf_failure (j_close j c) = jf_failure j"
  by (simp add: j_close_def Let_def split: list.split)

lemma start_value_failure: "failure_ok j \<Longrightarrow> failure_ok (start_value j c)"
  by (simp add: start_value_def open_value_def failure_ok_def Let_def)

lemma failure_ok_if: "failure_ok x \<Longrightarrow> failure_ok y \<Longrightarrow> failure_ok (if b then x else y)"
  by simp

lemma struct_byte_failure:
  assumes "failure_ok j"
  shows "failure_ok (struct_byte j c)"
proof -
  have k: "failure_ok i" if "jf_failure i = jf_failure j" for i by (rule failure_ok_same [OF assms that])
  show ?thesis
    unfolding struct_byte_def
    by (cases "jf_stack j"; simp only: list.case)
      (intro failure_ok_if start_value_failure assms k; simp)+
qed

lemma string_byte_failure:
  assumes "failure_ok j"
  shows "failure_ok (string_byte j c)"
proof -
  have k: "failure_ok i" if "jf_failure i = jf_failure j" for i by (rule failure_ok_same [OF assms that])
  have s: "failure_ok (j_scalar (j_append j c))" by (rule j_scalar_failure) (simp add: k)
  show ?thesis
    unfolding string_byte_def Let_def by (intro failure_ok_if s k; simp)
qed

lemma json_byte_failure: "failure_ok j \<Longrightarrow> failure_ok (json_byte j c)"
proof (cases "jf_mode j")
  case ModeScalar
  assume f: "failure_ok j"
  have "failure_ok (j_append (scalar_byte j c) c)" by (rule failure_ok_same [OF f]) simp
  with f ModeScalar struct_byte_failure [OF j_scalar_failure [OF f], of c] j_scalar_failure [OF f] show ?thesis
    by (simp add: json_byte_def Let_def)
qed (simp_all add: json_byte_def string_byte_failure struct_byte_failure)

definition rb_reasons_ok :: "rbody \<Rightarrow> bool" where
  "rb_reasons_ok b \<longleftrightarrow> failure_ok (rb_parser b) \<and> (rb_failed b \<longrightarrow> rb_failure b \<in> body_reasons)
     \<and> (\<not> rb_failed b \<longrightarrow> rb_failure b = [])
     \<and> (\<forall>o1 r. CallResult o1 r \<in> set (rb_log b) \<longrightarrow> o1 \<in> outcomes \<and> r \<in> reasons)"

lemma body_reason_nonempty: "[] \<notin> body_reasons"
  by (simp add: body_reasons_def parser_reasons_def)

lemma ro_fail: "rb_reasons_ok b \<Longrightarrow> r \<in> body_reasons \<Longrightarrow> rb_reasons_ok (rb_fail r b)"
  using body_reason_nonempty by (auto simp: rb_reasons_ok_def rb_fail_def)

lemma ro_merge: "rb_reasons_ok b \<Longrightarrow> rb_reasons_ok (rb_merge f b)"
  using ro_fail [of b "''upstream_error''"]
  by (auto simp: rb_merge_def Let_def body_reasons_def) (auto simp: rb_reasons_ok_def)

lemma malformed_reason: "''malformed'' \<in> body_reasons" "r \<in> parser_reasons \<Longrightarrow> r \<in> body_reasons"
  by (simp_all add: body_reasons_def parser_reasons_def)

text \<open>Fields that the vocabulary does not depend on.\<close>

lemma ro_updates [simp]:
  "rb_reasons_ok (b\<lparr>rb_seen := x1\<rparr>) = rb_reasons_ok b" "rb_reasons_ok (b\<lparr>rb_event_fields := x2\<rparr>) = rb_reasons_ok b"
  "rb_reasons_ok (b\<lparr>rb_marker := x3\<rparr>) = rb_reasons_ok b" "rb_reasons_ok (b\<lparr>rb_terminal := x4\<rparr>) = rb_reasons_ok b"
  "rb_reasons_ok (b\<lparr>rb_prefix := x5\<rparr>) = rb_reasons_ok b" "rb_reasons_ok (b\<lparr>rb_line_data := x6\<rparr>) = rb_reasons_ok b"
  "rb_reasons_ok (b\<lparr>rb_line_bytes := x7\<rparr>) = rb_reasons_ok b" "rb_reasons_ok (b\<lparr>rb_pending_cr := x8\<rparr>) = rb_reasons_ok b"
  "rb_reasons_ok (b\<lparr>rb_ended := x9\<rparr>) = rb_reasons_ok b"
  "rb_reasons_ok (b\<lparr>rb_closed := y1\<rparr>) = rb_reasons_ok b" "rb_reasons_ok (b\<lparr>rb_close_err := y2\<rparr>) = rb_reasons_ok b"
  by (simp_all add: rb_reasons_ok_def)

lemma ro_emit: "rb_reasons_ok b \<Longrightarrow> rb_reasons_ok (parser_emit b f)"
  using ro_merge [of "b\<lparr>rb_seen := True\<rparr>" f] ro_fail [of "b\<lparr>rb_seen := True\<rparr>", OF _ malformed_reason(1)]
  by (simp add: parser_emit_def Let_def)

lemma ro_parser: "rb_reasons_ok b \<Longrightarrow> failure_ok p \<Longrightarrow> rb_reasons_ok (b\<lparr>rb_parser := p\<rparr>)"
  by (simp add: rb_reasons_ok_def)

lemma ro_parser_byte: "rb_reasons_ok b \<Longrightarrow> rb_reasons_ok (parser_byte b c)"
proof -
  assume b: "rb_reasons_ok b"
  have f: "rb_reasons_ok (foldl parser_emit i fs)" if "rb_reasons_ok i" for i fs
    using that by (induction fs arbitrary: i) (simp_all add: ro_emit)
  have "failure_ok (rb_parser b)" using b by (simp add: rb_reasons_ok_def)
  from f [OF ro_parser [OF b json_byte_failure [OF this]]] show ?thesis by (simp add: parser_byte_def Let_def)
qed

lemma ro_note: "rb_reasons_ok b \<Longrightarrow> rb_reasons_ok (note_field_skip b)"
  by (auto simp: note_field_skip_def rb_reasons_ok_def)

lemma new_failure_ok: "failure_ok new_jfields"
  by (simp add: failure_ok_def new_jfields_def)

lemma ro_dispatch: "rb_reasons_ok b \<Longrightarrow> rb_reasons_ok (rb_dispatch b)"
proof -
  assume "rb_reasons_ok b"
  then have n: "rb_reasons_ok (note_field_skip b)" by (rule ro_note)
  define m where "m = (if trim_space (rb_marker (note_field_skip b)) = ''[DONE]'' then (note_field_skip b)\<lparr>rb_terminal := True\<rparr>
                else if rb_marker (note_field_skip b) \<noteq> [] then rb_fail ''malformed'' (note_field_skip b) else note_field_skip b)"
  define e where "e = (if \<not> json_complete (rb_parser m) then rb_fail (failure_reason (rb_parser m)) m
                else case rb_event_fields m of Some f \<Rightarrow> rb_merge f m | None \<Rightarrow> m)"
  have m: "rb_reasons_ok m" using n ro_fail [OF n malformed_reason(1)] by (simp add: m_def)
  then have "failure_ok (rb_parser m)" by (simp add: rb_reasons_ok_def)
  from failure_ok_reason [OF this] m have "rb_reasons_ok e"
    by (auto simp: e_def malformed_reason(2) intro: ro_fail ro_merge split: option.split)
  moreover have "rb_dispatch b = e\<lparr>rb_event_fields := None, rb_marker := [], rb_parser := new_jfields\<rparr>"
    unfolding rb_dispatch_def Let_def m_def e_def by (rule refl)
  ultimately show ?thesis by (simp add: ro_parser new_failure_ok)
qed

lemma ro_sse_byte: "rb_reasons_ok b \<Longrightarrow> rb_reasons_ok (sse_byte b c)"
proof -
  assume b: "rb_reasons_ok b"
  have "rb_reasons_ok (sse_newline b)"
    using b by (simp add: sse_newline_def Let_def ro_dispatch ro_parser_byte)
  moreover have "rb_reasons_ok (sse_data (b\<lparr>rb_line_bytes := True\<rparr>) c)"
    using b by (simp add: sse_data_def ro_parser_byte ro_fail malformed_reason)
  ultimately show ?thesis using b by (simp add: sse_byte_eq Let_def)
qed

lemma ro_sse_read: "rb_reasons_ok b \<Longrightarrow> rb_reasons_ok (sse_read_byte b c)"
  by (simp add: sse_read_byte_def Let_def ro_sse_byte)

lemma ro_foldl: "(\<And>b c. rb_reasons_ok b \<Longrightarrow> rb_reasons_ok (g b c)) \<Longrightarrow> rb_reasons_ok b \<Longrightarrow> rb_reasons_ok (foldl g b cs)"
  by (induction cs arbitrary: b) simp_all

lemma ro_observe: "rb_reasons_ok b \<Longrightarrow> rb_reasons_ok (rb_observe b d)"
  by (simp add: rb_observe_def ro_foldl ro_sse_read ro_parser_byte)

lemma ro_report: "rb_reasons_ok b \<Longrightarrow> x \<in> outcomes \<Longrightarrow> r \<in> reasons \<Longrightarrow> rb_reasons_ok (rb_report x r b)"
  by (auto simp: rb_report_def rb_reasons_ok_def)

lemma verdict_vocabulary: "fst (sample_verdict cp f) \<in> outcomes \<and> snd (sample_verdict cp f) \<in> reasons"
  by (simp add: sample_verdict_def outcomes_def reasons_def body_reasons_def parser_reasons_def split: option.split)

lemma ro_call_emit: "rb_reasons_ok b \<Longrightarrow> rb_reasons_ok (call_emit (sample_verdict cp) b)"
  using verdict_vocabulary [of cp "rb_sample b"]
  by (auto simp: call_emit_def split: prod.split intro!: ro_report) (auto simp: rb_reasons_ok_def)

lemma vocabulary_members:
  "''failed'' \<in> outcomes" "''skipped'' \<in> outcomes" "''incomplete'' \<in> reasons" "''read_error'' \<in> reasons"
  "''body_closed'' \<in> reasons" "r \<in> body_reasons \<Longrightarrow> r \<in> reasons"
  by (auto simp: outcomes_def reasons_def body_reasons_def parser_reasons_def)

lemma ro_eof: "rb_reasons_ok b \<Longrightarrow> rb_reasons_ok (rb_clean_eof (sample_verdict cp) b)"
proof -
  assume "rb_reasons_ok b"
  then have b: "rb_reasons_ok (rb_flush b)" by (simp add: rb_flush_def ro_dispatch ro_sse_byte)
  then have "rb_failed (rb_flush b) \<Longrightarrow> rb_failure (rb_flush b) \<in> reasons"
    "failure_reason (rb_parser (rb_flush b)) \<in> reasons"
    using failure_ok_reason malformed_reason(2) vocabulary_members(6) unfolding rb_reasons_ok_def by blast+
  with b show ?thesis
    by (simp add: rb_clean_eof_def Let_def ro_call_emit ro_report vocabulary_members)
qed

lemma ro_step: "rb_reasons_ok b \<Longrightarrow> rb_reasons_ok (rb_op_step (sample_verdict cp) b op)"
  by (cases op) (auto simp: rb_read_def rb_close_def Let_def ro_note ro_observe ro_eof ro_report vocabulary_members
      split: read_err.split)

lemma ro_ops: "rb_reasons_ok b \<Longrightarrow> rb_reasons_ok (rb_ops (sample_verdict cp) b ops)"
  unfolding rb_ops_def by (induction ops arbitrary: b) (simp_all add: ro_step)

lemma ro_new: "rb_reasons_ok (new_response_body sse)"
  by (simp add: rb_reasons_ok_def new_response_body_def new_failure_ok)

lemma reasons_listed:
  "reasons = {''upstream_error'', ''malformed'', ''incomplete'', ''selected_value_limit'', ''depth_limit'',
      ''http_status'', ''read_error'', ''body_closed'', ''invalid_fields'', ''usage_absent'', ''none''}"
  unfolding reasons_def body_reasons_def parser_reasons_def by (simp only: Un_insert_left Un_empty_left)

definition extraction_vocabulary :: "metric_call \<Rightarrow> bool" where
  "extraction_vocabulary c =
     (case c of MInc m ls \<Rightarrow> m = ExtractionResults \<longrightarrow> (\<exists>x r. ls = [x, r] \<and> x \<in> outcomes \<and> r \<in> reasons) | _ \<Rightarrow> True)"

lemma sample_vocabulary: "list_all extraction_vocabulary (fst (snd (record_sample uni s mc cp req path f)))"
  by (rule record_sample_all, rule generate_calls_all) (simp_all add: extraction_vocabulary_def)

text \<open>C32. The labels of the extraction counter use fixed vocabularies, so that no response can create a new
  series: 3 outcomes and 11 reasons, whatever the bytes of the response and the operations on its
  body are.\<close>

theorem extraction_labels_use_fixed_vocabularies:
  assumes "MInc ExtractionResults ls \<in> set (snd (exchange uni s exclude_paths mc resp ops))"
  shows "\<exists>outcome reason. ls = [outcome, reason] \<and>
    outcome \<in> {''success'', ''failed'', ''skipped''} \<and>
    reason \<in> {''upstream_error'', ''malformed'', ''incomplete'', ''selected_value_limit'', ''depth_limit'',
      ''http_status'', ''read_error'', ''body_closed'', ''invalid_fields'', ''usage_absent'', ''none''}"
proof -
  have "list_all extraction_vocabulary (snd (exchange uni s exclude_paths mc resp ops))"
  proof (cases "modify_response exclude_paths resp")
    case (NotObserved cs)
    then have "cs = [] \<or> cs = [MInc ExtractionResults [''skipped'', ''http_status'']]"
      by (auto simp: modify_response_def Let_def split: if_splits)
    with NotObserved show ?thesis
      by (auto simp: exchange_def extraction_vocabulary_def outcomes_def reasons_def)
  next
    case (Observed cp b)
    then obtain sse where b: "b = new_response_body sse"
      by (auto simp: modify_response_def Let_def split: if_splits)
    have "rb_reasons_ok (rb_ops (sample_verdict cp) b ops)" unfolding b by (rule ro_ops [OF ro_new])
    then have v: "list_all extraction_vocabulary (snd (callback_calls uni s cp rq mc' c))"
      if "c \<in> set (rb_log (rb_ops (sample_verdict cp) b ops))" for rq mc' c
      using that sample_vocabulary [of uni s mc' cp "rq_model rq" "rq_path rq"]
      by (cases c) (auto simp: rb_reasons_ok_def extraction_vocabulary_def Let_def split_def)
    with Observed show ?thesis by (simp add: exchange_def callbacks_all)
  qed
  then have "extraction_vocabulary (MInc ExtractionResults ls)" using assms by (simp add: list_all_iff)
  then have "\<exists>x r. ls = [x, r] \<and> x \<in> outcomes \<and> r \<in> reasons"
    by (simp add: extraction_vocabulary_def)
  then show ?thesis unfolding outcomes_def reasons_listed .
qed

definition demo_request :: "string \<Rightarrow> request" where
  "demo_request path = \<lparr>rq_method = ''POST'', rq_path = path, rq_query_model = [], rq_model = ''m''\<rparr>"

definition demo_response :: "string \<Rightarrow> response" where
  "demo_response path = \<lparr>rs_request = demo_request path, rs_status = 200, rs_content_type = ''application/json''\<rparr>"

theorem extraction_labels_use_fixed_vocabularies_witness:
  "\<exists>outcome reason. [''skipped'', ''body_closed''] = [outcome, reason] \<and> outcome \<in> {''success'', ''failed'', ''skipped''}"
  using extraction_labels_use_fixed_vocabularies
    [of "[''skipped'', ''body_closed'']" id "\<lambda>_. None" "[]" new_model_cache "demo_response ''/api/chat''" "[OpClose None]"]
  by (simp add: exchange_def modify_response_def demo_response_def demo_request_def inference_path_def compat_path_def
      rb_ops_def rb_close_def rb_report_def new_response_body_def Let_def)

section \<open>No call can panic\<close>

lemma sample_call_ok: "list_all call_ok (fst (snd (record_sample uni s mc cp req path f)))"
  by (rule record_sample_all, rule generate_calls_all) (simp_all add: call_ok_defs)

lemma exchange_call_ok: "list_all call_ok (snd (exchange uni s exclude_paths mc resp ops))"
proof (cases "modify_response exclude_paths resp")
  case (NotObserved cs)
  then have "cs = [] \<or> cs = [MInc ExtractionResults [''skipped'', ''http_status'']]"
    by (auto simp: modify_response_def Let_def split: if_splits)
  with NotObserved show ?thesis by (auto simp: exchange_def call_ok_defs)
next
  case (Observed cp b)
  have "list_all call_ok (snd (callback_calls uni s cp rq mc' c))" for rq mc' c
    using sample_call_ok [of uni s mc' cp "rq_model rq" "rq_path rq"]
    by (cases c) (auto simp: call_ok_defs Let_def split_def)
  with Observed show ?thesis by (simp add: exchange_def callbacks_all)
qed

lemma proxied_call_ok: "list_all call_ok (fst (snd (proxied uni s ex mc rq body resp ops elapsed)))"
  using exchange_call_ok
  by (simp add: proxied_def instrumented_handler_def Let_def split_def) (simp add: call_ok_defs)

section \<open>Requests in flight\<close>

definition touches_in_flight :: "metric_call \<Rightarrow> bool" where
  "touches_in_flight c = (case c of MInc m _ \<Rightarrow> m = RequestsInFlight | MDec m _ \<Rightarrow> m = RequestsInFlight
     | MSet m _ _ \<Rightarrow> m = RequestsInFlight | MAdd m _ _ \<Rightarrow> m = RequestsInFlight | _ \<Rightarrow> False)"

lemma sample_no_in_flight: "list_all (\<lambda>c. \<not> touches_in_flight c) (fst (snd (record_sample uni s mc cp req path f)))"
  by (rule record_sample_all, rule generate_calls_all) (simp_all add: touches_in_flight_def)

lemma exchange_no_in_flight: "list_all (\<lambda>c. \<not> touches_in_flight c) (snd (exchange uni s exclude_paths mc resp ops))"
proof (cases "modify_response exclude_paths resp")
  case (NotObserved cs)
  then have "cs = [] \<or> cs = [MInc ExtractionResults [''skipped'', ''http_status'']]"
    by (auto simp: modify_response_def Let_def split: if_splits)
  with NotObserved show ?thesis by (auto simp: exchange_def touches_in_flight_def)
next
  case (Observed cp b)
  have "list_all (\<lambda>c. \<not> touches_in_flight c) (snd (callback_calls uni s cp rq mc' c))" for rq mc' c
    using sample_no_in_flight [of uni s mc' cp "rq_model rq" "rq_path rq"]
    by (cases c) (auto simp: touches_in_flight_def Let_def split_def)
  with Observed show ?thesis by (simp add: exchange_def callbacks_all)
qed

lemma filter_none: "list_all (\<lambda>c. \<not> P c) cs \<Longrightarrow> filter P cs = []"
  by (induction cs) simp_all

lemma forwarded_body_id: "forwarded_body b = b"
  by (simp add: forwarded_body_def read_prefix_def)

text \<open>C33. A proxied request is counted in flight exactly while it is handled and is forwarded unchanged: on a
  path that is not excluded the in-flight gauge of one (model, endpoint) pair is incremented once at
  the start and decremented once at the end, under the same labels, also when the request is
  rejected; an excluded path leaves no trace in it. The request is rejected exactly when reading the
  first 64 KiB of an inference POST fails, and otherwise forwarded with its body byte for byte.\<close>

theorem in_flight_balanced_and_body_forwarded:
  "let (mc', calls, result) = proxied uni s ex mc rq body resp ops elapsed;
       unreadable = (rq_method rq = ''POST'' \<and> inference_path (rq_path rq) \<and>
         (case body of None \<Rightarrow> False | Some b \<Rightarrow> ib_error b \<and> length (ib_bytes b) < 65536)) in
     (if rq_path rq \<in> set ex then filter touches_in_flight calls = []
      else \<exists>model. filter touches_in_flight calls =
        [MInc RequestsInFlight [model, rq_path rq], MDec RequestsInFlight [model, rq_path rq]]) \<and>
     (if unreadable then result = Rejected
      else \<exists>model. result = Forwarded (rq\<lparr>rq_model := model\<rparr>) body)"
proof -
  have f: "filter touches_in_flight (snd (exchange uni s ex mc' r ops)) = []" for mc' r
    by (rule filter_none [OF exchange_no_in_flight])
  have t: "touches_in_flight (MInc RequestsInFlight ls)" "touches_in_flight (MDec RequestsInFlight ls)"
    "\<not> touches_in_flight (MObserve m ls v)" for m ls v
    by (simp_all add: touches_in_flight_def)
  have same: "\<exists>m. rq = rq\<lparr>rq_model := m\<rparr>" by (rule exI [of _ "rq_model rq"]) simp
  show ?thesis
    unfolding proxied_def instrumented_handler_def
    using same
    by (cases body) (auto simp: Let_def split_def f t forwarded_body_id read_prefix_def body_limit_def)
qed

section \<open>What a sample records\<close>

primrec added :: "metric \<Rightarrow> metric_call list \<Rightarrow> int" where
  "added m [] = 0"
| "added m (c # cs) =
     (case c of MAdd m' _ (FInt i) \<Rightarrow> if m' = m then i else 0 | _ \<Rightarrow> 0) + added m cs"

lemma added_append [simp]: "added m (xs @ ys) = added m xs + added m ys"
  by (induction xs) simp_all

text \<open>An expression that divides by positive quantities only.\<close>

primrec positive :: "fval \<Rightarrow> bool" where
  "positive (FInt i) = (0 < i)"
| "positive (FDiv a b) = (positive a \<and> positive b)"
| "positive (FSeconds d) = (0 < d)"

primrec divides_safely :: "fval \<Rightarrow> bool" where
  "divides_safely (FInt i) = True"
| "divides_safely (FDiv a b) = (divides_safely a \<and> divides_safely b \<and> positive b)"
| "divides_safely (FSeconds d) = True"

definition call_value :: "metric_call \<Rightarrow> fval option" where
  "call_value c = (case c of MSet _ _ v \<Rightarrow> Some v | MAdd _ _ v \<Rightarrow> Some v | MObserve _ _ v \<Rightarrow> Some v | _ \<Rightarrow> None)"

definition safe_call :: "metric_call \<Rightarrow> bool" where
  "safe_call c = (case call_value c of Some v \<Rightarrow> divides_safely v | None \<Rightarrow> True)"

lemma generate_safe: "list_all safe_call (generate_calls gen path info)"
  by (simp add: generate_calls_def safe_call_def call_value_def seconds_of_def ns_to_sec_def Let_def)

lemma generate_added:
  "added PromptTokensTotal (generate_calls gen path info) = max 0 (g_prompt_eval_count gen)"
  "added EvalTokensTotal (generate_calls gen path info) = max 0 (g_eval_count gen)"
  by (simp_all add: generate_calls_def Let_def)

lemma generate_requests:
  "filter (\<lambda>c. \<exists>ls. c = MInc RequestsTotal ls) (generate_calls gen path info)
     = [MInc RequestsTotal [g_model gen, mi_family info, mi_quant info, path]]"
  by (simp add: generate_calls_def Let_def)

text \<open>C38. A finished native response is accounted exactly: it counts one request under its model and path,
  adds exactly its positive prompt and generated token counts to the token totals (a negative or
  missing count adds nothing), and every rate and duration derived from it divides by a positive
  number, whatever integers the response carries.\<close>

theorem native_sample_accounting:
  assumes "decode_generate f = Some gen" "g_done gen"
  shows "let (mc', calls, outcome, reason) = record_sample uni s mc False req path f;
             info = fst (mc_get uni s mc (g_model gen)) in
    outcome = ''success'' \<and>
    added PromptTokensTotal calls = max 0 (g_prompt_eval_count gen) \<and>
    added EvalTokensTotal calls = max 0 (g_eval_count gen) \<and>
    filter (\<lambda>c. \<exists>ls. c = MInc RequestsTotal ls) calls =
      [MInc RequestsTotal [g_model gen, mi_family info, mi_quant info, path]] \<and>
    list_all safe_call calls"
  using assms
  by (simp add: record_sample_def record_generate_metrics_def Let_def split_def generate_added generate_requests
      generate_safe)

definition demo_fields :: fields where
  "demo_fields = [''model'' \<mapsto> quote ''m'', ''done'' \<mapsto> ''true'', ''eval_count'' \<mapsto> ''7'', ''eval_duration'' \<mapsto> ''5'']"

lemma demo_decoded: "decode_generate demo_fields = Some \<lparr>g_model = ''m'', g_done = True, g_load_duration = 0,
    g_prompt_eval_count = 0, g_prompt_eval_duration = 0, g_eval_count = 7, g_eval_duration = 5\<rparr>"
  by code_simp

theorem native_sample_accounting_witness:
  "added EvalTokensTotal (fst (snd (record_sample id (\<lambda>_. None) new_model_cache False [] ''/api/chat'' demo_fields))) = 7"
  using native_sample_accounting [OF demo_decoded, of id "\<lambda>_. None" new_model_cache "[]" "''/api/chat''"]
  by (simp add: Let_def split_def)

text \<open>The tokens of a compatibility response: the first usage field present, in the order of the keys.\<close>

lemma first_count_valid:
  "list_all (\<lambda>key. case usage_raw f key of Some raw \<Rightarrow> usage_count raw \<noteq> None | None \<Rightarrow> True) ks \<Longrightarrow>
   first_count f ks = (case filter (\<lambda>k. usage_raw f k \<noteq> None) ks of
      [] \<Rightarrow> None | k # _ \<Rightarrow> usage_count (the (usage_raw f k)))"
  by (induction ks) (auto split: option.splits)

text \<open>C39. A compatibility response is recorded as a whole or not at all: if one usage field present is not a
  non-negative integer, nothing is recorded and the extraction fails; otherwise exactly one request
  is counted, and each token histogram observes exactly the count of the first of its usage fields
  that is present, and nothing when none is.\<close>

theorem compatibility_usage_all_or_nothing:
  "let (mc', calls, outcome, reason) = record_usage uni s mc requested path f;
       info = fst (mc_get uni s mc (usage_model requested f));
       labels = [usage_model requested f, mi_family info, mi_quant info, path];
       observation = (\<lambda>m ks. case filter (\<lambda>k. usage_raw f k \<noteq> None) ks of
          [] \<Rightarrow> [] | k # _ \<Rightarrow> [MObserve m labels (FInt (the (usage_count (the (usage_raw f k)))))]) in
    (if usage_valid f
     then outcome \<noteq> ''failed'' \<and>
       calls = [MInc RequestsTotal labels] @ observation CompatibilityInputTokens input_keys
         @ observation CompatibilityOutputTokens output_keys
     else outcome = ''failed'' \<and> calls = [] \<and> mc' = mc)"
proof (cases "usage_valid f")
  case True
  then have v: "list_all (\<lambda>key. case usage_raw f key of Some raw \<Rightarrow> usage_count raw \<noteq> None | None \<Rightarrow> True) ks"
    if "ks = input_keys \<or> ks = output_keys" for ks
    using that by (auto simp: usage_valid_def)
  have "observe_count m ls (first_count f ks) = (case filter (\<lambda>k. usage_raw f k \<noteq> None) ks of
        [] \<Rightarrow> [] | k # _ \<Rightarrow> [MObserve m ls (FInt (the (usage_count (the (usage_raw f k)))))])"
    if "ks = input_keys \<or> ks = output_keys" for m ls ks
  proof (cases "filter (\<lambda>k. usage_raw f k \<noteq> None) ks")
    case Nil
    then show ?thesis by (simp add: first_count_valid [OF v [OF that]] observe_count_def)
  next
    case (Cons k r)
    then have "k \<in> set (filter (\<lambda>k. usage_raw f k \<noteq> None) ks)" by simp
    then have "k \<in> set ks" "usage_raw f k \<noteq> None" by simp_all
    then have "usage_count (the (usage_raw f k)) \<noteq> None" using v [OF that] by (auto simp: list_all_iff)
    then show ?thesis using Cons by (auto simp: first_count_valid [OF v [OF that]] observe_count_def)
  qed
  with True show ?thesis by (simp add: record_usage_def Let_def split_def)
qed (simp add: record_usage_def Let_def split_def)

end
