(* ===== verification/Poller.thy ===== *)
theory Poller
  imports Metrics ModelCache
begin

text \<open>
  \<^verbatim>\<open>internal/collector/poller.go\<close>: the scrape of the server on every tick, which turns the lists of
  running and of pulled models into gauges, load and unload counters and evictions. The answers of
  the server at a tick, and what the gauges hold when they are collected, are the record \<open>tick\<close>. The
  order in which Go iterates over a map is the argument \<open>ord\<close>. The metric calls are appended to
  \<open>p_log\<close>.
\<close>

section \<open>State and answers\<close>

record running_model =
  rm_name :: string
  rm_size_vram :: int

text \<open>
  The answers: an error is \<open>None\<close>; a nil model list, which the decoder leaves when the field is missing
  or null, is \<open>Some None\<close>. \<open>t_collected\<close> gives the label pairs of every sample of a gauge.
\<close>

record tick =
  t_healthy :: bool
  t_ps :: "running_model list option option"
  t_tags :: "string list option option"
  t_show :: show_fn
  t_collected :: "metric \<Rightarrow> (string \<times> string) list list"

record poller =
  p_mc :: model_cache
  p_prev_loaded :: "string list"
  p_initialized :: bool
  p_log :: "metric_call list"

definition new_poller :: "model_cache \<Rightarrow> poller" where
  "new_poller mc = \<lparr>p_mc = mc, p_prev_loaded = [], p_initialized = False, p_log = []\<rparr>"

abbreviation slice :: "'a list option \<Rightarrow> 'a list" where
  "slice s \<equiv> (case s of None \<Rightarrow> [] | Some xs \<Rightarrow> xs)"

definition p_call :: "metric_call list \<Rightarrow> poller \<Rightarrow> poller" where
  "p_call cs p = p\<lparr>p_log := p_log p @ cs\<rparr>"

definition p_lookup :: "(string \<Rightarrow> string) \<Rightarrow> show_fn \<Rightarrow> poller \<Rightarrow> string \<Rightarrow> model_info \<times> poller" where
  "p_lookup uni show_fn p name =
     (let (info, mc) = mc_get uni show_fn (p_mc p) name in (info, p\<lparr>p_mc := mc\<rparr>))"

definition model_labels :: "string \<Rightarrow> model_info \<Rightarrow> string list" where
  "model_labels name info = [name, mi_family info, mi_quant info]"

section \<open>The scrape\<close>

definition loaded_calls :: "poller \<Rightarrow> running_model \<Rightarrow> model_info \<Rightarrow> metric_call list" where
  "loaded_calls p m info =
     (let labels = model_labels (rm_name m) info in
      [MSet ModelLoaded labels (FInt 1), MSet ModelVRAMBytes labels (FInt (rm_size_vram m))]
      @ (if rm_name m \<in> set (p_prev_loaded p) then []
         else MInc ModelLoadTotal labels
           # (if p_initialized p then [MInc ModelLoadEventsTotal [rm_name m]] else [])))"

definition scrape_loaded :: "(string \<Rightarrow> string) \<Rightarrow> show_fn \<Rightarrow> poller \<Rightarrow> running_model \<Rightarrow> poller" where
  "scrape_loaded uni show_fn p m =
     (let (info, p1) = p_lookup uni show_fn p (rm_name m) in p_call (loaded_calls p1 m info) p1)"

definition unloaded_calls :: "string \<Rightarrow> model_info \<Rightarrow> metric_call list" where
  "unloaded_calls name info =
     (let labels = model_labels name info in
      [MSet ModelLoaded labels (FInt 0), MSet ModelVRAMBytes labels (FInt 0),
       MInc ModelUnloadTotal labels, MInc ModelUnloadEventsTotal [name]])"

definition scrape_unloaded :: "(string \<Rightarrow> string) \<Rightarrow> show_fn \<Rightarrow> string list \<Rightarrow> poller \<Rightarrow> string \<Rightarrow> poller" where
  "scrape_unloaded uni show_fn current p name =
     (if name \<in> set current then p
      else let (info, p1) = p_lookup uni show_fn p name in p_call (unloaded_calls name info) p1)"

definition pruned_gauges :: "metric list" where
  "pruned_gauges = [ModelLoaded, ModelVRAMBytes, TokensPerSecond, PromptTokensPerSec, KVCachePressureRatio]"

definition absent_models :: "(string \<times> string) list list \<Rightarrow> (string \<Rightarrow> bool) \<Rightarrow> string list" where
  "absent_models samples present =
     remdups (map snd (filter (\<lambda>(n, v). n = ''model'' \<and> \<not> present v) (concat samples)))"

definition prune_model_gauge ::
    "(string list \<Rightarrow> string list) \<Rightarrow> metric \<Rightarrow> (string \<times> string) list list \<Rightarrow> (string \<Rightarrow> bool) \<Rightarrow> metric_call list" where
  "prune_model_gauge ord gauge samples present =
     map (MDeleteMatch gauge ''model'') (ord (absent_models samples present))"

definition reconcile :: "(string list \<Rightarrow> string list) \<Rightarrow> tick \<Rightarrow> string list \<Rightarrow> poller \<Rightarrow> poller" where
  "reconcile ord t current p =
     (case (t_tags t, t_ps t) of
        (Some (Some tags), Some (Some _)) \<Rightarrow>
          let present = (\<lambda>n. n \<in> set tags \<or> n \<in> set current)
          in p_call (concat (map (\<lambda>g. prune_model_gauge ord g (t_collected t g) present) pruned_gauges))
               (p\<lparr>p_mc := mc_prune (p_mc p) present\<rparr>)
      | _ \<Rightarrow> p)"

definition scrape_models :: "(string \<Rightarrow> string) \<Rightarrow> (string list \<Rightarrow> string list) \<Rightarrow> tick \<Rightarrow> running_model list \<Rightarrow> poller \<Rightarrow> poller" where
  "scrape_models uni ord t models p =
     (let current = remdups (map rm_name models);
          p1 = foldl (scrape_loaded uni (t_show t)) p models;
          p2 = foldl (scrape_unloaded uni (t_show t) current) p1 (ord (p_prev_loaded p))
      in (reconcile ord t current p2)\<lparr>p_prev_loaded := current, p_initialized := True\<rparr>)"

definition scrape :: "(string \<Rightarrow> string) \<Rightarrow> (string list \<Rightarrow> string list) \<Rightarrow> poller \<Rightarrow> tick \<Rightarrow> poller" where
  "scrape uni ord p t =
     (if \<not> t_healthy t then p_call [MSet Up [] (FInt 0)] p
      else
        let p0 = p_call [MSet Up [] (FInt 1)] p
        in case t_ps t of
             None \<Rightarrow> p0
           | Some models \<Rightarrow> scrape_models uni ord t (slice models) p0)"

text \<open>The poller and the proxy share the cache: between two ticks the proxy may look a model up.\<close>

datatype poll_event = Tick tick | Lookup show_fn string

primrec poll_step :: "(string \<Rightarrow> string) \<Rightarrow> (string list \<Rightarrow> string list) \<Rightarrow> poller \<Rightarrow> poll_event \<Rightarrow> poller" where
  "poll_step uni ord p (Tick t) = scrape uni ord p t"
| "poll_step uni ord p (Lookup show_fn name) = snd (p_lookup uni show_fn p name)"

definition poll_run :: "(string \<Rightarrow> string) \<Rightarrow> (string list \<Rightarrow> string list) \<Rightarrow> poll_event list \<Rightarrow> poller" where
  "poll_run uni ord es = foldl (poll_step uni ord) (new_poller new_model_cache) es"

text \<open>Any iteration order visits every key once.\<close>

definition any_order :: "(string list \<Rightarrow> string list) \<Rightarrow> bool" where
  "any_order ord \<longleftrightarrow> (\<forall>xs. mset (ord xs) = mset xs)"

lemma any_orderD: "any_order ord \<Longrightarrow> set (ord xs) = set xs" "any_order ord \<Longrightarrow> distinct (ord xs) = distinct xs"
  unfolding any_order_def by (metis set_mset_mset, metis mset_eq_imp_distinct_iff)

section \<open>What a scrape changes\<close>

lemma p_call_frame [simp]:
  "p_mc (p_call cs p) = p_mc p" "p_prev_loaded (p_call cs p) = p_prev_loaded p"
  "p_initialized (p_call cs p) = p_initialized p" "p_log (p_call cs p) = p_log p @ cs"
  by (simp_all add: p_call_def)

lemma p_lookup_frame:
  "p_lookup uni s p n = (i, p') \<Longrightarrow> p_log p' = p_log p \<and> p_prev_loaded p' = p_prev_loaded p
     \<and> p_initialized p' = p_initialized p \<and> mc_cache (p_mc p') n = Some i
     \<and> (\<forall>k j. mc_cache (p_mc p) k = Some j \<longrightarrow> mc_cache (p_mc p') k = Some j)"
  using mc.get_stores [of uni s "p_mc p" n] mc.known_kept [of "p_mc p" _ _ uni s n]
  by (auto simp: p_lookup_def split: prod.splits)

text \<open>
  A step of one of the loops: it logs calls that its model's metadata, now cached, determines.
\<close>

definition adds :: "poller \<Rightarrow> metric_call list \<Rightarrow> poller \<Rightarrow> bool" where
  "adds p cs p' \<longleftrightarrow> p_log p' = p_log p @ cs \<and> p_prev_loaded p' = p_prev_loaded p
     \<and> p_initialized p' = p_initialized p
     \<and> (\<forall>k j. mc_cache (p_mc p) k = Some j \<longrightarrow> mc_cache (p_mc p') k = Some j)"

lemma adds_refl: "adds p [] p"
  by (simp add: adds_def)

lemma adds_trans: "adds p cs p1 \<Longrightarrow> adds p1 ds p2 \<Longrightarrow> adds p (cs @ ds) p2"
  by (simp add: adds_def)

lemma scrape_loaded_adds:
  "\<exists>info. adds p (loaded_calls p m info) (scrape_loaded uni s p m)
     \<and> mc_cache (p_mc (scrape_loaded uni s p m)) (rm_name m) = Some info"
proof -
  obtain info p1 where l: "p_lookup uni s p (rm_name m) = (info, p1)" by fastforce
  from p_lookup_frame [OF l] l show ?thesis
    by (intro exI [of _ info]) (simp add: scrape_loaded_def adds_def loaded_calls_def)
qed

lemma scrape_unloaded_adds:
  "name \<notin> set current \<Longrightarrow> \<exists>info. adds p (unloaded_calls name info) (scrape_unloaded uni s current p name)
     \<and> mc_cache (p_mc (scrape_unloaded uni s current p name)) name = Some info
     \<and> (\<forall>i. mc_cache (p_mc p) name = Some i \<longrightarrow> info = i)"
proof -
  assume n: "name \<notin> set current"
  obtain info p1 where l: "p_lookup uni s p name = (info, p1)" by fastforce
  from p_lookup_frame [OF l] l n show ?thesis
    by (intro exI [of _ info]) (auto simp: scrape_unloaded_def adds_def)
qed

lemma scrape_unloaded_current: "name \<in> set current \<Longrightarrow> scrape_unloaded uni s current p name = p"
  by (simp add: scrape_unloaded_def)

abbreviation cached :: "poller \<Rightarrow> string \<Rightarrow> model_info" where
  "cached p n \<equiv> the (mc_cache (p_mc p) n)"

lemma loaded_calls_cong:
  "p_prev_loaded p = p_prev_loaded q \<Longrightarrow> p_initialized p = p_initialized q \<Longrightarrow> loaded_calls p m i = loaded_calls q m i"
  by (simp add: loaded_calls_def)

text \<open>Both loops log the calls of their models, labelled with what the cache holds at their end.\<close>

lemma load_loop:
  "adds p (concat (map (\<lambda>m. loaded_calls p m (cached (foldl (scrape_loaded uni s) p ms) (rm_name m))) ms))
     (foldl (scrape_loaded uni s) p ms)
   \<and> (\<forall>m \<in> set ms. mc_cache (p_mc (foldl (scrape_loaded uni s) p ms)) (rm_name m) \<noteq> None)"
proof (induction ms arbitrary: p)
  case (Cons m ms)
  let ?q = "scrape_loaded uni s p m" and ?f = "foldl (scrape_loaded uni s)"
  obtain info where a: "adds p (loaded_calls p m info) ?q" and c: "mc_cache (p_mc ?q) (rm_name m) = Some info"
    using scrape_loaded_adds by blast
  have r: "adds ?q (concat (map (\<lambda>x. loaded_calls ?q x (cached (?f ?q ms) (rm_name x))) ms)) (?f ?q ms)"
    and k: "\<forall>x \<in> set ms. mc_cache (p_mc (?f ?q ms)) (rm_name x) \<noteq> None"
    using Cons.IH [of ?q] by simp_all
  have m: "mc_cache (p_mc (?f ?q ms)) (rm_name m) = Some info"
    using r c by (simp add: adds_def)
  have "loaded_calls ?q x i = loaded_calls p x i" for x i
    using a by (intro loaded_calls_cong) (simp_all add: adds_def)
  with adds_trans [OF a r] m k show ?case by simp
qed (simp add: adds_refl)

lemma unload_loop:
  "adds p (concat (map (\<lambda>n. unloaded_calls n (cached (foldl (scrape_unloaded uni s cur) p ns) n))
       (filter (\<lambda>n. n \<notin> set cur) ns)))
     (foldl (scrape_unloaded uni s cur) p ns)"
proof (induction ns arbitrary: p)
  case (Cons n ns)
  let ?q = "scrape_unloaded uni s cur p n" and ?f = "foldl (scrape_unloaded uni s cur)"
  have r: "adds ?q (concat (map (\<lambda>x. unloaded_calls x (cached (?f ?q ns) x)) (filter (\<lambda>x. x \<notin> set cur) ns))) (?f ?q ns)"
    by (rule Cons.IH)
  show ?case
  proof (cases "n \<in> set cur")
    case True
    with r show ?thesis by (simp add: scrape_unloaded_current)
  next
    case False
    then obtain info where a: "adds p (unloaded_calls n info) ?q" and c: "mc_cache (p_mc ?q) n = Some info"
      using scrape_unloaded_adds by blast
    have "mc_cache (p_mc (?f ?q ns)) n = Some info" using r c by (simp add: adds_def)
    with adds_trans [OF a r] False show ?thesis by simp
  qed
qed (simp add: adds_refl)

definition is_delete :: "metric_call \<Rightarrow> bool" where
  "is_delete c = (case c of MDeleteMatch _ _ _ \<Rightarrow> True | _ \<Rightarrow> False)"

lemma reconcile_frame:
  "\<exists>ds. p_log (reconcile ord t cur p) = p_log p @ ds \<and> list_all is_delete ds
     \<and> (\<forall>n \<in> set cur. mc_cache (p_mc (reconcile ord t cur p)) n = mc_cache (p_mc p) n)"
proof (cases "\<exists>tags ms. t_tags t = Some (Some tags) \<and> t_ps t = Some (Some ms)")
  case True
  then obtain tags ms where "t_tags t = Some (Some tags)" "t_ps t = Some (Some ms)" by blast
  then show ?thesis
    by (auto simp: reconcile_def Let_def mc.evict_peek list_all_iff prune_model_gauge_def is_delete_def)
next
  case False
  then have "reconcile ord t cur p = p"
    by (auto simp: reconcile_def split: option.split)
  then show ?thesis by simp
qed

text \<open>A successful scrape: the calls of its two loops and of the reconciliation.\<close>

lemma scrape_models_log:
  assumes "any_order ord"
  obtains I ds where
    "p_log (scrape_models uni ord t ms p) = p_log p
       @ concat (map (\<lambda>m. loaded_calls p m (I (rm_name m))) ms)
       @ concat (map (\<lambda>n. unloaded_calls n (I n)) (filter (\<lambda>n. n \<notin> rm_name ` set ms) (ord (p_prev_loaded p))))
       @ ds"
    "list_all is_delete ds"
    "p_prev_loaded (scrape_models uni ord t ms p) = remdups (map rm_name ms)"
    "p_initialized (scrape_models uni ord t ms p)"
    "\<forall>m \<in> set ms. mc_cache (p_mc (scrape_models uni ord t ms p)) (rm_name m) = Some (I (rm_name m))"
    "\<forall>n i. mc_cache (p_mc p) n = Some i \<longrightarrow> I n = i"
proof -
  let ?cur = "remdups (map rm_name ms)"
  define p1 where "p1 = foldl (scrape_loaded uni (t_show t)) p ms"
  define p2 where "p2 = foldl (scrape_unloaded uni (t_show t) ?cur) p1 (ord (p_prev_loaded p))"
  have a1: "adds p (concat (map (\<lambda>m. loaded_calls p m (cached p1 (rm_name m))) ms)) p1"
    and k1: "\<forall>m \<in> set ms. mc_cache (p_mc p1) (rm_name m) \<noteq> None"
    using load_loop [of p uni "t_show t" ms] by (simp_all add: p1_def)
  have a2: "adds p1 (concat (map (\<lambda>n. unloaded_calls n (cached p2 n))
      (filter (\<lambda>n. n \<notin> set ?cur) (ord (p_prev_loaded p))))) p2"
    unfolding p2_def by (rule unload_loop)
  have same: "cached p1 (rm_name m) = cached p2 (rm_name m)" "mc_cache (p_mc p2) (rm_name m) = Some (cached p2 (rm_name m))"
    if "m \<in> set ms" for m
    using k1 that a2 by (force simp: adds_def)+
  obtain ds where d: "p_log (reconcile ord t ?cur p2) = p_log p2 @ ds" "list_all is_delete ds"
    "\<forall>n \<in> set ?cur. mc_cache (p_mc (reconcile ord t ?cur p2)) n = mc_cache (p_mc p2) n"
    using reconcile_frame [of ord t ?cur p2] by blast
  have m: "scrape_models uni ord t ms p = (reconcile ord t ?cur p2)\<lparr>p_prev_loaded := ?cur, p_initialized := True\<rparr>"
    by (simp add: scrape_models_def Let_def p1_def p2_def)
  have e: "map (\<lambda>m. loaded_calls p m (cached p1 (rm_name m))) ms = map (\<lambda>m. loaded_calls p m (cached p2 (rm_name m))) ms"
    by (rule map_cong) (simp_all add: same(1))
  have 1: "p_log (scrape_models uni ord t ms p) = p_log p
       @ concat (map (\<lambda>m. loaded_calls p m (cached p2 (rm_name m))) ms)
       @ concat (map (\<lambda>n. unloaded_calls n (cached p2 n)) (filter (\<lambda>n. n \<notin> rm_name ` set ms) (ord (p_prev_loaded p)))) @ ds"
    using a1 [unfolded e] a2 d(1) by (simp add: m adds_def)
  have 2: "\<forall>n i. mc_cache (p_mc p) n = Some i \<longrightarrow> cached p2 n = i"
    using a1 a2 by (force simp: adds_def)
  have 3: "\<forall>x \<in> set ms. mc_cache (p_mc (scrape_models uni ord t ms p)) (rm_name x) = Some (cached p2 (rm_name x))"
    using same(2) d(3) by (simp add: m)
  show thesis by (rule that [OF 1 d(2) _ _ 3 2]) (simp_all add: m)
qed

section \<open>Counting loads and unloads\<close>

definition is_load :: "string \<Rightarrow> metric_call \<Rightarrow> bool" where
  "is_load n c = (case c of MInc m (k # _) \<Rightarrow> m = ModelLoadTotal \<and> k = n | _ \<Rightarrow> False)"

definition is_unload :: "string \<Rightarrow> metric_call \<Rightarrow> bool" where
  "is_unload n c = (case c of MInc m (k # _) \<Rightarrow> m = ModelUnloadTotal \<and> k = n | _ \<Rightarrow> False)"

definition is_load_event :: "string \<Rightarrow> metric_call \<Rightarrow> bool" where
  "is_load_event n c = (c = MInc ModelLoadEventsTotal [n])"

lemmas call_kinds = is_load_def is_unload_def is_load_event_def is_delete_def

lemma kinds_of_up [simp]:
  "\<not> is_load n (MSet m ls v)" "\<not> is_unload n (MSet m ls v)" "\<not> is_load_event n (MSet m ls v)"
  by (simp_all add: call_kinds)

lemma calls_of_deletes:
  "list_all is_delete ds \<Longrightarrow> calls_of (is_load n) ds = 0 \<and> calls_of (is_unload n) ds = 0 \<and> calls_of (is_load_event n) ds = 0"
  by (induction ds) (auto simp: call_kinds split: metric_call.splits)

lemma calls_of_loaded:
  "calls_of (is_load n) (loaded_calls p m i) = (if rm_name m = n \<and> n \<notin> set (p_prev_loaded p) then 1 else 0)"
  "calls_of (is_unload n) (loaded_calls p m i) = 0"
  "calls_of (is_load_event n) (loaded_calls p m i) =
     (if rm_name m = n \<and> n \<notin> set (p_prev_loaded p) \<and> p_initialized p then 1 else 0)"
  by (auto simp: loaded_calls_def call_kinds model_labels_def Let_def)

lemma calls_of_unloaded:
  "calls_of (is_load n) (unloaded_calls k i) = 0"
  "calls_of (is_unload n) (unloaded_calls k i) = (if k = n then 1 else 0)"
  "calls_of (is_load_event n) (unloaded_calls k i) = 0"
  by (auto simp: unloaded_calls_def call_kinds model_labels_def Let_def)

lemma sum_one:
  "distinct (map f xs) \<Longrightarrow> sum_list (map (\<lambda>x. if f x = n \<and> Q then 1 else 0) xs) = (if n \<in> f ` set xs \<and> Q then 1 else (0::nat))"
  by (induction xs) (auto simp: image_iff)

text \<open>What a successful scrape adds to the counters of a model.\<close>

lemma scrape_models_counts:
  fixes uni t
  assumes "any_order ord" "distinct (map rm_name ms)" "distinct (p_prev_loaded p)"
  defines "p' \<equiv> scrape_models uni ord t ms p"
  shows "calls_of (is_load n) (p_log p') = calls_of (is_load n) (p_log p)
        + (if n \<in> rm_name ` set ms \<and> n \<notin> set (p_prev_loaded p) then 1 else 0)"
    and "calls_of (is_unload n) (p_log p') = calls_of (is_unload n) (p_log p)
        + (if n \<in> set (p_prev_loaded p) \<and> n \<notin> rm_name ` set ms then 1 else 0)"
    and "calls_of (is_load_event n) (p_log p') = calls_of (is_load_event n) (p_log p)
        + (if n \<in> rm_name ` set ms \<and> n \<notin> set (p_prev_loaded p) \<and> p_initialized p then 1 else 0)"
    and "p_prev_loaded p' = map rm_name ms" "p_initialized p'"
proof -
  obtain I ds where l: "p_log p' = p_log p
       @ concat (map (\<lambda>m. loaded_calls p m (I (rm_name m))) ms)
       @ concat (map (\<lambda>n. unloaded_calls n (I n)) (filter (\<lambda>n. n \<notin> rm_name ` set ms) (ord (p_prev_loaded p))))
       @ ds" and d: "list_all is_delete ds"
    and f: "p_prev_loaded p' = remdups (map rm_name ms)" "p_initialized p'"
    unfolding p'_def by (rule scrape_models_log [OF assms(1)])
  have u: "sum_list (map (\<lambda>k. if k = n then 1 else 0) (filter (\<lambda>n. n \<notin> rm_name ` set ms) (ord (p_prev_loaded p))))
      = (if n \<in> set (p_prev_loaded p) \<and> n \<notin> rm_name ` set ms then 1 else (0::nat))"
    using sum_one [of id "filter (\<lambda>n. n \<notin> rm_name ` set ms) (ord (p_prev_loaded p))" n True] assms(1,3)
    by (auto simp: any_orderD)
  have s: "sum_list (map (\<lambda>m. if rm_name m = n \<and> Q then 1 else 0) ms) = (if n \<in> rm_name ` set ms \<and> Q then 1 else (0::nat))" for Q
    by (rule sum_one [OF assms(2)])
  show "calls_of (is_load n) (p_log p') = calls_of (is_load n) (p_log p)
        + (if n \<in> rm_name ` set ms \<and> n \<notin> set (p_prev_loaded p) then 1 else 0)"
    using calls_of_deletes [OF d, of n] s [of "n \<notin> set (p_prev_loaded p)"]
    by (simp add: l calls_of_concat calls_of_loaded calls_of_unloaded)
  show "calls_of (is_unload n) (p_log p') = calls_of (is_unload n) (p_log p)
        + (if n \<in> set (p_prev_loaded p) \<and> n \<notin> rm_name ` set ms then 1 else 0)"
    using calls_of_deletes [OF d, of n] u
    by (simp add: l calls_of_concat calls_of_loaded calls_of_unloaded)
  show "calls_of (is_load_event n) (p_log p') = calls_of (is_load_event n) (p_log p)
        + (if n \<in> rm_name ` set ms \<and> n \<notin> set (p_prev_loaded p) \<and> p_initialized p then 1 else 0)"
    using calls_of_deletes [OF d, of n] s [of "n \<notin> set (p_prev_loaded p) \<and> p_initialized p"]
    by (simp add: l calls_of_concat calls_of_loaded calls_of_unloaded)
  show "p_prev_loaded p' = map rm_name ms" using f(1) assms(2) by (simp add: distinct_remdups_id)
  show "p_initialized p'" by (rule f(2))
qed

text \<open>The inventory of a tick, where the scrape gets one.\<close>

definition inventory :: "poll_event \<Rightarrow> running_model list option" where
  "inventory e = (case e of Tick t \<Rightarrow> if t_healthy t then map_option slice (t_ps t) else None | Lookup _ _ \<Rightarrow> None)"

definition distinct_names :: "poll_event \<Rightarrow> bool" where
  "distinct_names e = (case inventory e of Some ms \<Rightarrow> distinct (map rm_name ms) | None \<Rightarrow> True)"

lemma step_no_inventory:
  assumes "inventory e = None"
  shows "p_prev_loaded (poll_step uni ord p e) = p_prev_loaded p"
    "p_initialized (poll_step uni ord p e) = p_initialized p"
    "\<exists>cs. p_log (poll_step uni ord p e) = p_log p @ cs \<and> set cs \<subseteq> {MSet Up [] (FInt 0), MSet Up [] (FInt 1)}"
    "mc_cache (p_mc p) n = Some i \<Longrightarrow> mc_cache (p_mc (poll_step uni ord p e)) n = Some i"
proof -
  have "p_prev_loaded (poll_step uni ord p e) = p_prev_loaded p \<and> p_initialized (poll_step uni ord p e) = p_initialized p
     \<and> (\<exists>cs. p_log (poll_step uni ord p e) = p_log p @ cs \<and> set cs \<subseteq> {MSet Up [] (FInt 0), MSet Up [] (FInt 1)})
     \<and> (mc_cache (p_mc p) n = Some i \<longrightarrow> mc_cache (p_mc (poll_step uni ord p e)) n = Some i)"
  proof (cases e)
    case (Tick t)
    with assms show ?thesis
      by (cases "t_healthy t"; cases "t_ps t") (auto simp: inventory_def scrape_def)
  next
    case (Lookup s k)
    obtain info p' where l: "p_lookup uni s p k = (info, p')" by fastforce
    from p_lookup_frame [OF l] l Lookup show ?thesis by auto
  qed
  then show "p_prev_loaded (poll_step uni ord p e) = p_prev_loaded p"
    "p_initialized (poll_step uni ord p e) = p_initialized p"
    "\<exists>cs. p_log (poll_step uni ord p e) = p_log p @ cs \<and> set cs \<subseteq> {MSet Up [] (FInt 0), MSet Up [] (FInt 1)}"
    "mc_cache (p_mc p) n = Some i \<Longrightarrow> mc_cache (p_mc (poll_step uni ord p e)) n = Some i" by blast+
qed

lemma step_inventory:
  "inventory e = Some ms \<Longrightarrow> \<exists>t. e = Tick t \<and> t_healthy t \<and>
     poll_step uni ord p e = scrape_models uni ord t ms (p_call [MSet Up [] (FInt 1)] p)"
  by (cases e) (auto simp: inventory_def scrape_def split: if_splits)

lemma calls_of_up:
  "set cs \<subseteq> {MSet Up [] (FInt 0), MSet Up [] (FInt 1)} \<Longrightarrow>
   calls_of (is_load n) cs = 0 \<and> calls_of (is_unload n) cs = 0 \<and> calls_of (is_load_event n) cs = 0"
  by (induction cs) (auto simp: call_kinds)

definition balanced :: "poller \<Rightarrow> bool" where
  "balanced p \<longleftrightarrow> distinct (p_prev_loaded p) \<and>
     (\<forall>n. calls_of (is_load n) (p_log p) =
           calls_of (is_unload n) (p_log p) + (if n \<in> set (p_prev_loaded p) then 1 else 0))"

lemma balanced_step:
  assumes "any_order ord" "balanced p" "distinct_names e"
  shows "balanced (poll_step uni ord p e)"
proof (cases "inventory e")
  case None
  obtain cs where l: "p_log (poll_step uni ord p e) = p_log p @ cs"
    and cs: "set cs \<subseteq> {MSet Up [] (FInt 0), MSet Up [] (FInt 1)}"
    using step_no_inventory(3) [OF None] by blast
  show ?thesis using assms(2) calls_of_up [OF cs]
    by (simp add: balanced_def l step_no_inventory(1) [OF None])
next
  case (Some ms)
  let ?p = "p_call [MSet Up [] (FInt 1)] p"
  obtain t where e: "poll_step uni ord p e = scrape_models uni ord t ms ?p"
    using step_inventory [OF Some] by blast
  have d: "distinct (map rm_name ms)" "distinct (p_prev_loaded ?p)"
    using assms(2,3) Some by (simp_all add: distinct_names_def balanced_def)
  have up: "calls_of (is_load n) (p_log ?p) = calls_of (is_load n) (p_log p)"
    "calls_of (is_unload n) (p_log ?p) = calls_of (is_unload n) (p_log p)" for n
    by (simp_all add: call_kinds)
  show ?thesis
    using assms(2) scrape_models_counts(1,2,4) [OF assms(1) d] up d(1)
    by (auto simp: e balanced_def)
qed

lemma balanced_run:
  "any_order ord \<Longrightarrow> balanced p \<Longrightarrow> list_all distinct_names es \<Longrightarrow> balanced (foldl (poll_step uni ord) p es)"
  by (induction es arbitrary: p) (simp_all add: balanced_step)

lemma new_poller_balanced: "balanced (new_poller mc)"
  by (simp add: balanced_def new_poller_def)


definition demo_tick :: "string list \<Rightarrow> tick" where
  "demo_tick names = \<lparr>t_healthy = True, t_ps = Some (Some (map (\<lambda>n. \<lparr>rm_name = n, rm_size_vram = 7\<rparr>) names)),
     t_tags = Some (Some names), t_show = (\<lambda>_. None), t_collected = (\<lambda>_. [])\<rparr>"


section \<open>Startup\<close>

text \<open>The models of the first inventory of a run.\<close>

fun startup_models :: "poll_event list \<Rightarrow> string set" where
  "startup_models [] = {}"
| "startup_models (e # es) =
     (case inventory e of Some ms \<Rightarrow> rm_name ` set ms | None \<Rightarrow> startup_models es)"

lemma events_after_startup:
  fixes uni
  assumes "any_order ord" "p_initialized p" "distinct (p_prev_loaded p)" "list_all distinct_names es"
    "calls_of (is_load n) (p_log p) = calls_of (is_load_event n) (p_log p) + k"
  shows "calls_of (is_load n) (p_log (foldl (poll_step uni ord) p es)) =
    calls_of (is_load_event n) (p_log (foldl (poll_step uni ord) p es)) + k"
  using assms
proof (induction es arbitrary: p)
  case (Cons e es)
  let ?q = "poll_step uni ord p e"
  have "p_initialized ?q \<and> distinct (p_prev_loaded ?q)
      \<and> calls_of (is_load n) (p_log ?q) = calls_of (is_load_event n) (p_log ?q) + k"
  proof (cases "inventory e")
    case None
    obtain cs where "p_log ?q = p_log p @ cs"
      and cs: "set cs \<subseteq> {MSet Up [] (FInt 0), MSet Up [] (FInt 1)}"
      using step_no_inventory(3) [OF None] by blast
    then show ?thesis using Cons.prems calls_of_up [OF cs]
      by (simp add: step_no_inventory(1,2) [OF None])
  next
    case (Some ms)
    let ?p = "p_call [MSet Up [] (FInt 1)] p"
    obtain t where e: "?q = scrape_models uni ord t ms ?p"
      using step_inventory [OF Some] by blast
    have d: "distinct (map rm_name ms)" "distinct (p_prev_loaded ?p)"
      using Cons.prems Some by (simp_all add: distinct_names_def)
    have up: "calls_of (is_load n) (p_log ?p) = calls_of (is_load n) (p_log p)"
      "calls_of (is_load_event n) (p_log ?p) = calls_of (is_load_event n) (p_log p)"
      by (simp_all add: call_kinds)
    show ?thesis
      using scrape_models_counts(1,3,4,5) [OF Cons.prems(1) d] up d(1) Cons.prems
      by (auto simp: e)
  qed
  then show ?case using Cons.IH [of ?q] Cons.prems by simp
qed simp

lemma events_from_startup:
  fixes uni
  assumes "any_order ord" "\<not> p_initialized p" "p_prev_loaded p = []" "list_all distinct_names es"
    "calls_of (is_load n) (p_log p) = 0" "calls_of (is_load_event n) (p_log p) = 0"
  shows "calls_of (is_load n) (p_log (foldl (poll_step uni ord) p es)) =
    calls_of (is_load_event n) (p_log (foldl (poll_step uni ord) p es)) + (if n \<in> startup_models es then 1 else 0)"
  using assms
proof (induction es arbitrary: p)
  case (Cons e es)
  let ?q = "poll_step uni ord p e"
  show ?case
  proof (cases "inventory e")
    case None
    obtain cs where "p_log ?q = p_log p @ cs"
      and cs: "set cs \<subseteq> {MSet Up [] (FInt 0), MSet Up [] (FInt 1)}"
      using step_no_inventory(3) [OF None] by blast
    then show ?thesis using Cons.prems calls_of_up [OF cs] Cons.IH [of ?q] None
      by (simp add: step_no_inventory(1,2) [OF None])
  next
    case (Some ms)
    let ?p = "p_call [MSet Up [] (FInt 1)] p"
    obtain t where e: "?q = scrape_models uni ord t ms ?p"
      using step_inventory [OF Some] by blast
    have d: "distinct (map rm_name ms)" "distinct (p_prev_loaded ?p)"
      using Cons.prems Some by (simp_all add: distinct_names_def)
    have up: "calls_of (is_load n) (p_log ?p) = 0" "calls_of (is_load_event n) (p_log ?p) = 0"
      using Cons.prems by simp_all
    have "p_initialized ?q" "distinct (p_prev_loaded ?q)"
      "calls_of (is_load n) (p_log ?q) = calls_of (is_load_event n) (p_log ?q) + (if n \<in> rm_name ` set ms then 1 else 0)"
      using scrape_models_counts(1,3,4,5) [OF Cons.prems(1) d] up d(1) Cons.prems by (simp_all add: e)
    from events_after_startup [OF Cons.prems(1) this(1,2) _ this(3)] Cons.prems(4) Some
    show ?thesis by simp
  qed
qed simp

text \<open>The load event counter differs from the load counter only by the models that were already
  loaded at the first successful scrape: those are counted as loaded but not as load transitions,
  every later load is counted in both.\<close>

theorem startup_models_are_not_events:
  assumes "any_order ord" "list_all distinct_names es"
  shows "calls_of (is_load n) (p_log (poll_run uni ord es)) =
    calls_of (is_load_event n) (p_log (poll_run uni ord es)) + (if n \<in> startup_models es then 1 else 0)"
  unfolding poll_run_def
  by (rule events_from_startup [OF assms(1) _ _ assms(2)]) (simp_all add: new_poller_def)

theorem startup_models_are_not_events_witness:
  "let p = poll_run id id [Tick (demo_tick [''a'']), Tick (demo_tick [''a'', ''b''])] in
     calls_of (is_load ''a'') (p_log p) = calls_of (is_load_event ''a'') (p_log p) + 1"
  using startup_models_are_not_events [of id "[Tick (demo_tick [''a'']), Tick (demo_tick [''a'', ''b''])]" "''a''" id]
  by (simp add: any_order_def distinct_names_def inventory_def demo_tick_def Let_def)

section \<open>Labels\<close>

text \<open>Every reset of a model's gauge is preceded by its being set, under the very same labels.\<close>

definition set_before_reset :: "metric_call list \<Rightarrow> bool" where
  "set_before_reset lg \<longleftrightarrow> (\<forall>pre ls post. lg = pre @ MSet ModelLoaded ls (FInt 0) # post \<longrightarrow>
      MSet ModelLoaded ls (FInt 1) \<in> set pre)"

lemma set_before_reset_append:
  assumes "set_before_reset lg" "\<forall>ls. MSet ModelLoaded ls (FInt 0) \<in> set cs \<longrightarrow> MSet ModelLoaded ls (FInt 1) \<in> set lg"
  shows "set_before_reset (lg @ cs)"
  unfolding set_before_reset_def
proof (intro allI impI)
  fix pre ls post
  assume e: "lg @ cs = pre @ MSet ModelLoaded ls (FInt 0) # post"
  then obtain us where "lg = pre @ us \<and> us @ cs = MSet ModelLoaded ls (FInt 0) # post
      \<or> lg @ us = pre \<and> cs = us @ MSet ModelLoaded ls (FInt 0) # post"
    by (auto simp: append_eq_append_conv2)
  then show "MSet ModelLoaded ls (FInt 1) \<in> set pre"
  proof
    assume a: "lg = pre @ us \<and> us @ cs = MSet ModelLoaded ls (FInt 0) # post"
    show ?thesis
    proof (cases us)
      case Nil
      with a assms(2) show ?thesis by auto
    next
      case (Cons x xs)
      with a assms(1) show ?thesis by (auto simp: set_before_reset_def)
    qed
  next
    assume "lg @ us = pre \<and> cs = us @ MSet ModelLoaded ls (FInt 0) # post"
    with assms(2) show ?thesis by auto
  qed
qed

definition labels_ok :: "poller \<Rightarrow> bool" where
  "labels_ok p \<longleftrightarrow> set_before_reset (p_log p) \<and> (\<forall>n \<in> set (p_prev_loaded p).
     \<exists>i. mc_cache (p_mc p) n = Some i \<and> MSet ModelLoaded (model_labels n i) (FInt 1) \<in> set (p_log p))"

lemma not_reset_loaded: "MSet ModelLoaded ls (FInt 0) \<notin> set (loaded_calls p m i)"
  by (auto simp: loaded_calls_def Let_def)

lemma reset_unloaded: "MSet ModelLoaded ls (FInt 0) \<in> set (unloaded_calls n i) \<Longrightarrow> ls = model_labels n i"
  by (auto simp: unloaded_calls_def Let_def)

lemma labels_ok_step:
  assumes "any_order ord" "labels_ok p"
  shows "labels_ok (poll_step uni ord p e)"
proof (cases "inventory e")
  case None
  obtain cs where l: "p_log (poll_step uni ord p e) = p_log p @ cs"
    and cs: "set cs \<subseteq> {MSet Up [] (FInt 0), MSet Up [] (FInt 1)}"
    using step_no_inventory(3) [OF None] by blast
  have "set_before_reset (p_log p @ cs)"
    using assms(2) cs by (intro set_before_reset_append) (auto simp: labels_ok_def)
  then show ?thesis
    using assms(2) step_no_inventory(4) [OF None] by (fastforce simp: labels_ok_def l step_no_inventory(1) [OF None])
next
  case (Some ms)
  let ?p = "p_call [MSet Up [] (FInt 1)] p"
  obtain t where e: "poll_step uni ord p e = scrape_models uni ord t ms ?p"
    using step_inventory [OF Some] by blast
  have s0: "set_before_reset (p_log ?p)"
    using assms(2) set_before_reset_append [of "p_log p" "[MSet Up [] (FInt 1)]"] by (simp add: labels_ok_def)
  obtain I ds where l: "p_log (scrape_models uni ord t ms ?p) = p_log ?p
       @ concat (map (\<lambda>m. loaded_calls ?p m (I (rm_name m))) ms)
       @ concat (map (\<lambda>n. unloaded_calls n (I n)) (filter (\<lambda>n. n \<notin> rm_name ` set ms) (ord (p_prev_loaded ?p))))
       @ ds" and d: "list_all is_delete ds"
    and f: "p_prev_loaded (scrape_models uni ord t ms ?p) = remdups (map rm_name ms)"
    and c: "\<forall>m \<in> set ms. mc_cache (p_mc (scrape_models uni ord t ms ?p)) (rm_name m) = Some (I (rm_name m))"
    and k: "\<forall>n i. mc_cache (p_mc ?p) n = Some i \<longrightarrow> I n = i"
    by (rule scrape_models_log [OF assms(1)])
  let ?L = "concat (map (\<lambda>m. loaded_calls ?p m (I (rm_name m))) ms)"
  let ?U = "concat (map (\<lambda>n. unloaded_calls n (I n)) (filter (\<lambda>n. n \<notin> rm_name ` set ms) (ord (p_prev_loaded ?p))))"
  have nd: "MSet ModelLoaded ls (FInt 0) \<notin> set ds" for ls
    using d by (auto simp: list_all_iff is_delete_def)
  have "MSet ModelLoaded ls (FInt 1) \<in> set (p_log p)" if r: "MSet ModelLoaded ls (FInt 0) \<in> set ?U" for ls
  proof -
    obtain n where n: "n \<in> set (ord (p_prev_loaded ?p))" "MSet ModelLoaded ls (FInt 0) \<in> set (unloaded_calls n (I n))"
      using r by auto
    then obtain i where "mc_cache (p_mc p) n = Some i" "MSet ModelLoaded (model_labels n i) (FInt 1) \<in> set (p_log p)"
      using assms any_orderD(1) [OF assms(1)] by (auto simp: labels_ok_def)
    with k reset_unloaded [OF n(2)] show ?thesis by simp
  qed
  then have "set_before_reset (p_log ?p @ ?L @ ?U @ ds)"
    using s0 not_reset_loaded nd by (intro set_before_reset_append) auto
  moreover have "MSet ModelLoaded (model_labels (rm_name m) (I (rm_name m))) (FInt 1) \<in> set ?L" if "m \<in> set ms" for m
    using that by (auto simp: loaded_calls_def Let_def)
  ultimately show ?thesis using c by (auto simp: labels_ok_def e l f)
qed

lemma labels_ok_run: "any_order ord \<Longrightarrow> labels_ok p \<Longrightarrow> labels_ok (foldl (poll_step uni ord) p es)"
  by (induction es arbitrary: p) (simp_all add: labels_ok_step)

text \<open>An unloaded model's gauge is reset on the series it was set on: whenever \<open>model_loaded\<close> is set
  to 0 it has been set to 1 before with the same model, family and quantization, although the
  metadata is looked up anew at every scrape, the cache is pruned and the server may change its
  answers.\<close>

theorem unload_resets_the_loaded_series:
  assumes "any_order ord" "p_log (poll_run uni ord es) = pre @ MSet ModelLoaded labels (FInt 0) # post"
  shows "MSet ModelLoaded labels (FInt 1) \<in> set pre"
proof -
  have "labels_ok (new_poller new_model_cache)"
    by (simp add: labels_ok_def new_poller_def set_before_reset_def)
  from labels_ok_run [OF assms(1) this, of uni es] assms(2) show ?thesis
    by (simp add: labels_ok_def set_before_reset_def poll_run_def)
qed

theorem unload_resets_the_loaded_series_witness:
  "MSet ModelLoaded [''a'', ''a'', ''unknown''] (FInt 1) \<in> set (take 6 (p_log
     (poll_run id id [Tick (demo_tick [''a'']), Tick (demo_tick [])])))"
proof -
  have l: "p_log (poll_run id id [Tick (demo_tick [''a'']), Tick (demo_tick [])]) =
    [MSet Up [] (FInt 1), MSet ModelLoaded [''a'', ''a'', ''unknown''] (FInt 1),
     MSet ModelVRAMBytes [''a'', ''a'', ''unknown''] (FInt 7), MInc ModelLoadTotal [''a'', ''a'', ''unknown''],
     MSet Up [] (FInt 1)]
    @ MSet ModelLoaded [''a'', ''a'', ''unknown''] (FInt 0)
    # [MSet ModelVRAMBytes [''a'', ''a'', ''unknown''] (FInt 0), MInc ModelUnloadTotal [''a'', ''a'', ''unknown''],
     MInc ModelUnloadEventsTotal [''a'']]"
    by code_simp
  from unload_resets_the_loaded_series [OF _ this] show ?thesis
    by (simp add: any_order_def l)
qed

section \<open>Reconciliation\<close>

text \<open>The models that a reconciliation keeps: listed by \<^verbatim>\<open>/api/tags\<close> or running.\<close>

definition kept_models :: "tick \<Rightarrow> string set" where
  "kept_models t = set (case t_tags t of Some (Some tags) \<Rightarrow> tags | _ \<Rightarrow> [])
     \<union> rm_name ` set (case t_ps t of Some (Some ms) \<Rightarrow> ms | _ \<Rightarrow> [])"

definition complete_inventory :: "tick \<Rightarrow> bool" where
  "complete_inventory t \<longleftrightarrow> t_healthy t \<and> (\<exists>tags ms. t_tags t = Some (Some tags) \<and> t_ps t = Some (Some ms))"

definition deletions :: "metric_call list \<Rightarrow> (metric \<times> string \<times> string) set" where
  "deletions cs = {(g, l, v). MDeleteMatch g l v \<in> set cs}"

text \<open>The series of the pruned gauges whose model is gone.\<close>

definition stale :: "tick \<Rightarrow> (metric \<times> string \<times> string) set" where
  "stale t = {(g, l, v). g \<in> set pruned_gauges \<and> l = ''model'' \<and> v \<notin> kept_models t
     \<and> (\<exists>ls \<in> set (t_collected t g). (''model'', v) \<in> set ls)}"

lemma deletions_append: "deletions (xs @ ys) = deletions xs \<union> deletions ys"
  by (auto simp: deletions_def)

lemma deletions_loaded [simp]: "deletions (concat (map (\<lambda>m. loaded_calls p m (I m)) ms)) = {}"
  by (auto simp: deletions_def loaded_calls_def Let_def split: if_splits)

lemma deletions_unloaded [simp]: "deletions (concat (map (\<lambda>m. unloaded_calls m (I m)) ms)) = {}"
  by (auto simp: deletions_def unloaded_calls_def Let_def)

lemma set_absent:
  "v \<in> set (absent_models samples present) \<longleftrightarrow> (\<exists>ls \<in> set samples. (''model'', v) \<in> set ls) \<and> \<not> present v"
  by (force simp: absent_models_def)

lemma reconcile_deletions:
  assumes "any_order ord" "t_tags t = Some (Some tags)" "t_ps t = Some (Some ms)"
    "set cur = rm_name ` set ms"
  shows "deletions (drop (length (p_log p)) (p_log (reconcile ord t cur p))) = stale t"
    "dom (mc_cache (p_mc (reconcile ord t cur p))) \<subseteq> kept_models t"
proof -
  let ?present = "\<lambda>n. n \<in> set tags \<or> n \<in> set cur"
  have k: "?present v \<longleftrightarrow> v \<in> kept_models t" for v
    using assms by (simp add: kept_models_def)
  have r: "reconcile ord t cur p =
      p_call (concat (map (\<lambda>g. prune_model_gauge ord g (t_collected t g) ?present) pruned_gauges))
        (p\<lparr>p_mc := mc_prune (p_mc p) ?present\<rparr>)"
    by (simp add: reconcile_def assms(2,3) Let_def)
  show "deletions (drop (length (p_log p)) (p_log (reconcile ord t cur p))) = stale t"
    by (auto simp: r deletions_def stale_def prune_model_gauge_def any_orderD(1) [OF assms(1)]
        set_absent image_iff k [symmetric])
  show "dom (mc_cache (p_mc (reconcile ord t cur p))) \<subseteq> kept_models t"
    using k by (auto simp: r dest!: mc.evict_then_known)
qed

lemma reconcile_appends:
  "\<exists>ds. p_log (reconcile ord t cur p) = p_log p @ ds"
  using reconcile_frame by blast

text \<open>The state between the loops and the reconciliation.\<close>

lemma scrape_models_loops:
  obtains p2 cs where "adds p cs p2" "deletions cs = {}"
    "scrape_models uni ord t ms p = (reconcile ord t (remdups (map rm_name ms)) p2)
       \<lparr>p_prev_loaded := remdups (map rm_name ms), p_initialized := True\<rparr>"
proof -
  let ?cur = "remdups (map rm_name ms)"
  let ?p1 = "foldl (scrape_loaded uni (t_show t)) p ms"
  let ?p2 = "foldl (scrape_unloaded uni (t_show t) ?cur) ?p1 (ord (p_prev_loaded p))"
  have 1: "\<exists>cs. adds p cs ?p1 \<and> deletions cs = {}"
    by (rule exI, rule conjI, rule conjunct1 [OF load_loop], rule deletions_loaded)
  have 2: "\<exists>cs. adds ?p1 cs ?p2 \<and> deletions cs = {}"
    by (rule exI, rule conjI, rule unload_loop, rule deletions_unloaded)
  obtain cs ds where "adds p (cs @ ds) ?p2" "deletions (cs @ ds) = {}"
    using 1 2 by (auto simp: deletions_append intro: adds_trans)
  then show thesis by (rule that) (simp add: scrape_models_def Let_def)
qed

lemma scrape_models_deletions:
  assumes "any_order ord" "t_tags t = Some (Some tags)" "t_ps t = Some (Some ms)"
  shows "deletions (drop (length (p_log p)) (p_log (scrape_models uni ord t ms p))) = stale t
    \<and> dom (mc_cache (p_mc (scrape_models uni ord t ms p))) \<subseteq> kept_models t"
proof -
  let ?cur = "remdups (map rm_name ms)"
  obtain p2 cs where a: "adds p cs p2" "deletions cs = {}"
    and q: "scrape_models uni ord t ms p = (reconcile ord t ?cur p2)\<lparr>p_prev_loaded := ?cur, p_initialized := True\<rparr>"
    by (rule scrape_models_loops)
  obtain ds where d: "p_log (reconcile ord t ?cur p2) = p_log p2 @ ds" using reconcile_appends by blast
  from reconcile_deletions [OF assms(1-3), of ?cur p2] d a show ?thesis
    by (simp add: q adds_def deletions_append)
qed

lemma scrape_models_incomplete:
  assumes "t_tags t = None \<or> t_tags t = Some None \<or> t_ps t = Some None"
  shows "deletions (drop (length (p_log p)) (p_log (scrape_models uni ord t ms p))) = {}
    \<and> dom (mc_cache (p_mc p)) \<subseteq> dom (mc_cache (p_mc (scrape_models uni ord t ms p)))"
proof -
  let ?cur = "remdups (map rm_name ms)"
  obtain p2 cs where a: "adds p cs p2" "deletions cs = {}"
    and q: "scrape_models uni ord t ms p = (reconcile ord t ?cur p2)\<lparr>p_prev_loaded := ?cur, p_initialized := True\<rparr>"
    by (rule scrape_models_loops)
  have "reconcile ord t ?cur p2 = p2" using assms by (auto simp: reconcile_def split: option.split)
  with a show ?thesis by (auto simp: q adds_def dom_def)
qed

lemma deletions_up: "deletions (MSet m ls v # cs) = deletions cs"
  by (simp add: deletions_def)

lemma scrape_models_appends:
  "any_order ord \<Longrightarrow> \<exists>cs. p_log (scrape_models uni ord t ms p) = p_log p @ cs"
  by (rule scrape_models_log [of ord uni t ms p]) auto

text \<open>C34. Reconciliation removes exactly the series of models that are gone. On a tick with complete
  inventories (a successful health check, and model lists from both endpoints), the deletions are
  exactly those of the five model gauges' series whose model is neither pulled nor running, and the
  cache keeps no other model either; on any other tick nothing is deleted and no metadata is lost.\<close>

theorem only_gone_models_are_pruned:
  assumes "any_order ord"
  shows "let q = scrape uni ord p t in
    (if complete_inventory t
     then deletions (drop (length (p_log p)) (p_log q)) = stale t \<and> dom (mc_cache (p_mc q)) \<subseteq> kept_models t
     else deletions (drop (length (p_log p)) (p_log q)) = {} \<and> dom (mc_cache (p_mc p)) \<subseteq> dom (mc_cache (p_mc q)))"
proof (cases "complete_inventory t")
  case True
  then obtain tags ms where t: "t_healthy t" "t_tags t = Some (Some tags)" "t_ps t = Some (Some ms)"
    by (auto simp: complete_inventory_def)
  then show ?thesis
    using scrape_models_deletions [OF assms t(2,3), of "p_call [MSet Up [] (FInt 1)] p" uni] True
      scrape_models_appends [OF assms, of uni t ms "p_call [MSet Up [] (FInt 1)] p"]
    by (auto simp: scrape_def deletions_up)
next
  case False
  then consider "\<not> t_healthy t" | "t_healthy t" "t_ps t = None"
    | ms where "t_healthy t" "t_ps t = Some ms" "t_tags t = None \<or> t_tags t = Some None \<or> t_ps t = Some None"
    by (auto simp: complete_inventory_def) (metis not_Some_eq)
  then show ?thesis
  proof cases
    case 3
    then show ?thesis
      using scrape_models_incomplete [OF 3(3), of "p_call [MSet Up [] (FInt 1)] p" uni ord "slice ms"] False
        scrape_models_appends [OF assms, of uni t "slice ms" "p_call [MSet Up [] (FInt 1)] p"]
      by (auto simp: scrape_def deletions_up)
  qed (use False in \<open>auto simp: scrape_def deletions_def\<close>)
qed

theorem only_gone_models_are_pruned_witness:
  "let q = scrape id id (new_poller new_model_cache)
      (demo_tick [''a'']\<lparr>t_collected := (\<lambda>_. [[(''model'', ''b'')]])\<rparr>) in
     (ModelLoaded, ''model'', ''b'') \<in> deletions (drop 0 (p_log q))"
  using only_gone_models_are_pruned [of id id "new_poller new_model_cache"
      "demo_tick [''a'']\<lparr>t_collected := (\<lambda>_. [[(''model'', ''b'')]])\<rparr>"]
  by (simp add: any_order_def complete_inventory_def demo_tick_def new_poller_def stale_def
      kept_models_def pruned_gauges_def Let_def)

end
