(* ===== verification/Exporter.thy ===== *)
theory Exporter
  imports Config Build AppleGpu Proxy Poller
begin

text \<open>
  \<^verbatim>\<open>internal/collector/collector.go\<close> and \<^verbatim>\<open>cmd/exporter/main.go\<close>: how a loaded configuration becomes
  the collector and the pusher, and which goroutines run. The backend of the GPU package, which a
  build tag selects, is the argument \<open>platform\<close>. The addresses the HTTP servers listen on are kept;
  what the servers do is in \<open>Lifecycle\<close>.
\<close>

section \<open>The collector\<close>

datatype platform =
    Linux file_reader globber
  | Darwin sysctl
  | OtherPlatform

datatype gpu_backend =
    AmdBackend gpu_collector
  | AppleBackend apple_collector
  | NoBackend

text \<open>The backend and the metrics it registers.\<close>

primrec new_gpu_backend :: "platform \<Rightarrow> gpu_options \<Rightarrow> gpu_backend \<times> gpu_metric list" where
  "new_gpu_backend (Linux fs_read fs_glob) cfg = (AmdBackend (new_gpu_collector fs_read fs_glob cfg), gpu_metrics)"
| "new_gpu_backend (Darwin ctl) cfg = (AppleBackend (new_apple_collector ctl cfg), gpu_metrics)"
| "new_gpu_backend OtherPlatform cfg = (NoBackend, [])"

text \<open>The interval of the ticker of a backend.\<close>

primrec backend_interval :: "gpu_backend \<Rightarrow> duration option" where
  "backend_interval (AmdBackend c) = Some (go_poll_interval (gp_options c))"
| "backend_interval (AppleBackend c) = Some (go_poll_interval (ac_options c))"
| "backend_interval NoBackend = None"

record proxy_server =
  pr_upstream :: string
  pr_listen_addr :: string
  pr_excluded :: "string list"

definition new_proxy :: "config \<Rightarrow> proxy_server" where
  "new_proxy c =
     \<lparr>pr_upstream = cf_ollama_url c, pr_listen_addr = px_listen_addr (cf_proxy c),
      pr_excluded = px_exclude_paths (cf_proxy c)\<rparr>"

text \<open>The poller and the proxy share one model cache.\<close>

record collector =
  co_poller :: poller
  co_poll_interval :: duration
  co_proxy :: "proxy_server option"
  co_gpu :: "gpu_backend option"

definition gpu_options_of :: "config \<Rightarrow> gpu_options" where
  "gpu_options_of c =
     \<lparr>go_enabled = gc_enabled (cf_gpu c),
      go_poll_interval =
        (if gc_poll_interval (cf_gpu c) \<le> 0 then cf_poll_interval c else gc_poll_interval (cf_gpu c)),
      go_sysfs_base = gc_sysfs_base (cf_gpu c)\<rparr>"

text \<open>\<open>New\<close>: the collector, and the names of the metrics that have been registered.\<close>

definition new_collector :: "platform \<Rightarrow> config \<Rightarrow> collector \<times> string list" where
  "new_collector plat c =
     (let (gpu, gpu_regs) =
            (if gc_enabled (cf_gpu c)
             then let (b, ms) = new_gpu_backend plat (gpu_options_of c) in (Some b, ms)
             else (None, []))
      in (\<lparr>co_poller = new_poller new_model_cache, co_poll_interval = cf_poll_interval c,
           co_proxy = (if px_enabled (cf_proxy c) then Some (new_proxy c) else None), co_gpu = gpu\<rparr>,
          map (d_name \<circ> desc_of) all_metrics @ map (d_name \<circ> gpu_desc_of) gpu_regs))"

section \<open>The pusher\<close>

definition to_build_spec :: "rw_config \<Rightarrow> build_spec" where
  "to_build_spec rw =
     \<lparr>bs_name = rc_name rw, bs_url = rc_url rw, bs_timeout = rc_timeout rw,
      bs_max_attempts = re_max_attempts (rc_retry rw), bs_max_elapsed = re_max_elapsed (rc_retry rw),
      bs_initial_backoff = re_initial_backoff (rc_retry rw), bs_max_backoff = re_max_backoff (rc_retry rw),
      bs_failure_threshold = ci_failure_threshold (rc_circuit rw), bs_window = ci_window (rc_circuit rw),
      bs_cooldown = ci_cooldown (rc_circuit rw), bs_capacity = rc_capacity rw,
      bs_tls_ca_file = tl_ca_file (rc_tls rw), bs_tls_insecure_verify = tl_insecure_skip_verify (rc_tls rw),
      bs_insecure_http = rc_insecure_http rw,
      bs_basic_user = (case rc_basic_auth rw of None \<Rightarrow> [] | Some ba \<Rightarrow> ba_username ba),
      bs_basic_pass_file = (case rc_basic_auth rw of None \<Rightarrow> [] | Some ba \<Rightarrow> ba_password_file ba),
      bs_bearer_token_file = rc_bearer_token_file rw, bs_headers = rc_headers rw,
      bs_external_labels = rc_external_labels rw\<rparr>"

text \<open>The warnings at startup, with the attributes that are logged.\<close>

datatype startup_warning =
    SingleEndpointOnly string nat
  | TLSVerificationDisabled string
  | PlaintextTransport string

definition build_pusher ::
    "(string \<Rightarrow> string option) \<Rightarrow> (string \<Rightarrow> bool) \<Rightarrow> config
       \<Rightarrow> startup_warning list \<times> (build_error + built option)" where
  "build_pusher read_file pem_ok c =
     (case cf_remote_write c of
        [] \<Rightarrow> ([], Inr None)
      | rw # rest \<Rightarrow>
          ((if rest \<noteq> [] then [SingleEndpointOnly (rc_name rw) (length rest)] else [])
           @ (if tl_insecure_skip_verify (rc_tls rw) then [TLSVerificationDisabled (rc_url rw)] else [])
           @ (if rc_insecure_http rw then [PlaintextTransport (rc_url rw)] else []),
           map_sum id Some
             (build read_file pem_ok [to_build_spec rw] True (rc_flush_interval rw) (5 * second))))"

section \<open>Startup\<close>

datatype slog_level = LevelDebug | LevelInfo | LevelWarn | LevelError

definition level_of :: "(string \<Rightarrow> string) \<Rightarrow> string \<Rightarrow> slog_level" where
  "level_of uni s =
     (let l = lower_string uni s in
      if l = ''debug'' then LevelDebug
      else if l = ''warn'' then LevelWarn
      else if l = ''error'' then LevelError
      else LevelInfo)"

text \<open>
  A goroutine that is started. The flag says whether \<open>main\<close> waits for it before it returns: the
  goroutines of the collector are not in the wait group.
\<close>

datatype service =
    PollerLoop duration
  | GpuLoop "duration option"
  | ProxyServe string
  | MetricsServe string
  | PusherRun

record exporter =
  ex_level :: slog_level
  ex_agent :: string
  ex_collector :: collector
  ex_warnings :: "startup_warning list"
  ex_pusher :: "built option"
  ex_registered :: "string list"
  ex_services :: "(service \<times> bool) list"

definition collector_services :: "collector \<Rightarrow> service list" where
  "collector_services col =
     (case co_gpu col of None \<Rightarrow> [] | Some b \<Rightarrow> [GpuLoop (backend_interval b)])
     @ (case co_proxy col of None \<Rightarrow> [] | Some p \<Rightarrow> [ProxyServe (pr_listen_addr p)])
     @ [PollerLoop (co_poll_interval col)]"

definition main_services :: "config \<Rightarrow> collector \<Rightarrow> built option \<Rightarrow> (service \<times> bool) list" where
  "main_services c col pusher =
     map (\<lambda>s. (s, False)) (collector_services col)
     @ (if me_enabled (cf_metrics_endpoint c)
        then [(MetricsServe (me_listen_address (cf_metrics_endpoint c)), True)] else [])
     @ (if pusher \<noteq> None then [(PusherRun, True)] else [])"

datatype main_error = LoadFailed config_error | RemoteWriteFailed build_error

text \<open>\<open>main\<close> from a loaded configuration to the point where it waits for a signal.\<close>

definition main_start ::
    "(string \<Rightarrow> string) \<Rightarrow> platform \<Rightarrow> (string \<Rightarrow> string option) \<Rightarrow> (string \<Rightarrow> bool) \<Rightarrow> string
       \<Rightarrow> config_error + config \<Rightarrow> main_error + exporter" where
  "main_start uni plat read_file pem_ok version loaded =
     (case loaded of
        Inl e \<Rightarrow> Inl (LoadFailed e)
      | Inr c \<Rightarrow>
          let (col, regs) = new_collector plat c;
              (warnings, built) = build_pusher read_file pem_ok c
          in case built of
               Inl e \<Rightarrow> Inl (RemoteWriteFailed e)
             | Inr pusher \<Rightarrow>
                 Inr \<lparr>ex_level = level_of uni (cf_log_level c), ex_agent = user_agent_of_version version,
                      ex_collector = col, ex_warnings = warnings, ex_pusher = pusher,
                      ex_registered =
                        regs @ (if pusher \<noteq> None then map (d_name \<circ> rw_desc_of) rw_metrics else []),
                      ex_services = main_services c col pusher\<rparr>)"

lemma main_start_Inr_cases:
  assumes "main_start uni plat rf pem version loaded = Inr ex"
  obtains c where "loaded = Inr c" "snd (build_pusher rf pem c) = Inr (ex_pusher ex)"
    "ex_collector ex = fst (new_collector plat c)" "ex_warnings ex = fst (build_pusher rf pem c)"
    "ex_registered ex = snd (new_collector plat c)
       @ (if ex_pusher ex \<noteq> None then map (d_name \<circ> rw_desc_of) rw_metrics else [])"
    "ex_services ex = main_services c (ex_collector ex) (ex_pusher ex)"
  using assms by (auto simp: main_start_def Let_def split: sum.splits prod.splits)

lemma build_pusher_Some:
  assumes "snd (build_pusher rf pem c) = Inr (Some b)"
  obtains rw rest where "cf_remote_write c = rw # rest"
    "build rf pem [to_build_spec rw] True (rc_flush_interval rw) (5 * second) = Inr b"
  using assms by (auto simp: build_pusher_def map_sum_Inr split: list.splits)

lemma build_pusher_None: "snd (build_pusher rf pem c) = Inr None \<longleftrightarrow> cf_remote_write c = []"
  by (auto simp: build_pusher_def map_sum_Inr split: list.splits)

section \<open>Properties\<close>

lemma exporter_names_distinct:
  "distinct (map (d_name \<circ> desc_of) all_metrics @ map (d_name \<circ> gpu_desc_of) gpu_metrics
     @ map (d_name \<circ> rw_desc_of) rw_metrics)"
  by (simp add: rw_metrics_def rw_desc_def all_metrics_def gpu_metrics_def desc_def)

text \<open>C26. The metrics of all components can be registered with one registry: whatever the platform and the
  configuration, no name is registered twice, which would panic at startup.\<close>

theorem registration_cannot_panic:
  "distinct (snd (new_collector plat c) @ map (d_name \<circ> rw_desc_of) rw_metrics)"
proof -
  have "snd (new_gpu_backend plat cfg) \<in> {gpu_metrics, []}" for cfg by (cases plat) simp_all
  then have "snd (new_collector plat c) = map (d_name \<circ> desc_of) all_metrics @ map (d_name \<circ> gpu_desc_of) gpu_metrics
      \<or> snd (new_collector plat c) = map (d_name \<circ> desc_of) all_metrics"
    by (auto simp: new_collector_def Let_def split: prod.splits) (metis snd_conv)
  with exporter_names_distinct show ?thesis by (elim disjE) (simp_all only: distinct_append append_assoc set_append, blast+)
qed


text \<open>C15. A started exporter does something and cannot panic in a ticker: it serves metrics or pushes them;
  every loop has a positive interval (the GPU's is the poller's unless it has its own); the pusher
  starts from an empty queue of positive capacity and a closed breaker, and flushes no more often
  than once a second.\<close>

theorem started_exporter_is_ready:
  assumes "main_start uni plat rf pem version (load fr url_scheme file env_ollama env_listen) = Inr ex"
  shows "(\<exists>s \<in> set (ex_services ex). \<exists>a. s = (MetricsServe a, True) \<or> s = (PusherRun, True))
    \<and> second \<le> co_poll_interval (ex_collector ex)
    \<and> (\<forall>b d. co_gpu (ex_collector ex) = Some b \<longrightarrow> backend_interval b = Some d \<longrightarrow> 0 < d)
    \<and> (\<forall>b. ex_pusher ex = Some b \<longrightarrow> fresh_sender (bl_sender b) \<and> sender_ok (bl_sender b)
         \<and> q_contents (sr_queue (bl_sender b)) = [] \<and> 0 < q_cap (sr_queue (bl_sender b))
         \<and> br_ok (sr_breaker (bl_sender b)) \<and> br_state (sr_breaker (bl_sender b)) = BreakerClosed
         \<and> second \<le> pu_interval (bl_pusher b) \<and> 0 < pu_drain_timeout (bl_pusher b) \<and> 0 < hc_timeout (bl_client b))"
  using assms
proof (cases rule: main_start_Inr_cases)
  case (1 c)
  have v: "second \<le> cf_poll_interval c" "\<forall>rw \<in> set (cf_remote_write c). entry_valid url_scheme rw"
    "me_enabled (cf_metrics_endpoint c) \<or> cf_remote_write c \<noteq> []"
    using 1(1) by (auto elim!: load_Inr_cases simp: validate_iff)
  have i: "list_all rw_ints_ok (cf_remote_write c)" using load_i64 [OF 1(1)] by (simp add: config_ints_ok_def)
  have "ex_pusher ex = None \<longleftrightarrow> cf_remote_write c = []"
    using 1(2) build_pusher_None [of rf pem c] by (cases "ex_pusher ex") auto
  then have "\<exists>s \<in> set (ex_services ex). \<exists>a. s = (MetricsServe a, True) \<or> s = (PusherRun, True)"
    using v(3) 1(6) by (auto simp: main_services_def)
  moreover have "second \<le> co_poll_interval (ex_collector ex)"
    using v(1) 1(3) by (simp add: new_collector_def Let_def split: prod.splits)
  moreover have gpu: "0 < d" if b: "co_gpu (ex_collector ex) = Some b" and d: "backend_interval b = Some d" for b d
  proof -
    have "b = fst (new_gpu_backend plat (gpu_options_of c))"
      using b 1(3) by (auto simp: new_collector_def Let_def split: prod.splits if_splits)
    with d v(1) show ?thesis
      by (cases plat) (auto simp: new_gpu_collector_def new_apple_collector_def gpu_options_of_def second_def)
  qed
  moreover have "fresh_sender (bl_sender b) \<and> sender_ok (bl_sender b)
         \<and> q_contents (sr_queue (bl_sender b)) = [] \<and> 0 < q_cap (sr_queue (bl_sender b))
         \<and> br_ok (sr_breaker (bl_sender b)) \<and> br_state (sr_breaker (bl_sender b)) = BreakerClosed
         \<and> second \<le> pu_interval (bl_pusher b) \<and> 0 < pu_drain_timeout (bl_pusher b) \<and> 0 < hc_timeout (bl_client b)"
    if p: "ex_pusher ex = Some b" for b
  proof -
    obtain rw rest where rw: "cf_remote_write c = rw # rest"
      "build rf pem [to_build_spec rw] True (rc_flush_interval rw) (5 * second) = Inr b"
      using build_pusher_Some [OF 1(2) [unfolded p]] by blast
    then have e: "entry_valid url_scheme rw" "rw_ints_ok rw" using v(2) i by auto
    then have "in_i64 (bs_window (to_build_spec rw))" "in_i64 (bs_cooldown (to_build_spec rw))"
      by (simp_all add: to_build_spec_def rw_ints_ok_def)
    note r = built_ready [OF rw(2) this]
    moreover have "second \<le> pu_interval (bl_pusher b)"
      using rw(2) e(1) by (auto elim!: build_Inr_cases simp: entry_valid_def new_pusher_def second_def)
    moreover have "0 \<le> bs_capacity (to_build_spec rw)" using e(1) by (simp add: to_build_spec_def entry_valid_def)
    ultimately show ?thesis by simp
  qed
  ultimately show ?thesis by blast
qed

theorem started_exporter_is_ready_witness:
  "second \<le> co_poll_interval (ex_collector (projr
     (main_start id OtherPlatform (\<lambda>_. None) (\<lambda>_. False) [] (load (\<lambda>_ _ _. 0) (\<lambda>_. None) FileMissing [] []))))"
proof -
  have "cf_remote_write (projr (load (\<lambda>_ _ _. 0) (\<lambda>_. None) FileMissing [] [])) = []"
    by (simp add: load_defaults) (simp add: default_config_def)
  then obtain ex where "main_start id OtherPlatform (\<lambda>_. None) (\<lambda>_. False) [] (load (\<lambda>_ _ _. 0) (\<lambda>_. None) FileMissing [] []) = Inr ex"
    by (simp add: load_defaults main_start_def build_pusher_def Let_def case_prod_beta)
  from started_exporter_is_ready [OF this] this show ?thesis by simp
qed

section \<open>Credentials\<close>

text \<open>The \<open>Authorization\<close> header that the configuration of an endpoint stands for.\<close>

definition file_credential :: "(string \<Rightarrow> string option) \<Rightarrow> string \<Rightarrow> string" where
  "file_credential rf f =
     (if f = [] then [] else case rf f of None \<Rightarrow> [] | Some t \<Rightarrow> trim_right_set t cred_cutset)"

definition expected_authorization :: "(string \<Rightarrow> string option) \<Rightarrow> rw_config \<Rightarrow> string option" where
  "expected_authorization rf rw =
     (if file_credential rf (rc_bearer_token_file rw) \<noteq> []
      then Some (''Bearer '' @ file_credential rf (rc_bearer_token_file rw))
      else case rc_basic_auth rw of
        Some ba \<Rightarrow> if ba_username ba \<noteq> []
          then Some (basic_auth_header (ba_username ba) (file_credential rf (ba_password_file ba))) else None
      | None \<Rightarrow> None)"

lemma loaded_credentials:
  assumes "load_creds rf (to_build_spec rw) = Inr (u, p, t)"
  shows "t = file_credential rf (rc_bearer_token_file rw)"
    and "u = (case rc_basic_auth rw of None \<Rightarrow> [] | Some ba \<Rightarrow> ba_username ba)"
    and "u \<noteq> [] \<longrightarrow> (\<exists>ba. rc_basic_auth rw = Some ba \<and> p = file_credential rf (ba_password_file ba))"
  using assms by (auto simp: load_creds_def to_build_spec_def file_credential_def split: if_splits option.splits)

lemma compose_authorization:
  assumes "\<forall>(k, v) \<in> set (ep_headers cfg). canonical_header k \<noteq> ''Authorization''"
    and "set hs = set (compose_headers cfg)" "h ''Authorization'' = None"
  shows "apply_headers h hs ''Authorization'' =
    (if ep_bearer_token cfg \<noteq> [] then Some (''Bearer '' @ ep_bearer_token cfg)
     else if ep_basic_user cfg \<noteq> [] then Some (basic_auth_header (ep_basic_user cfg) (ep_basic_pass cfg)) else None)"
proof (cases "ep_bearer_token cfg = [] \<and> ep_basic_user cfg = []")
  case True
  then have "set hs = set (ep_headers cfg)" using assms(2) by (simp add: compose_headers_def)
  with assms(1,3) True show ?thesis by (subst apply_headers_absent) auto
next
  case False
  define v where "v = (if ep_bearer_token cfg \<noteq> [] then ''Bearer '' @ ep_bearer_token cfg
    else basic_auth_header (ep_basic_user cfg) (ep_basic_pass cfg))"
  have "apply_headers h hs ''Authorization'' = Some v"
    by (rule apply_headers_value [OF authorization_not_reserved])
      (use assms(1,2) False in \<open>auto simp: compose_headers_def Let_def v_def\<close>)
  with False show ?thesis by (auto simp: v_def)
qed

text \<open>C12. From the file to the wire: with a configuration that Load accepted, every request of every batch
  carries exactly the credentials it stands for (the trimmed bearer token, or the basic credentials,
  or none at all when the token file is blank or no user is set); no configured header replaces them.\<close>

theorem credentials_on_every_request:
  assumes "load fr url_scheme file env_ollama env_listen = Inr c"
    and "snd (build_pusher rf pem c) = Inr (Some b)" "bx_cfg bx = sr_cfg (bl_sender b)"
    and "process_batch bx t0 enc_err start cb = Some (cb', es)" "Posted h \<in> set es"
    and "\<And>i. mset (ae_headers (bx_env bx i)) = mset (compose_headers (bx_cfg bx))"
  shows "h ''Authorization'' = expected_authorization rf (hd (cf_remote_write c))"
proof -
  obtain rw rest where rw: "cf_remote_write c = rw # rest"
    "build rf pem [to_build_spec rw] True (rc_flush_interval rw) (5 * second) = Inr b"
    using assms(2) by (rule build_pusher_Some)
  from assms(1) rw(1) have ev: "entry_valid url_scheme rw" by (auto elim!: load_Inr_cases simp: validate_iff)
  obtain u p t where cr: "load_creds rf (to_build_spec rw) = Inr (u, p, t)"
    and cfg: "sr_cfg (bl_sender b) = endpoint_cfg (to_build_spec rw) u p t"
    using rw(2) by (auto elim!: build_Inr_cases simp: new_sender_run_sel)
  let ?cfg = "endpoint_cfg (to_build_spec rw) u p t"
  obtain hs where h: "h = apply_headers (protocol_headers (bx_agent bx)) hs" and "set hs = set (compose_headers (bx_cfg bx))"
    using posted_request [OF assms(4-6)] by blast
  then have hs: "set hs = set (compose_headers ?cfg)" by (simp add: assms(3) cfg)
  have "''Authorization'' \<in> set reserved_config_headers" by (simp add: reserved_config_headers_def)
  then have "\<forall>(k, v) \<in> set (ep_headers ?cfg). canonical_header k \<noteq> ''Authorization''"
    using ev by (auto simp: entry_valid_def endpoint_cfg_def to_build_spec_def)
  moreover have "protocol_headers (bx_agent bx) ''Authorization'' = None"
    by (simp add: protocol_headers_def set_header_def)
  ultimately have "h ''Authorization'' = (if t \<noteq> [] then Some (''Bearer '' @ t)
      else if u \<noteq> [] then Some (basic_auth_header u p) else None)"
    using compose_authorization [OF _ hs] h by (simp add: endpoint_cfg_def)
  with loaded_credentials [OF cr] rw(1) show ?thesis
    by (auto simp: expected_authorization_def split: option.splits)
qed

theorem credentials_on_every_request_witness:
  "\<exists>c h. load (\<lambda>_ _ _. 0) (\<lambda>_. Some ''https'') (FileData demo_data) [] [] = Inr c
     \<and> h ''Authorization'' = expected_authorization (\<lambda>_. None) (hd (cf_remote_write c))
     \<and> h ''Authorization'' = Some (basic_auth_header ''u'' [])"
proof -
  obtain c where c: "load (\<lambda>_ _ _. 0) (\<lambda>_. Some ''https'') (FileData demo_data) [] [] = Inr c"
    and rw: "cf_remote_write c = [demo_rw]"
    using demo_load by blast
  have "rc_bearer_token_file demo_rw = []" "rc_basic_auth demo_rw = Some \<lparr>ba_username = ''u'', ba_password_file = []\<rparr>"
    "tl_ca_file (rc_tls demo_rw) = []"
    by (simp_all add: demo_rw_def empty_rw_def)
  note d = this
  have "\<exists>b. build (\<lambda>_. None) (\<lambda>_. True) [to_build_spec demo_rw] True (rc_flush_interval demo_rw) (5 * second) = Inr b"
    by (simp add: build_def load_creds_def new_http_client_def to_build_spec_def d Let_def case_prod_beta)
  then obtain b where b: "snd (build_pusher (\<lambda>_. None) (\<lambda>_. True) c) = Inr (Some b)"
    by (auto simp: build_pusher_def rw)
  define bx where "bx = demo_ok_bx\<lparr>bx_cfg := sr_cfg (bl_sender b),
    bx_env := \<lambda>_. demo_ok_env\<lparr>ae_headers := compose_headers (sr_cfg (bl_sender b))\<rparr>\<rparr>"
  have "fst (br_allow 0 demo_breaker)" by (simp add: br_allow_def demo_breaker_ok)
  then obtain cb' es where p: "process_batch bx 0 None 0 demo_breaker = Some (cb', es)"
    "Posted (apply_headers (protocol_headers (bx_agent bx)) (ae_headers (bx_env bx 0))) \<in> set es"
    using first_attempt_posted [of 0 demo_breaker bx "\<lparr>resp_status_code = 200, resp_status = ''200 OK'', resp_retry_after = []\<rparr>" 0]
    by (auto simp: bx_def demo_ok_sel)
  have "bx_cfg bx = sr_cfg (bl_sender b)" "\<And>i. mset (ae_headers (bx_env bx i)) = mset (compose_headers (bx_cfg bx))"
    by (simp_all add: bx_def)
  from credentials_on_every_request [OF c b this(1) p this(2)]
  have "apply_headers (protocol_headers (bx_agent bx)) (ae_headers (bx_env bx 0)) ''Authorization''
      = expected_authorization (\<lambda>_. None) demo_rw" by (simp add: rw)
  moreover have "expected_authorization (\<lambda>_. None) demo_rw = Some (basic_auth_header ''u'' [])"
    by (simp add: expected_authorization_def file_credential_def d)
  ultimately show ?thesis using c rw by auto
qed

end
