(* ===== verification/Progress.thy ===== *)
theory Progress
  imports "HOL-Library.Product_Lexorder"
begin

text \<open>
  Infinite runs of a labelled transition system, fairness of a set of labels, and the progress argument
  that the concurrent parts share: a goal is reached when fair steps towards it stay enabled and
  shrink a well-founded measure that no other step enlarges.
\<close>

section \<open>Runs and fairness\<close>

text \<open>A run is a sequence of states with the label of each step; \<open>None\<close> marks a pause.\<close>

definition run_of :: "('l \<Rightarrow> 's \<Rightarrow> 's \<Rightarrow> bool) \<Rightarrow> (nat \<Rightarrow> 's) \<Rightarrow> (nat \<Rightarrow> 'l option) \<Rightarrow> bool" where
  "run_of step \<sigma> \<tau> \<longleftrightarrow>
     (\<forall>n. case \<tau> n of None \<Rightarrow> \<sigma> (Suc n) = \<sigma> n | Some l \<Rightarrow> step l (\<sigma> n) (\<sigma> (Suc n)))"

definition enabled :: "('l \<Rightarrow> 's \<Rightarrow> 's \<Rightarrow> bool) \<Rightarrow> 'l set \<Rightarrow> 's \<Rightarrow> bool" where
  "enabled step A s \<longleftrightarrow> (\<exists>l \<in> A. \<exists>s'. step l s s')"

text \<open>Weak fairness: what stays enabled is eventually done. Strong fairness: what is enabled again
  and again is eventually done.\<close>

definition weakly_fair ::
    "('l \<Rightarrow> 's \<Rightarrow> 's \<Rightarrow> bool) \<Rightarrow> 'l set \<Rightarrow> (nat \<Rightarrow> 's) \<Rightarrow> (nat \<Rightarrow> 'l option) \<Rightarrow> bool" where
  "weakly_fair step A \<sigma> \<tau> \<longleftrightarrow>
     (\<forall>n. (\<forall>m \<ge> n. enabled step A (\<sigma> m)) \<longrightarrow> (\<exists>m \<ge> n. \<exists>l \<in> A. \<tau> m = Some l))"

definition strongly_fair ::
    "('l \<Rightarrow> 's \<Rightarrow> 's \<Rightarrow> bool) \<Rightarrow> 'l set \<Rightarrow> (nat \<Rightarrow> 's) \<Rightarrow> (nat \<Rightarrow> 'l option) \<Rightarrow> bool" where
  "strongly_fair step A \<sigma> \<tau> \<longleftrightarrow>
     (\<forall>n. (\<forall>k. \<exists>m \<ge> k. enabled step A (\<sigma> m)) \<longrightarrow> (\<exists>m \<ge> n. \<exists>l \<in> A. \<tau> m = Some l))"

lemma run_step: "run_of step \<sigma> \<tau> \<Longrightarrow> \<tau> n = Some l \<Longrightarrow> step l (\<sigma> n) (\<sigma> (Suc n))"
  unfolding run_of_def by (drule spec [of _ n]) simp

lemma run_cases:
  assumes "run_of step \<sigma> \<tau>"
  obtains "\<sigma> (Suc n) = \<sigma> n" "\<tau> n = None" | l where "\<tau> n = Some l" "step l (\<sigma> n) (\<sigma> (Suc n))"
  using spec [OF assms [unfolded run_of_def], of n] that by (auto split: option.splits)

text \<open>What every step keeps holds for the rest of a run.\<close>

lemma run_keeps:
  assumes r: "run_of step \<sigma> \<tau>" and keep: "\<And>l s s'. P s \<Longrightarrow> step l s s' \<Longrightarrow> P s'"
    and p: "P (\<sigma> n)" and le: "n \<le> m"
  shows "P (\<sigma> m)"
  using le
proof (induction m rule: dec_induct)
  case (step m)
  show ?case by (rule run_cases [OF r, of m]) (use step keep in auto)
qed (rule p)

section \<open>The progress argument\<close>

locale progress =
  fixes step :: "'l \<Rightarrow> 's \<Rightarrow> 's \<Rightarrow> bool"
    and A :: "'l set"
    and inv :: "'s \<Rightarrow> bool"
    and goal :: "'s \<Rightarrow> bool"
    and work :: "'s \<Rightarrow> 'w :: wellorder"
  assumes inv_step: "inv s \<Longrightarrow> \<not> goal s \<Longrightarrow> step l s s' \<Longrightarrow> \<not> goal s' \<Longrightarrow> inv s'"
    and can_step: "inv s \<Longrightarrow> \<not> goal s \<Longrightarrow> enabled step A s"
    and work_step: "inv s \<Longrightarrow> \<not> goal s \<Longrightarrow> step l s s' \<Longrightarrow> \<not> goal s' \<Longrightarrow> work s' \<le> work s"
    and work_less: "inv s \<Longrightarrow> \<not> goal s \<Longrightarrow> step l s s' \<Longrightarrow> \<not> goal s' \<Longrightarrow> l \<in> A \<Longrightarrow> work s' < work s"
begin

text \<open>As long as the goal is not reached, the invariant holds and the measure does not grow.\<close>

lemma before_goal:
  assumes r: "run_of step \<sigma> \<tau>" and i: "inv (\<sigma> n)" and g: "\<forall>m \<ge> n. \<not> goal (\<sigma> m)" and le: "n \<le> m"
  shows "inv (\<sigma> m) \<and> work (\<sigma> m) \<le> work (\<sigma> n)"
  using le
proof (induction m rule: dec_induct)
  case base
  then show ?case using i by simp
next
  case (step m)
  have g': "\<not> goal (\<sigma> m)" "\<not> goal (\<sigma> (Suc m))" using g step.hyps by auto
  show ?case
  proof (rule run_cases [OF r, of m])
    fix l
    assume "step l (\<sigma> m) (\<sigma> (Suc m))"
    with inv_step [of "\<sigma> m"] work_step [of "\<sigma> m"] g' step.IH show ?thesis by (meson order_trans)
  qed (use step.IH in simp)
qed

lemma eventually:
  assumes r: "run_of step \<sigma> \<tau>" and f: "weakly_fair step A \<sigma> \<tau>" and i: "inv (\<sigma> n)"
  shows "\<exists>m \<ge> n. goal (\<sigma> m)"
  using i
proof (induction "work (\<sigma> n)" arbitrary: n rule: less_induct)
  case less
  show ?case
  proof (rule ccontr)
    assume "\<not> (\<exists>m \<ge> n. goal (\<sigma> m))"
    then have g: "\<forall>m \<ge> n. \<not> goal (\<sigma> m)" by blast
    note before = before_goal [OF r less.prems g]
    then have "\<forall>m \<ge> n. enabled step A (\<sigma> m)" using g can_step by blast
    then obtain m l where m: "m \<ge> n" "l \<in> A" "\<tau> m = Some l" using f unfolding weakly_fair_def by blast
    have s: "step l (\<sigma> m) (\<sigma> (Suc m))" by (rule run_step [OF r m(3)])
    have g': "\<not> goal (\<sigma> m)" "\<not> goal (\<sigma> (Suc m))" using g m(1) by auto
    have "work (\<sigma> (Suc m)) < work (\<sigma> m)" using work_less [OF _ g'(1) s g'(2) m(2)] before [OF m(1)] by blast
    then have "work (\<sigma> (Suc m)) < work (\<sigma> n)" using before [OF m(1)] by (meson le_less_trans less_le_trans)
    moreover have "inv (\<sigma> (Suc m))" using inv_step [OF _ g'(1) s g'(2)] before [OF m(1)] by blast
    ultimately obtain k where "k \<ge> Suc m" "goal (\<sigma> k)" using less.hyps [of "Suc m"] by blast
    with m(1) g show False by auto
  qed
qed

end


section \<open>Finite runs\<close>

text \<open>A finite path, its infinite run that pauses at the end, and the fairness of that run when nothing
  is enabled there.\<close>

fun path :: "('l \<Rightarrow> 's \<Rightarrow> 's \<Rightarrow> bool) \<Rightarrow> 's \<Rightarrow> ('l \<times> 's) list \<Rightarrow> bool" where
  "path step s [] = True"
| "path step s ((l, s') # xs) = (step l s s' \<and> path step s' xs)"

definition path_state :: "'s \<Rightarrow> ('l \<times> 's) list \<Rightarrow> nat \<Rightarrow> 's" where
  "path_state s xs n = (s # map snd xs) ! min n (length xs)"

definition path_label :: "('l \<times> 's) list \<Rightarrow> nat \<Rightarrow> 'l option" where
  "path_label xs n = (if n < length xs then Some (fst (xs ! n)) else None)"

lemma path_nth: "path step s xs \<Longrightarrow> n < length xs \<Longrightarrow> step (fst (xs ! n)) ((s # map snd xs) ! n) (snd (xs ! n))"
proof (induction step s xs arbitrary: n rule: path.induct)
  case (2 step s l s' xs)
  then show ?case by (cases n) auto
qed simp

lemma path_run: "path step s xs \<Longrightarrow> run_of step (path_state s xs) (path_label xs)"
  by (auto simp: run_of_def path_state_def path_label_def path_nth min_def)

definition path_end :: "'s \<Rightarrow> ('l \<times> 's) list \<Rightarrow> 's" where
  "path_end s xs = foldl (\<lambda>_. snd) s xs"

lemma foldl_snd: "foldl (\<lambda>_. snd) s xs = (s # map snd xs) ! length xs"
  by (induction xs arbitrary: s) simp_all

lemma path_state_end: "length xs \<le> n \<Longrightarrow> path_state s xs n = path_end s xs"
  by (simp add: path_state_def path_end_def foldl_snd)

lemma path_fair:
  assumes "\<not> enabled step A (path_end s xs)"
  shows "weakly_fair step A (path_state s xs) (path_label xs)"
    and "strongly_fair step A (path_state s xs) (path_label xs)"
proof -
  have "\<not> enabled step A (path_state s xs m)" if "length xs \<le> m" for m
    using assms that by (simp add: path_state_end)
  then show "weakly_fair step A (path_state s xs) (path_label xs)"
    and "strongly_fair step A (path_state s xs) (path_label xs)"
    unfolding weakly_fair_def strongly_fair_def by (meson nat_le_linear)+
qed

end
