(* ===== verification/PushProgress.thy ===== *)
theory PushProgress
  imports Pusher Progress
begin

text \<open>
  Progress of the pusher before its drain: a flush ends, and so does the closing of the queues, also
  when steps of the senders are interleaved. Each phase has a measure, ordered lexicographically: what
  the coordinator has left to do, then what the senders have left to do.
\<close>

section \<open>Phases of the coordinator\<close>

fun flushing :: "pusher_pc \<Rightarrow> bool" where
  "flushing AtFlush = True"
| "flushing (AtEnqueue b i) = True"
| "flushing _ = False"

fun closing :: "pusher_pc \<Rightarrow> bool" where
  "closing (AtClose i) = True"
| "closing AtDrain = True"
| "closing AtCancelled = True"
| "closing AtReturned = True"
| "closing _ = False"

text \<open>The steps of the coordinator that are left in the flush, and in the closing of the queues.\<close>

fun pc_left :: "nat \<Rightarrow> pusher_pc \<Rightarrow> nat" where
  "pc_left n AtFlush = n + 2"
| "pc_left n (AtEnqueue b i) = n - i + 1"
| "pc_left n (AtClose i) = n - i + 1"
| "pc_left n _ = 0"

definition push_left :: "push_state \<Rightarrow> nat \<times> nat" where
  "push_left ps = (pc_left (length (ps_senders ps)) (ps_pc ps), drain_work ps)"

definition pc_in_range :: "push_state \<Rightarrow> bool" where
  "pc_in_range ps \<longleftrightarrow> (case ps_pc ps of AtEnqueue b i \<Rightarrow> i \<le> length (ps_senders ps)
     | AtClose i \<Rightarrow> i \<le> length (ps_senders ps) | _ \<Rightarrow> True)"

lemma pc_trichotomy: "flushing pc \<or> pc = AtSelect \<or> closing pc"
  by (cases pc) simp_all

lemma closing_not [simp]: "closing pc \<Longrightarrow> \<not> flushing pc" "closing pc \<Longrightarrow> pc \<noteq> AtSelect"
  by (cases pc; simp)+

lemma flushing_not [simp]: "flushing pc \<Longrightarrow> pc \<noteq> AtSelect"
  by (cases pc) simp_all

lemma set_sender_sel [simp]: "ps_pc (set_sender ps i r) = ps_pc ps"
    "length (ps_senders (set_sender ps i r)) = length (ps_senders ps)"
    "ps_cancelled (set_sender ps i r) = ps_cancelled ps"
  by (simp_all add: set_sender_def)

lemma push_step_in_range: "push_step fmt p ps ps' \<Longrightarrow> pc_in_range ps \<Longrightarrow> pc_in_range ps'"
  by (induction rule: push_step.induct) (auto simp: pc_in_range_def split: pusher_pc.splits)

section \<open>Steps\<close>

text \<open>A step of a sender leaves the coordinator where it is and shrinks the work of the senders.\<close>

lemma sender_dequeue_less:
  assumes "sender_ok s" "sender_dequeue c s = Some s'" "\<not> sr_returned s" "sr_current s = None"
  shows "sender_work s' < sender_work s"
  using assms(1,2) by (cases rule: sender_dequeue_cases) (use assms(3,4) in \<open>auto simp: sender_work_def\<close>)

lemma sender_deliver_less:
  "sender_deliver bx t0 e start s = Some s' \<Longrightarrow> sr_current s = Some b \<Longrightarrow> sender_work s' < sender_work s"
  by (drule sender_deliver_frame) (simp add: sender_work_def)

text \<open>In a flush every step shrinks the measure until the select is reached; while the queues are
  closed and drained every step shrinks it until \<open>Run\<close> returns.\<close>

lemma push_step_left:
  "push_step fmt p ps ps' \<Longrightarrow> push_ok ps \<Longrightarrow> pc_in_range ps \<Longrightarrow> ps_pc ps \<noteq> AtSelect \<Longrightarrow>
     ps_pc ps' = AtSelect \<or> (push_left ps' < push_left ps
       \<and> (flushing (ps_pc ps) \<longrightarrow> flushing (ps_pc ps')) \<and> (closing (ps_pc ps) \<longrightarrow> closing (ps_pc ps')))"
proof (induction rule: push_step.induct)
  case (dequeue i ps s')
  then have "sender_ok (ps_senders ps ! i)" by (simp add: push_ok_def)
  from drain_work_sender [OF dequeue(1) sender_dequeue_less [OF this dequeue(4,2,3)]] show ?case
    by (simp add: push_left_def)
next
  case (deliver i ps batch bx allow_now enc_err start s')
  from drain_work_sender [OF deliver(1) sender_deliver_less [OF deliver(4,2)]] show ?case
    by (simp add: push_left_def)
next
  case (drained st)
  then show ?case by (auto simp: push_left_def drain_work_def)
next
  case (timeout st)
  then show ?case by (auto simp: push_left_def drain_work_def)
qed (auto simp: push_left_def pc_in_range_def)

lemma push_step_closing: "push_step fmt p ps ps' \<Longrightarrow> closing (ps_pc ps) \<Longrightarrow> closing (ps_pc ps')"
  by (induction rule: push_step.induct) auto

text \<open>Leaving the select.\<close>

lemma push_step_select:
  "push_step fmt p ps ps' \<Longrightarrow> ps_pc ps = AtSelect \<Longrightarrow>
     flushing (ps_pc ps') \<or> ps_pc ps' = AtClose 0 \<or> ps_pc ps' = AtSelect"
  by (induction rule: push_step.induct) auto

text \<open>No phase can get stuck.\<close>

lemma flush_can_step:
  assumes "flushing (ps_pc ps)" "pc_in_range ps"
  shows "\<exists>ps'. push_step fmt p ps ps'"
proof (cases "ps_pc ps")
  case AtFlush
  then show ?thesis
    using push_step.flush_empty [OF AtFlush, of fmt p None 0] push_step.flush_some [OF AtFlush, of fmt p None 0]
    by blast
next
  case (AtEnqueue b i)
  then consider "i < length (ps_senders ps)" | "i = length (ps_senders ps)"
    using assms(2) by (fastforce simp: pc_in_range_def)
  then show ?thesis using AtEnqueue push_step.enqueue push_step.flushed by cases blast+
qed (use assms(1) in simp_all)

lemma closing_can_step:
  assumes "closing (ps_pc ps)" "push_ok ps" "pc_in_range ps" "ps_pc ps \<noteq> AtReturned"
    and "\<forall>r \<in> set (ps_senders ps). no_panic_cfg (sr_cfg r)"
  shows "\<exists>ps'. push_step fmt p ps ps'"
proof (cases "shutting_down ps")
  case True
  then show ?thesis using shutdown_progress [OF assms(2) True assms(4)] assms(5) by simp
next
  case False
  then obtain i where i: "ps_pc ps = AtClose i" "i \<le> length (ps_senders ps)"
    using assms(1,3) by (cases "ps_pc ps") (auto simp: shutting_down_def pc_in_range_def)
  then consider "i < length (ps_senders ps)" | "i = length (ps_senders ps)" by linarith
  then show ?thesis using i push_step.close push_step.closed by cases blast+
qed

end
