(* ===== verification/Lifecycle.thy ===== *)
theory Lifecycle
  imports Exporter PushProgress
begin

text \<open>
  The process from the end of its startup to its exit (\<^verbatim>\<open>cmd/exporter/main.go\<close>, \<^verbatim>\<open>Collector.Start\<close>,
  \<^verbatim>\<open>Proxy.Start\<close>, \<^verbatim>\<open>Poller.Start\<close>): the goroutines that \<open>main\<close> starts, the signal that cancels their
  context, the shutdown of the HTTP servers and the wait group. A state holds the control point of
  every goroutine, the two servers, the wait group and the state of the pusher; one step of \<open>proc_step\<close>
  is one step of the goroutine its label names. \<open>http.Server\<close> is modelled as its documentation
  describes it; which requests arrive and how long they take is not determined.
\<close>

section \<open>HTTP servers\<close>

datatype serve_error = ErrServerClosed | ServeFailed

datatype serve_pc = ToListen | Accepting | ServeReturned serve_error

record http_server =
  hs_addr :: string
  hs_pc :: serve_pc
  hs_shutdown :: bool
  hs_active :: nat

definition new_server :: "string \<Rightarrow> http_server" where
  "new_server addr = \<lparr>hs_addr = addr, hs_pc = ToListen, hs_shutdown = False, hs_active = 0\<rparr>"

text \<open>
  \<open>ListenAndServe\<close>: it refuses to start on a server that has been shut down, may fail to bind its
  address or to accept, and returns \<open>ErrServerClosed\<close> once \<open>Shutdown\<close> has closed the listener.
\<close>

datatype serve_act = Bind bool | AcceptFails | SeeClosed

primrec serve_step :: "serve_act \<Rightarrow> http_server \<Rightarrow> http_server option" where
  "serve_step (Bind ok) s =
     (if hs_pc s \<noteq> ToListen then None
      else if hs_shutdown s then Some (s\<lparr>hs_pc := ServeReturned ErrServerClosed\<rparr>)
      else if ok then Some (s\<lparr>hs_pc := Accepting\<rparr>)
      else Some (s\<lparr>hs_pc := ServeReturned ServeFailed\<rparr>))"
| "serve_step AcceptFails s =
     (if hs_pc s = Accepting \<and> \<not> hs_shutdown s then Some (s\<lparr>hs_pc := ServeReturned ServeFailed\<rparr>) else None)"
| "serve_step SeeClosed s =
     (if hs_pc s = Accepting \<and> hs_shutdown s then Some (s\<lparr>hs_pc := ServeReturned ErrServerClosed\<rparr>) else None)"

text \<open>A request that arrives at an open listener, and one that is answered.\<close>

datatype client_act = Arrives | Answered

primrec client_step :: "client_act \<Rightarrow> http_server \<Rightarrow> http_server option" where
  "client_step Arrives s =
     (if hs_pc s = Accepting \<and> \<not> hs_shutdown s then Some (s\<lparr>hs_active := Suc (hs_active s)\<rparr>) else None)"
| "client_step Answered s = (if 0 < hs_active s then Some (s\<lparr>hs_active := hs_active s - 1\<rparr>) else None)"

text \<open>
  \<open>Shutdown\<close> closes the listener at once, then waits for the active requests until its context times
  out. It does not interrupt them.
\<close>

definition begin_shutdown :: "http_server \<Rightarrow> http_server" where
  "begin_shutdown s = s\<lparr>hs_shutdown := True\<rparr>"

definition shutdown_returns :: "bool \<Rightarrow> http_server \<Rightarrow> bool" where
  "shutdown_returns timed_out s \<longleftrightarrow> hs_active s = 0 \<or> timed_out"

definition serve_returned :: "http_server \<Rightarrow> bool" where
  "serve_returned s \<longleftrightarrow> (\<exists>e. hs_pc s = ServeReturned e)"

section \<open>States of the process\<close>

text \<open>\<open>main\<close>: waiting for the signal, in \<open>Shutdown\<close> of the metrics server, in \<open>wg.Wait\<close>, exited.\<close>

datatype main_pc = AtSignal | AtShutdown | AtWait | Exited

text \<open>The goroutine in \<open>Proxy.Start\<close> that shuts the proxy down.\<close>

datatype down_pc = DownWaiting | DownDraining | DownReturned

text \<open>A polling loop: in its select, in the work of a tick, returned.\<close>

datatype loop_pc = LoopSelect | LoopBusy | LoopReturned

record process =
  pr_main :: main_pc
  pr_cancelled :: bool
  pr_wg :: nat
  pr_metrics :: "http_server option"
  pr_push :: "(pusher \<times> push_state) option"
  pr_push_done :: bool
  pr_proxy :: "(http_server \<times> down_pc) option"
  pr_poller :: loop_pc
  pr_gpu :: "loop_pc option"

definition metrics_address :: "exporter \<Rightarrow> string option" where
  "metrics_address ex =
     (case [a. (MetricsServe a, w) \<leftarrow> ex_services ex] of [] \<Rightarrow> None | a # _ \<Rightarrow> Some a)"

text \<open>
  \<open>Proxy.Start\<close> returns at once when the upstream URL does not parse, and starts no goroutine then. A GPU
  backend polls only when it is enabled and has found a device.
\<close>

definition start_proxy :: "(string \<Rightarrow> bool) \<Rightarrow> proxy_server \<Rightarrow> http_server \<times> down_pc" where
  "start_proxy url_ok p =
     (if url_ok (pr_upstream p) then (new_server (pr_listen_addr p), DownWaiting)
      else ((new_server (pr_listen_addr p))\<lparr>hs_pc := ServeReturned ServeFailed\<rparr>, DownReturned))"

primrec backend_polls :: "gpu_backend \<Rightarrow> bool" where
  "backend_polls (AmdBackend c) \<longleftrightarrow> go_enabled (gp_options c) \<and> gp_devices c \<noteq> []"
| "backend_polls (AppleBackend c) \<longleftrightarrow> go_enabled (ac_options c) \<and> ac_silicon c"
| "backend_polls NoBackend \<longleftrightarrow> False"

text \<open>
  The state after the startup of \<open>main\<close>. The poller waits for its first tick; the GPU loops poll before
  they wait.
\<close>

definition process_start :: "(string \<Rightarrow> bool) \<Rightarrow> exporter \<Rightarrow> process" where
  "process_start url_ok ex =
     \<lparr>pr_main = AtSignal, pr_cancelled = False,
      pr_wg = length (filter snd (ex_services ex)),
      pr_metrics = map_option new_server (metrics_address ex),
      pr_push = map_option (\<lambda>b. (bl_pusher b, run_start [bl_sender b])) (ex_pusher ex),
      pr_push_done = False,
      pr_proxy = map_option (start_proxy url_ok) (co_proxy (ex_collector ex)),
      pr_poller = LoopSelect,
      pr_gpu = map_option (\<lambda>b. if backend_polls b then LoopBusy else LoopReturned) (co_gpu (ex_collector ex))\<rparr>"

section \<open>Steps\<close>

datatype task =
    SignalTask
  | MainTask
  | MetricsTask
  | PushTask
  | PushCancel
  | ClientTask
  | ProxyTask
  | ProxyDownTask
  | PollerTask
  | GpuTask

text \<open>The step in which the select of \<open>Pusher.Run\<close> takes the case of the cancelled context.\<close>

definition sees_cancel :: "push_state \<Rightarrow> push_state \<Rightarrow> bool" where
  "sees_cancel ps ps' \<longleftrightarrow> ps_pc ps = AtSelect \<and> ps_pc ps' = AtClose 0"

text \<open>\<open>wg.Done\<close>, deferred in the goroutine of the metrics server.\<close>

definition metrics_done :: "http_server \<Rightarrow> process \<Rightarrow> process" where
  "metrics_done srv s =
     s\<lparr>pr_metrics := Some srv, pr_wg := (if serve_returned srv then pr_wg s - 1 else pr_wg s)\<rparr>"

text \<open>One step of a polling loop: a tick, the end of its work, the cancelled context.\<close>

inductive loop_step :: "bool \<Rightarrow> loop_pc \<Rightarrow> loop_pc \<Rightarrow> bool" for cancelled :: bool where
  "loop_step cancelled LoopSelect LoopBusy"
| "loop_step cancelled LoopBusy LoopSelect"
| "cancelled \<Longrightarrow> loop_step cancelled LoopSelect LoopReturned"

inductive live_step :: "(float64 \<Rightarrow> string) \<Rightarrow> task \<Rightarrow> process \<Rightarrow> process \<Rightarrow> bool"
  for fmt :: "float64 \<Rightarrow> string" where
  signal: "live_step fmt SignalTask s (s\<lparr>pr_cancelled := True\<rparr>)"
| main_shutdown: "pr_main s = AtSignal \<Longrightarrow> pr_cancelled s \<Longrightarrow> pr_metrics s = Some srv \<Longrightarrow>
    live_step fmt MainTask s (s\<lparr>pr_main := AtShutdown, pr_metrics := Some (begin_shutdown srv)\<rparr>)"
| main_push_only: "pr_main s = AtSignal \<Longrightarrow> pr_cancelled s \<Longrightarrow> pr_metrics s = None \<Longrightarrow>
    live_step fmt MainTask s (s\<lparr>pr_main := AtWait\<rparr>)"
| main_shut: "pr_main s = AtShutdown \<Longrightarrow> pr_metrics s = Some srv \<Longrightarrow> shutdown_returns timed_out srv \<Longrightarrow>
    live_step fmt MainTask s (s\<lparr>pr_main := AtWait\<rparr>)"
| main_exit: "pr_main s = AtWait \<Longrightarrow> pr_wg s = 0 \<Longrightarrow> live_step fmt MainTask s (s\<lparr>pr_main := Exited\<rparr>)"
| metrics_serve: "pr_metrics s = Some srv \<Longrightarrow> serve_step act srv = Some srv' \<Longrightarrow>
    live_step fmt MetricsTask s (metrics_done srv' s)"
| metrics_client: "pr_metrics s = Some srv \<Longrightarrow> client_step act srv = Some srv' \<Longrightarrow>
    live_step fmt ClientTask s (s\<lparr>pr_metrics := Some srv'\<rparr>)"
| push: "pr_push s = Some (p, ps) \<Longrightarrow> push_step fmt p ps ps' \<Longrightarrow> \<not> sees_cancel ps ps' \<Longrightarrow>
    live_step fmt PushTask s (s\<lparr>pr_push := Some (p, ps')\<rparr>)"
| push_cancel: "pr_push s = Some (p, ps) \<Longrightarrow> push_step fmt p ps ps' \<Longrightarrow> sees_cancel ps ps' \<Longrightarrow> pr_cancelled s \<Longrightarrow>
    live_step fmt PushCancel s (s\<lparr>pr_push := Some (p, ps')\<rparr>)"
| push_return: "pr_push s = Some (p, ps) \<Longrightarrow> ps_pc ps = AtReturned \<Longrightarrow> \<not> pr_push_done s \<Longrightarrow>
    live_step fmt PushTask s (s\<lparr>pr_push_done := True, pr_wg := pr_wg s - 1\<rparr>)"
| proxy_serve: "pr_proxy s = Some (srv, d) \<Longrightarrow> serve_step act srv = Some srv' \<Longrightarrow>
    live_step fmt ProxyTask s (s\<lparr>pr_proxy := Some (srv', d)\<rparr>)"
| proxy_client: "pr_proxy s = Some (srv, d) \<Longrightarrow> client_step act srv = Some srv' \<Longrightarrow>
    live_step fmt ClientTask s (s\<lparr>pr_proxy := Some (srv', d)\<rparr>)"
| proxy_shutdown: "pr_proxy s = Some (srv, DownWaiting) \<Longrightarrow> pr_cancelled s \<Longrightarrow>
    live_step fmt ProxyDownTask s (s\<lparr>pr_proxy := Some (begin_shutdown srv, DownDraining)\<rparr>)"
| proxy_shut: "pr_proxy s = Some (srv, DownDraining) \<Longrightarrow> shutdown_returns timed_out srv \<Longrightarrow>
    live_step fmt ProxyDownTask s (s\<lparr>pr_proxy := Some (srv, DownReturned)\<rparr>)"
| poller: "loop_step (pr_cancelled s) (pr_poller s) l \<Longrightarrow>
    live_step fmt PollerTask s (s\<lparr>pr_poller := l\<rparr>)"
| gpu: "pr_gpu s = Some g \<Longrightarrow> loop_step (pr_cancelled s) g l \<Longrightarrow>
    live_step fmt GpuTask s (s\<lparr>pr_gpu := Some l\<rparr>)"

text \<open>A process that has exited takes no more steps: all its goroutines are gone.\<close>

definition proc_step :: "(float64 \<Rightarrow> string) \<Rightarrow> task \<Rightarrow> process \<Rightarrow> process \<Rightarrow> bool" where
  "proc_step fmt t s s' \<longleftrightarrow> pr_main s \<noteq> Exited \<and> live_step fmt t s s'"

inductive reaches :: "(float64 \<Rightarrow> string) \<Rightarrow> process \<Rightarrow> process \<Rightarrow> bool"
  for fmt :: "float64 \<Rightarrow> string" where
  reaches_refl: "reaches fmt s s"
| reaches_step: "reaches fmt s s' \<Longrightarrow> proc_step fmt t s' s'' \<Longrightarrow> reaches fmt s s''"

inductive_cases main_taskE: "live_step fmt MainTask s s'"
inductive_cases metrics_taskE: "live_step fmt MetricsTask s s'"
inductive_cases push_taskE: "live_step fmt PushTask s s'"
inductive_cases push_cancelE: "live_step fmt PushCancel s s'"

section \<open>The invariant\<close>

definition undone :: "process \<Rightarrow> nat" where
  "undone s =
     (case pr_metrics s of Some srv \<Rightarrow> if serve_returned srv then 0 else 1 | None \<Rightarrow> 0)
     + (if pr_push s = None \<or> pr_push_done s then 0 else 1)"

definition proc_ok :: "process \<Rightarrow> bool" where
  "proc_ok s \<longleftrightarrow> pr_wg s = undone s
     \<and> (\<forall>p ps. pr_push s = Some (p, ps) \<longrightarrow>
          push_ok ps \<and> pc_in_range ps \<and> (pr_push_done s \<longrightarrow> ps_pc ps = AtReturned))
     \<and> (pr_push s = None \<longrightarrow> \<not> pr_push_done s)
     \<and> (pr_main s \<noteq> AtSignal \<longrightarrow> pr_cancelled s)
     \<and> (\<forall>srv. pr_metrics s = Some srv \<longrightarrow> hs_shutdown srv = (pr_main s \<noteq> AtSignal))
     \<and> (pr_main s = AtShutdown \<longrightarrow> pr_metrics s \<noteq> None)
     \<and> (pr_main s = Exited \<longrightarrow> pr_wg s = 0)"

lemma serve_step_frame: "serve_step act s = Some s' \<Longrightarrow>
    \<not> serve_returned s \<and> hs_shutdown s' = hs_shutdown s \<and> hs_active s' = hs_active s"
  by (cases act) (auto simp: serve_returned_def split: if_splits)

lemma client_step_frame: "client_step act s = Some s' \<Longrightarrow>
    serve_returned s' = serve_returned s \<and> hs_pc s' = hs_pc s \<and> hs_shutdown s' = hs_shutdown s"
  by (cases act) (auto simp: serve_returned_def split: if_splits)

lemma begin_shutdown_frame [simp]: "serve_returned (begin_shutdown s) = serve_returned s"
    "hs_pc (begin_shutdown s) = hs_pc s" "hs_active (begin_shutdown s) = hs_active s"
    "hs_shutdown (begin_shutdown s)"
  by (simp_all add: begin_shutdown_def serve_returned_def)

lemma returned_push_stuck: "push_step fmt p ps ps' \<Longrightarrow> push_ok ps \<Longrightarrow> ps_pc ps = AtReturned \<Longrightarrow> False"
  by (erule push_step.cases) (auto simp: push_ok_def sender_ok_def list_all_length)

lemma live_step_ok: "live_step fmt t s s' \<Longrightarrow> pr_main s \<noteq> Exited \<Longrightarrow> proc_ok s \<Longrightarrow> proc_ok s'"
proof (induction rule: live_step.induct)
  case (metrics_serve s srv act srv')
  with serve_step_frame [OF metrics_serve(2)] show ?case
    by (auto simp: proc_ok_def undone_def metrics_done_def)
next
  case (metrics_client s srv act srv')
  with client_step_frame [OF metrics_client(2)] show ?case by (auto simp: proc_ok_def undone_def)
next
  case (push s p ps ps')
  with push_step_ok [OF push(2)] push_step_in_range [OF push(2)] returned_push_stuck [OF push(2)] show ?case by (auto simp: proc_ok_def undone_def)
next
  case (push_cancel s p ps ps')
  with push_step_ok [OF push_cancel(2)] push_step_in_range [OF push_cancel(2)] returned_push_stuck [OF push_cancel(2)] show ?case
    by (auto simp: proc_ok_def undone_def)
qed (auto simp: proc_ok_def undone_def)


text \<open>No configured backoff lets the random draw panic.\<close>

definition calm_push :: "process \<Rightarrow> bool" where
  "calm_push s \<longleftrightarrow> (\<forall>p ps. pr_push s = Some (p, ps) \<longrightarrow> list_all no_panic_cfg (map sr_cfg (ps_senders ps)))"

lemma live_step_calm: "live_step fmt t s s' \<Longrightarrow> proc_ok s \<Longrightarrow> calm_push s \<Longrightarrow> calm_push s'"
proof (induction rule: live_step.induct)
  case (push s p ps ps')
  with push_step_cfgs [OF push(2)] show ?case by (auto simp: calm_push_def proc_ok_def)
next
  case (push_cancel s p ps ps')
  with push_step_cfgs [OF push_cancel(2)] show ?case by (auto simp: calm_push_def proc_ok_def)
qed (auto simp: calm_push_def metrics_done_def)

text \<open>The start of a process.\<close>

lemma started_services:
  assumes "main_start uni plat rf pem version loaded = Inr ex"
  obtains c where "loaded = Inr c"
    "metrics_address ex = (if me_enabled (cf_metrics_endpoint c) then Some (me_listen_address (cf_metrics_endpoint c)) else None)"
    "length (filter snd (ex_services ex)) =
       (if me_enabled (cf_metrics_endpoint c) then 1 else 0) + (if ex_pusher ex = None then 0 else 1)"
proof (rule main_start_Inr_cases [OF assms])
  fix c
  assume c: "loaded = Inr c" "ex_services ex = main_services c (ex_collector ex) (ex_pusher ex)"
  have none: "concat (map (\<lambda>s. case s of MetricsServe a \<Rightarrow> [a] | _ \<Rightarrow> []) (collector_services col)) = []" for col
    by (cases "co_gpu col"; cases "co_proxy col") (simp_all add: collector_services_def)
  show thesis
    by (rule that [OF c(1)]) (simp_all add: metrics_address_def c(2) main_services_def none filter_map comp_def)
qed

lemma built_sender_fresh: "build rf pem specs g fi dt = Inr b \<Longrightarrow> fresh_sender (bl_sender b)"
  by (auto elim!: build_Inr_cases simp: fresh_sender_def)

lemma process_start_ok:
  assumes "main_start uni plat rf pem version loaded = Inr ex"
  shows "proc_ok (process_start url_ok ex)"
proof -
  obtain c where c: "loaded = Inr c" "snd (build_pusher rf pem c) = Inr (ex_pusher ex)"
    using assms by (rule main_start_Inr_cases)
  have f: "fresh_sender (bl_sender b)" if "ex_pusher ex = Some b" for b
    using c(2) unfolding that by (rule build_pusher_Some) (rule built_sender_fresh)
  then have "push_ok (run_start [bl_sender b])" if "ex_pusher ex = Some b" for b
    using run_start_ok [of "[bl_sender b]"] that by simp
  then have "\<forall>p ps. pr_push (process_start url_ok ex) = Some (p, ps) \<longrightarrow> push_ok ps \<and> pc_in_range ps"
    by (auto simp: process_start_def pc_in_range_def run_start_def)
  moreover have "pr_wg (process_start url_ok ex) = undone (process_start url_ok ex)"
  proof (rule started_services [OF assms])
    fix c
    assume "metrics_address ex = (if me_enabled (cf_metrics_endpoint c) then Some (me_listen_address (cf_metrics_endpoint c)) else None)"
      "length (filter snd (ex_services ex)) =
         (if me_enabled (cf_metrics_endpoint c) then 1 else 0) + (if ex_pusher ex = None then 0 else 1)"
    then show ?thesis
      by (simp add: process_start_def undone_def new_server_def serve_returned_def)
  qed
  ultimately show ?thesis by (auto simp: proc_ok_def) (auto simp: process_start_def new_server_def)
qed

lemma reaches_ok: "reaches fmt s s' \<Longrightarrow> proc_ok s \<Longrightarrow> proc_ok s'"
  by (induction rule: reaches.induct) (auto simp: proc_step_def live_step_ok)


section \<open>Progress after the signal\<close>

definition stopping :: "process \<Rightarrow> bool" where
  "stopping s \<longleftrightarrow> proc_ok s \<and> calm_push s \<and> pr_cancelled s"

definition main_waits :: "process \<Rightarrow> bool" where
  "main_waits s \<longleftrightarrow> pr_main s = AtWait \<or> pr_main s = Exited"

definition metrics_stopped :: "process \<Rightarrow> bool" where
  "metrics_stopped s \<longleftrightarrow> (\<forall>srv. pr_metrics s = Some srv \<longrightarrow> serve_returned srv)"

definition push_stopped :: "process \<Rightarrow> bool" where
  "push_stopped s \<longleftrightarrow> pr_push s = None \<or> pr_push_done s"

text \<open>Where the pusher is, and what it has left to do in the current phase.\<close>

definition push_pc :: "process \<Rightarrow> pusher_pc" where
  "push_pc s = (case pr_push s of None \<Rightarrow> AtReturned | Some (p, ps) \<Rightarrow> ps_pc ps)"

definition work_left :: "process \<Rightarrow> nat \<times> nat" where
  "work_left s = (case pr_push s of None \<Rightarrow> (0, 0) | Some (p, ps) \<Rightarrow> push_left ps)"

definition main_work :: "process \<Rightarrow> nat" where
  "main_work s = (if pr_main s = AtSignal then 1 else 0)"

lemma live_cancelled: "live_step fmt t s s' \<Longrightarrow> pr_cancelled s \<Longrightarrow> pr_cancelled s'"
  by (induction rule: live_step.induct) (simp_all add: metrics_done_def)

lemma stopping_step: "stopping s \<Longrightarrow> proc_step fmt t s s' \<Longrightarrow> stopping s'"
  unfolding stopping_def proc_step_def using live_step_ok live_step_calm live_cancelled by blast

text \<open>What the tasks leave alone.\<close>

lemma live_main: "live_step fmt t s s' \<Longrightarrow> t \<noteq> MainTask \<Longrightarrow> pr_main s' = pr_main s"
  by (induction rule: live_step.induct) (simp_all add: metrics_done_def)

lemma live_push: "live_step fmt t s s' \<Longrightarrow> t \<noteq> PushTask \<Longrightarrow> t \<noteq> PushCancel \<Longrightarrow>
    pr_push s' = pr_push s \<and> pr_push_done s' = pr_push_done s"
  by (induction rule: live_step.induct) (simp_all add: metrics_done_def)

lemma main_waits_step: "main_waits s \<Longrightarrow> proc_step fmt t s s' \<Longrightarrow> main_waits s'"
  by (cases "t = MainTask")
    (auto simp: proc_step_def main_waits_def live_main elim: main_taskE)

lemma metrics_stopped_step: "metrics_stopped s \<Longrightarrow> proc_step fmt t s s' \<Longrightarrow> metrics_stopped s'"
proof -
  have "live_step fmt t s s' \<Longrightarrow> metrics_stopped s \<Longrightarrow> metrics_stopped s'"
    by (induction rule: live_step.induct)
      (auto simp: metrics_stopped_def metrics_done_def dest: serve_step_frame client_step_frame)
  then show "metrics_stopped s \<Longrightarrow> proc_step fmt t s s' \<Longrightarrow> metrics_stopped s'"
    by (simp add: proc_step_def)
qed

lemma push_stopped_step: "push_stopped s \<Longrightarrow> proc_step fmt t s s' \<Longrightarrow> push_stopped s'"
proof -
  have "live_step fmt t s s' \<Longrightarrow> push_stopped s \<Longrightarrow> push_stopped s'"
    by (induction rule: live_step.induct) (auto simp: push_stopped_def metrics_done_def)
  then show "push_stopped s \<Longrightarrow> proc_step fmt t s s' \<Longrightarrow> push_stopped s'"
    by (simp add: proc_step_def)
qed

text \<open>First, \<open>main\<close> gets to the wait group.\<close>

interpretation stop_main: progress "proc_step fmt" "{MainTask}" stopping main_waits main_work for fmt
proof
  fix s
  assume s: "stopping s" "\<not> main_waits s"
  show "enabled (proc_step fmt) {MainTask} s"
  proof (cases "pr_main s")
    case AtSignal
    with s live_step.main_shutdown [OF AtSignal] live_step.main_push_only [OF AtSignal] show ?thesis
      by (cases "pr_metrics s") (auto simp: enabled_def proc_step_def stopping_def)
  next
    case AtShutdown
    with s obtain srv where "pr_metrics s = Some srv" by (auto simp: stopping_def proc_ok_def)
    with live_step.main_shut [OF AtShutdown this, of True fmt] AtShutdown show ?thesis
      by (auto simp: enabled_def proc_step_def shutdown_returns_def)
  qed (use s in \<open>auto simp: main_waits_def\<close>)
next
  fix s t s'
  assume s: "\<not> main_waits s" "proc_step fmt t s s'" "\<not> main_waits s'"
  show "main_work s' \<le> main_work s"
    using s by (cases "t = MainTask") (auto simp: proc_step_def main_work_def live_main elim: main_taskE)
  show "t \<in> {MainTask} \<Longrightarrow> main_work s' < main_work s"
    using s by (auto simp: proc_step_def main_work_def main_waits_def elim: main_taskE)
qed (rule stopping_step)

text \<open>Then the metrics server, whose listener is closed, returns.\<close>

interpretation stop_metrics: progress "proc_step fmt" "{MetricsTask}" "\<lambda>s. stopping s \<and> main_waits s"
    "\<lambda>s. pr_main s = Exited \<or> metrics_stopped s" "\<lambda>_. 0 :: nat" for fmt
proof
  fix s
  assume s: "stopping s \<and> main_waits s" "\<not> (pr_main s = Exited \<or> metrics_stopped s)"
  then obtain srv where srv: "pr_metrics s = Some srv" "\<not> serve_returned srv" "hs_shutdown srv"
    by (auto simp: metrics_stopped_def stopping_def proc_ok_def main_waits_def)
  then obtain act srv' where "serve_step act srv = Some srv'"
  proof (cases "hs_pc srv")
    case ToListen
    with srv(3) that [of "Bind True"] show ?thesis by simp
  next
    case Accepting
    with srv(3) that [of SeeClosed] show ?thesis by simp
  qed (auto simp: serve_returned_def)
  from live_step.metrics_serve [OF srv(1) this, of fmt] s show "enabled (proc_step fmt) {MetricsTask} s"
    by (auto simp: enabled_def proc_step_def)
next
  fix s t s'
  assume s: "stopping s \<and> main_waits s" "proc_step fmt t s s'" "\<not> (pr_main s' = Exited \<or> metrics_stopped s')"
    and t: "t \<in> {MetricsTask}"
  then have l: "live_step fmt MetricsTask s s'" by (simp add: proc_step_def)
  obtain srv act srv' where "pr_metrics s = Some srv" "serve_step act srv = Some srv'" "s' = metrics_done srv' s"
    using l by (auto elim: metrics_taskE)
  moreover have "hs_shutdown srv" using s(1) calculation(1) by (auto simp: stopping_def proc_ok_def main_waits_def)
  ultimately have "metrics_stopped s'"
    by (cases act) (auto simp: metrics_stopped_def metrics_done_def serve_returned_def split: if_splits)
  with s(3) show "(0 :: nat) < 0" by simp
qed (auto intro: stopping_step main_waits_step)


text \<open>The pusher ends a flush.\<close>

lemma push_task_cases:
  assumes "live_step fmt t s s'" "pr_push s = Some (p, ps)"
  obtains
    (step) ps' where "t = PushTask" "push_step fmt p ps ps'" "\<not> sees_cancel ps ps'" "pr_push s' = Some (p, ps')"
      "pr_push_done s' = pr_push_done s" "pr_main s' = pr_main s"
  | (cancel) ps' where "t = PushCancel" "push_step fmt p ps ps'" "sees_cancel ps ps'" "pr_push s' = Some (p, ps')"
  | (return) "t = PushTask" "ps_pc ps = AtReturned" "pr_push_done s'"
  | (other) "t \<noteq> PushTask" "t \<noteq> PushCancel" "pr_push s' = pr_push s" "pr_push_done s' = pr_push_done s"
proof (cases "t = PushTask \<or> t = PushCancel")
  case True
  then show thesis using assms by (auto elim!: push_taskE push_cancelE intro: step cancel return)
next
  case False
  with live_push [OF assms(1)] other show thesis by blast
qed

lemma push_can_step:
  assumes "pr_main s \<noteq> Exited" "pr_push s = Some (p, ps)" "push_step fmt p ps ps'" "ps_pc ps \<noteq> AtSelect"
  shows "enabled (proc_step fmt) {PushTask} s"
  using assms live_step.push [OF assms(2,3)] by (auto simp: enabled_def proc_step_def sees_cancel_def)

interpretation end_flush: progress "proc_step fmt" "{PushTask}" "\<lambda>s. stopping s \<and> flushing (push_pc s)"
    "\<lambda>s. pr_main s = Exited \<or> \<not> flushing (push_pc s)" work_left for fmt
proof
  fix s
  assume s: "stopping s \<and> flushing (push_pc s)" "\<not> (pr_main s = Exited \<or> \<not> flushing (push_pc s))"
  then obtain p ps where ps: "pr_push s = Some (p, ps)" "flushing (ps_pc ps)"
    by (auto simp: push_pc_def split: option.splits)
  with s have "pc_in_range ps" by (auto simp: stopping_def proc_ok_def)
  with flush_can_step [OF ps(2) this, of fmt p] push_can_step [OF _ ps(1), of fmt] ps(2) s
  show "enabled (proc_step fmt) {PushTask} s" by auto
next
  fix s t s'
  assume s: "stopping s \<and> flushing (push_pc s)" "proc_step fmt t s s'"
    and g: "\<not> (pr_main s' = Exited \<or> \<not> flushing (push_pc s'))"
  obtain p ps where ps: "pr_push s = Some (p, ps)" "flushing (ps_pc ps)"
    using s by (auto simp: push_pc_def split: option.splits)
  have ok: "push_ok ps" "pc_in_range ps" using s ps by (auto simp: stopping_def proc_ok_def)
  have l: "live_step fmt t s s'" using s by (simp add: proc_step_def)
  have c: "(t = PushTask \<longrightarrow> work_left s' < work_left s) \<and> work_left s' \<le> work_left s"
    using l ps(1)
  proof (cases rule: push_task_cases)
    case (step ps')
    with g have "flushing (ps_pc ps')" by (simp add: push_pc_def)
    with push_step_left [OF step(2) ok] ps(2) have "push_left ps' < push_left ps" by auto
    with step ps(1) show ?thesis by (simp add: work_left_def less_imp_le)
  qed (use ps(2) in \<open>auto simp: sees_cancel_def work_left_def\<close>)
  then show "work_left s' \<le> work_left s" by blast
  show "t \<in> {PushTask} \<Longrightarrow> work_left s' < work_left s" using c by simp
qed (auto intro: stopping_step)

text \<open>Once the queues are being closed, \<open>Run\<close> returns.\<close>

interpretation end_drain: progress "proc_step fmt" "{PushTask}" "\<lambda>s. stopping s \<and> closing (push_pc s)"
    "\<lambda>s. pr_main s = Exited \<or> push_stopped s" work_left for fmt
proof
  fix s
  assume s: "stopping s \<and> closing (push_pc s)" "\<not> (pr_main s = Exited \<or> push_stopped s)"
  then obtain p ps where ps: "pr_push s = Some (p, ps)" "closing (ps_pc ps)" "\<not> pr_push_done s"
    by (auto simp: push_pc_def push_stopped_def)
  have ok: "push_ok ps" "pc_in_range ps" "\<forall>r \<in> set (ps_senders ps). no_panic_cfg (sr_cfg r)"
    using s ps(1) by (auto simp: stopping_def proc_ok_def calm_push_def list_all_iff)
  show "enabled (proc_step fmt) {PushTask} s"
  proof (cases "ps_pc ps = AtReturned")
    case True
    with live_step.push_return [OF ps(1) _ ps(3)] s show ?thesis by (auto simp: enabled_def proc_step_def)
  next
    case False
    with closing_can_step [OF ps(2) ok(1,2) _ ok(3), of fmt p] push_can_step [OF _ ps(1), of fmt] ps(2) s
    show ?thesis by auto
  qed
next
  fix s t s'
  assume s: "stopping s \<and> closing (push_pc s)" "\<not> (pr_main s = Exited \<or> push_stopped s)" "proc_step fmt t s s'"
    and g: "\<not> (pr_main s' = Exited \<or> push_stopped s')"
  obtain p ps where ps: "pr_push s = Some (p, ps)" "closing (ps_pc ps)"
    using s by (auto simp: push_pc_def push_stopped_def)
  have ok: "push_ok ps" "pc_in_range ps" using s ps by (auto simp: stopping_def proc_ok_def)
  have l: "live_step fmt t s s'" using s by (simp add: proc_step_def)
  have c: "closing (push_pc s') \<and> (t = PushTask \<longrightarrow> work_left s' < work_left s) \<and> work_left s' \<le> work_left s"
    using l ps(1)
  proof (cases rule: push_task_cases)
    case (step ps')
    with push_step_left [OF step(2) ok] push_step_closing [OF step(2) ps(2)] ps
    show ?thesis by (auto simp: work_left_def push_pc_def less_imp_le)
  qed (use g ps in \<open>auto simp: sees_cancel_def work_left_def push_stopped_def push_pc_def\<close>)
  then show "work_left s' \<le> work_left s" by blast
  show "t \<in> {PushTask} \<Longrightarrow> work_left s' < work_left s" using c by simp
  show "stopping s' \<and> closing (push_pc s')" using c s stopping_step by blast
qed

text \<open>Last, \<open>main\<close> returns from the wait group.\<close>

interpretation stop_process: progress "proc_step fmt" "{MainTask}"
    "\<lambda>s. stopping s \<and> main_waits s \<and> metrics_stopped s \<and> push_stopped s"
    "\<lambda>s. pr_main s = Exited" "\<lambda>_. 0 :: nat" for fmt
proof
  fix s
  assume s: "stopping s \<and> main_waits s \<and> metrics_stopped s \<and> push_stopped s" "pr_main s \<noteq> Exited"
  then have "pr_wg s = 0"
    by (auto simp: stopping_def proc_ok_def undone_def metrics_stopped_def push_stopped_def split: option.split)
  with s live_step.main_exit [of s fmt] show "enabled (proc_step fmt) {MainTask} s"
    by (auto simp: enabled_def proc_step_def main_waits_def)
next
  fix s t s'
  assume "stopping s \<and> main_waits s \<and> metrics_stopped s \<and> push_stopped s"
    "proc_step fmt t s s'" "pr_main s' \<noteq> Exited" "t \<in> {MainTask}"
  then show "(0 :: nat) < 0" by (auto simp: proc_step_def main_waits_def elim: main_taskE)
qed (auto intro: stopping_step main_waits_step metrics_stopped_step push_stopped_step)


section \<open>The select between flushing and stopping\<close>

text \<open>
  A select whose two cases are both ready chooses at random, so it takes the cancelled context
  eventually: this is the strong fairness of \<open>PushCancel\<close>.
\<close>

lemma cancel_enabled:
  assumes "pr_main s \<noteq> Exited" "pr_cancelled s" "push_pc s = AtSelect"
  shows "enabled (proc_step fmt) {PushCancel} s"
proof -
  obtain p ps where ps: "pr_push s = Some (p, ps)" "ps_pc ps = AtSelect"
    using assms(3) by (auto simp: push_pc_def split: option.splits)
  from push_step.ctx_done [OF ps(2), of fmt p] have "push_step fmt p ps (ps\<lparr>ps_pc := AtClose 0\<rparr>)" .
  from live_step.push_cancel [OF ps(1) this _ assms(2)] ps(2) assms(1) show ?thesis
    by (auto simp: enabled_def proc_step_def sees_cancel_def)
qed

lemma exited_closing: "proc_ok s \<Longrightarrow> pr_main s = Exited \<Longrightarrow> closing (push_pc s)"
  by (auto simp: proc_ok_def undone_def push_pc_def split: option.splits if_splits)

lemma push_leaves_the_loop:
  assumes r: "run_of (proc_step fmt) \<sigma> \<tau>" and w: "weakly_fair (proc_step fmt) {PushTask} \<sigma> \<tau>"
    and f: "strongly_fair (proc_step fmt) {PushCancel} \<sigma> \<tau>" and s: "stopping (\<sigma> n)"
  shows "\<exists>m \<ge> n. closing (push_pc (\<sigma> m))"
proof (rule ccontr)
  assume n: "\<not> (\<exists>m \<ge> n. closing (push_pc (\<sigma> m)))"
  have st: "stopping (\<sigma> m)" if "n \<le> m" for m
    by (rule run_keeps [where P = stopping, OF r _ s that]) (rule stopping_step)
  have live: "pr_main (\<sigma> m) \<noteq> Exited" if "n \<le> m" for m
    using st [OF that] n that exited_closing [of "\<sigma> m"] by (auto simp: stopping_def)
  have "\<exists>m \<ge> k. enabled (proc_step fmt) {PushCancel} (\<sigma> m)" for k
  proof -
    let ?k = "max k n"
    obtain m where m: "m \<ge> ?k" "\<not> flushing (push_pc (\<sigma> m))"
      using end_flush.eventually [OF r w, of ?k] st [of ?k] live by (cases "flushing (push_pc (\<sigma> ?k))") fastforce+
    then have "push_pc (\<sigma> m) = AtSelect" using pc_trichotomy [of "push_pc (\<sigma> m)"] n by auto
    with cancel_enabled live [of m] st [of m] m(1) show ?thesis by (auto simp: stopping_def)
  qed
  then obtain m where m: "m \<ge> n" "\<tau> m = Some PushCancel"
    using f unfolding strongly_fair_def by blast
  have "live_step fmt PushCancel (\<sigma> m) (\<sigma> (Suc m))" using run_step [OF r m(2)] by (simp add: proc_step_def)
  then have "closing (push_pc (\<sigma> (Suc m)))" by (auto elim!: push_cancelE simp: push_pc_def sees_cancel_def)
  with n m(1) show False by (meson le_SucI)
qed

lemma eventually_exits:
  assumes r: "run_of (proc_step fmt) \<sigma> \<tau>"
    and w: "\<And>t. t \<in> {MainTask, MetricsTask, PushTask} \<Longrightarrow> weakly_fair (proc_step fmt) {t} \<sigma> \<tau>"
    and f: "strongly_fair (proc_step fmt) {PushCancel} \<sigma> \<tau>" and s: "stopping (\<sigma> n)"
  shows "\<exists>m \<ge> n. pr_main (\<sigma> m) = Exited"
proof (rule ccontr)
  assume n: "\<not> ?thesis"
  note keeps = run_keeps [OF r]
  have st: "stopping (\<sigma> m)" if "n \<le> m" for m
    by (rule keeps [where P = stopping, OF _ s that]) (rule stopping_step)
  obtain m1 where m1: "m1 \<ge> n" "main_waits (\<sigma> m1)" using stop_main.eventually [OF r w s] by auto
  obtain m2 where m2: "m2 \<ge> m1" "metrics_stopped (\<sigma> m2)"
    using stop_metrics.eventually [OF r w, of m1] st [of m1] m1 n by (auto dest: le_trans)
  obtain m3 where m3: "m3 \<ge> n" "closing (push_pc (\<sigma> m3))" using push_leaves_the_loop [OF r w f s] by auto
  obtain m4 where m4: "m4 \<ge> m3" "push_stopped (\<sigma> m4)"
    using end_drain.eventually [OF r w, of m3] st [of m3] m3 n by (auto dest: le_trans)
  let ?k = "max m2 m4"
  have "stopping (\<sigma> ?k) \<and> main_waits (\<sigma> ?k) \<and> metrics_stopped (\<sigma> ?k) \<and> push_stopped (\<sigma> ?k)"
  proof (intro conjI)
    show "stopping (\<sigma> ?k)" using st [of ?k] m1(1) m2(1) by simp
    show "main_waits (\<sigma> ?k)"
      by (rule keeps [where P = main_waits, OF _ m1(2)]) (use m2(1) in \<open>auto intro: main_waits_step\<close>)
    show "metrics_stopped (\<sigma> ?k)"
      by (rule keeps [where P = metrics_stopped, OF _ m2(2)]) (auto intro: metrics_stopped_step)
    show "push_stopped (\<sigma> ?k)"
      by (rule keeps [where P = push_stopped, OF _ m4(2)]) (auto intro: push_stopped_step)
  qed
  from stop_process.eventually [OF r w this] n m1(1) m2(1) show False by (auto dest: le_trans)
qed

section \<open>A run to the exit\<close>

text \<open>
  A run of a process that serves and pushes: the listener opens, the first flush gathers nothing, the
  signal arrives, and everything stops. What the proxy does is left as it is.
\<close>

definition at_exit_path :: "process \<Rightarrow> main_pc \<Rightarrow> nat \<Rightarrow> http_server \<Rightarrow> pusher \<Rightarrow> pusher_pc \<Rightarrow> sender_run \<Rightarrow> bool \<Rightarrow> process" where
  "at_exit_path s m w srv p pc r d =
     s\<lparr>pr_main := m, pr_cancelled := True, pr_wg := w, pr_metrics := Some srv,
       pr_push := Some (p, \<lparr>ps_pc = pc, ps_cancelled = False, ps_senders = [r]\<rparr>), pr_push_done := d\<rparr>"

definition exit_path :: "process \<Rightarrow> http_server \<Rightarrow> pusher \<Rightarrow> sender_run \<Rightarrow> (task \<times> process) list" where
  "exit_path s srv p r =
     (let srv0 = srv\<lparr>hs_pc := Accepting\<rparr>; srv1 = begin_shutdown srv0;
          srv2 = srv1\<lparr>hs_pc := ServeReturned ErrServerClosed\<rparr>; s1 = s\<lparr>pr_metrics := Some srv0\<rparr>;
          r1 = sender_close r; r2 = r1\<lparr>sr_returned := True\<rparr>; pos = at_exit_path s
      in [(MetricsTask, s1),
          (PushTask, s1\<lparr>pr_push := Some (p, (run_start [r])\<lparr>ps_pc := AtSelect\<rparr>)\<rparr>),
          (SignalTask, pos AtSignal 2 srv0 p AtSelect r False),
          (MainTask, pos AtShutdown 2 srv1 p AtSelect r False),
          (MetricsTask, pos AtShutdown 1 srv2 p AtSelect r False),
          (MainTask, pos AtWait 1 srv2 p AtSelect r False),
          (PushCancel, pos AtWait 1 srv2 p (AtClose 0) r False),
          (PushTask, pos AtWait 1 srv2 p (AtClose 1) r1 False),
          (PushTask, pos AtWait 1 srv2 p AtDrain r1 False),
          (PushTask, pos AtWait 1 srv2 p AtDrain r2 False),
          (PushTask, pos AtWait 1 srv2 p AtReturned r2 False),
          (PushTask, pos AtWait 0 srv2 p AtReturned r2 True),
          (MainTask, pos Exited 0 srv2 p AtReturned r2 True)])"

lemma at_exit_sel [simp]:
  "pr_main (at_exit_path s m w srv p pc r d) = m" "pr_cancelled (at_exit_path s m w srv p pc r d)"
  "pr_wg (at_exit_path s m w srv p pc r d) = w" "pr_metrics (at_exit_path s m w srv p pc r d) = Some srv"
  "pr_push (at_exit_path s m w srv p pc r d) = Some (p, \<lparr>ps_pc = pc, ps_cancelled = False, ps_senders = [r]\<rparr>)"
  "pr_push_done (at_exit_path s m w srv p pc r d) = d" "pr_proxy (at_exit_path s m w srv p pc r d) = pr_proxy s"
  by (simp_all add: at_exit_path_def)

lemma at_exit_upd [simp]:
  "(at_exit_path s m w srv p pc r d)\<lparr>pr_main := m'\<rparr> = at_exit_path s m' w srv p pc r d"
  "(at_exit_path s m w srv p pc r d)\<lparr>pr_wg := w'\<rparr> = at_exit_path s m w' srv p pc r d"
  "(at_exit_path s m w srv p pc r d)\<lparr>pr_metrics := Some srv'\<rparr> = at_exit_path s m w srv' p pc r d"
  "(at_exit_path s m w srv p pc r d)\<lparr>pr_push_done := d'\<rparr> = at_exit_path s m w srv p pc r d'"
  "(at_exit_path s m w srv p pc r d)\<lparr>pr_push := Some (p, \<lparr>ps_pc = pc', ps_cancelled = False, ps_senders = [r']\<rparr>)\<rparr>
     = at_exit_path s m w srv p pc' r' d"
  by (rule process.equality; simp add: at_exit_path_def)+

lemma pushed:
  "push_step fmt p \<lparr>ps_pc = pc, ps_cancelled = False, ps_senders = [r]\<rparr> \<lparr>ps_pc = pc', ps_cancelled = False, ps_senders = [r']\<rparr> \<Longrightarrow>
   m \<noteq> Exited \<Longrightarrow>
   proc_step fmt (if pc = AtSelect \<and> pc' = AtClose 0 then PushCancel else PushTask)
     (at_exit_path s m w srv p pc r d) (at_exit_path s m w srv p pc' r' d)"
  using live_step.push [of "at_exit_path s m w srv p pc r d" p _ fmt "\<lparr>ps_pc = pc', ps_cancelled = False, ps_senders = [r']\<rparr>"]
    live_step.push_cancel [of "at_exit_path s m w srv p pc r d" p _ fmt "\<lparr>ps_pc = pc', ps_cancelled = False, ps_senders = [r']\<rparr>"]
  by (auto simp: proc_step_def sees_cancel_def)

lemma fresh_close: "fresh_sender r \<Longrightarrow>
    sender_dequeue False (sender_close r) = Some ((sender_close r)\<lparr>sr_returned := True\<rparr>)
    \<and> sr_current (sender_close r) = None \<and> \<not> sr_returned (sender_close r)"
  by (auto simp: fresh_sender_def new_sender_run_def new_queue_def sender_close_def q_close_def sender_dequeue_def
      q_dequeue_def Let_def)

lemma exit_path_ok:
  assumes s: "pr_main s = AtSignal" "pr_wg s = 2" "pr_metrics s = Some srv"
    "pr_push s = Some (p, run_start [r])" "\<not> pr_push_done s"
    and srv: "hs_pc srv = ToListen" "\<not> hs_shutdown srv" "hs_active srv = 0" and r: "fresh_sender r"
  shows "path (proc_step fmt) s (exit_path s srv p r)"
proof -
  let ?srv0 = "srv\<lparr>hs_pc := Accepting\<rparr>"
  let ?srv2 = "(begin_shutdown ?srv0)\<lparr>hs_pc := ServeReturned ErrServerClosed\<rparr>"
  let ?s1 = "s\<lparr>pr_metrics := Some ?srv0\<rparr>" and ?at = "at_exit_path s"
  let ?ps = "\<lambda>pc r. \<lparr>ps_pc = pc, ps_cancelled = False, ps_senders = [r]\<rparr>"
  let ?r1 = "sender_close r"
  have "metrics_done ?srv0 s = ?s1"
    by (intro process.equality) (simp_all add: metrics_done_def serve_returned_def)
  then have 1: "proc_step fmt MetricsTask s ?s1"
    using live_step.metrics_serve [OF s(3), of "Bind True" ?srv0 fmt] s srv
    by (simp add: proc_step_def)
  have "push_step fmt p (run_start [r]) ((run_start [r])\<lparr>ps_pc := AtSelect\<rparr>)"
    by (rule push_step.flush_empty [where families = None and now = 0]) (simp_all add: run_start_def flush_batch_def gather_def)
  then have 2: "proc_step fmt PushTask ?s1 (?s1\<lparr>pr_push := Some (p, (run_start [r])\<lparr>ps_pc := AtSelect\<rparr>)\<rparr>)"
    using live_step.push [of ?s1 p "run_start [r]" fmt] s by (simp add: proc_step_def sees_cancel_def run_start_def)
  have e: "?s1\<lparr>pr_push := Some (p, (run_start [r])\<lparr>ps_pc := AtSelect\<rparr>), pr_cancelled := True\<rparr>
      = ?at AtSignal 2 ?srv0 p AtSelect r False"
    using s by (intro process.equality) (simp_all add: at_exit_path_def run_start_def)
  have 3: "proc_step fmt SignalTask (?s1\<lparr>pr_push := Some (p, (run_start [r])\<lparr>ps_pc := AtSelect\<rparr>)\<rparr>)
      (?at AtSignal 2 ?srv0 p AtSelect r False)"
    using live_step.signal [of fmt "?s1\<lparr>pr_push := Some (p, (run_start [r])\<lparr>ps_pc := AtSelect\<rparr>)\<rparr>"] s
    by (simp add: proc_step_def e)
  have 4: "proc_step fmt MainTask (?at AtSignal 2 ?srv0 p AtSelect r False) (?at AtShutdown 2 (begin_shutdown ?srv0) p AtSelect r False)"
    using live_step.main_shutdown [of "?at AtSignal 2 ?srv0 p AtSelect r False" ?srv0 fmt]
    by (simp add: proc_step_def)
  have 5: "proc_step fmt MetricsTask (?at AtShutdown 2 (begin_shutdown ?srv0) p AtSelect r False) (?at AtShutdown 1 ?srv2 p AtSelect r False)"
    using live_step.metrics_serve [of "?at AtShutdown 2 (begin_shutdown ?srv0) p AtSelect r False" "begin_shutdown ?srv0" SeeClosed ?srv2 fmt]
    by (simp add: proc_step_def metrics_done_def serve_returned_def)
  have 6: "proc_step fmt MainTask (?at AtShutdown 1 ?srv2 p AtSelect r False) (?at AtWait 1 ?srv2 p AtSelect r False)"
    using live_step.main_shut [of "?at AtShutdown 1 ?srv2 p AtSelect r False" ?srv2 False fmt] srv
    by (simp add: proc_step_def shutdown_returns_def)
  have push: "push_step fmt p (?ps AtSelect r) (?ps (AtClose 0) r)"
    "push_step fmt p (?ps (AtClose 0) r) (?ps (AtClose 1) ?r1)"
    "push_step fmt p (?ps (AtClose 1) ?r1) (?ps AtDrain ?r1)"
    "push_step fmt p (?ps AtDrain ?r1) (?ps AtDrain (?r1\<lparr>sr_returned := True\<rparr>))"
    "push_step fmt p (?ps AtDrain (?r1\<lparr>sr_returned := True\<rparr>)) (?ps AtReturned (?r1\<lparr>sr_returned := True\<rparr>))"
    using push_step.ctx_done [of "?ps AtSelect r" fmt p] push_step.close [of "?ps (AtClose 0) r" 0 fmt p]
      push_step.closed [of "?ps (AtClose 1) ?r1" fmt p]
      push_step.dequeue [of 0 "?ps AtDrain ?r1" "?r1\<lparr>sr_returned := True\<rparr>" fmt p] fresh_close [OF r]
      push_step.drained [of "?ps AtDrain (?r1\<lparr>sr_returned := True\<rparr>)" fmt p]
    by (simp_all add: set_sender_def)
  note steps = push [THEN pushed [where s = s and m = AtWait and w = 1 and srv = ?srv2 and d = False], simplified]
  have 12: "proc_step fmt PushTask (?at AtWait 1 ?srv2 p AtReturned (?r1\<lparr>sr_returned := True\<rparr>) False)
      (?at AtWait 0 ?srv2 p AtReturned (?r1\<lparr>sr_returned := True\<rparr>) True)"
    using live_step.push_return [of "?at AtWait 1 ?srv2 p AtReturned (?r1\<lparr>sr_returned := True\<rparr>) False" p _ fmt]
    by (simp add: proc_step_def)
  have 13: "proc_step fmt MainTask (?at AtWait 0 ?srv2 p AtReturned (?r1\<lparr>sr_returned := True\<rparr>) True)
      (?at Exited 0 ?srv2 p AtReturned (?r1\<lparr>sr_returned := True\<rparr>) True)"
    using live_step.main_exit [of "?at AtWait 0 ?srv2 p AtReturned (?r1\<lparr>sr_returned := True\<rparr>) True" fmt]
    by (simp add: proc_step_def)
  show ?thesis
    using 1 2 3 4 5 6 steps 12 13 by (simp add: exit_path_def Let_def)
qed

lemma exit_path_end:
  "length (exit_path s srv p r) = 13"
  "path_end s (exit_path s srv p r) = at_exit_path s Exited 0
     ((begin_shutdown (srv\<lparr>hs_pc := Accepting\<rparr>))\<lparr>hs_pc := ServeReturned ErrServerClosed\<rparr>) p AtReturned
     ((sender_close r)\<lparr>sr_returned := True\<rparr>) True"
  "fst (exit_path s srv p r ! 2) = SignalTask"
  by (simp_all add: exit_path_def path_end_def Let_def)

lemma path_reaches: "path (proc_step fmt) s xs \<Longrightarrow> reaches fmt s0 s \<Longrightarrow> reaches fmt s0 (path_end s xs)"
proof (induction xs arbitrary: s)
  case (Cons x xs)
  then show ?case using reaches_step [of fmt s0 s "fst x" "snd x"] by (cases x) (simp add: path_end_def)
qed (simp add: path_end_def)

text \<open>A process with all its parts: metrics server, pusher and proxy.\<close>

definition demo_live :: config where
  "demo_live = default_config\<lparr>cf_remote_write := [demo_rw], cf_proxy := (cf_proxy default_config)\<lparr>px_enabled := True\<rparr>\<rparr>"

lemma demo_start:
  obtains ex b where "main_start id OtherPlatform (\<lambda>_. None) (\<lambda>_. True) [] (Inr demo_live) = Inr ex"
    "ex_pusher ex = Some b" "no_panic_cfg (sr_cfg (bl_sender b))"
    "pr_main (process_start (\<lambda>_. True) ex) = AtSignal" "pr_wg (process_start (\<lambda>_. True) ex) = 2"
    "pr_metrics (process_start (\<lambda>_. True) ex) = Some (new_server [])"
    "pr_push (process_start (\<lambda>_. True) ex) = Some (bl_pusher b, run_start [bl_sender b])"
    "\<not> pr_push_done (process_start (\<lambda>_. True) ex)" "fresh_sender (bl_sender b)"
    "\<exists>a. pr_proxy (process_start (\<lambda>_. True) ex) = Some (new_server a, DownWaiting)"
proof -
  have d: "rc_bearer_token_file demo_rw = []" "rc_basic_auth demo_rw = Some \<lparr>ba_username = ''u'', ba_password_file = []\<rparr>"
    "tl_ca_file (rc_tls demo_rw) = []" "re_max_backoff (rc_retry demo_rw) = 0"
    by (simp_all add: demo_rw_def empty_rw_def)
  have c: "cf_remote_write demo_live = [demo_rw]" "me_enabled (cf_metrics_endpoint demo_live)"
    "me_listen_address (cf_metrics_endpoint demo_live) = []" "px_enabled (cf_proxy demo_live)"
    by (simp_all add: demo_live_def default_config_def)
  obtain b where b: "build (\<lambda>_. None) (\<lambda>_. True) [to_build_spec demo_rw] True (rc_flush_interval demo_rw) (5 * second) = Inr b"
    by (simp add: build_def load_creds_def new_http_client_def to_build_spec_def d Let_def case_prod_beta)
  then have p: "snd (build_pusher (\<lambda>_. None) (\<lambda>_. True) demo_live) = Inr (Some b)"
    by (simp add: build_pusher_def c)
  then obtain ex where ex: "main_start id OtherPlatform (\<lambda>_. None) (\<lambda>_. True) [] (Inr demo_live) = Inr ex"
    and "ex_pusher ex = Some b"
    by (simp add: main_start_def Let_def case_prod_beta)
  have "co_proxy (ex_collector ex) \<noteq> None"
    by (rule main_start_Inr_cases [OF ex]) (simp add: new_collector_def Let_def c case_prod_beta)
  moreover have "metrics_address ex = Some []" "length (filter snd (ex_services ex)) = 2"
    by (rule started_services [OF ex], simp add: c \<open>ex_pusher ex = Some b\<close>)+
  moreover have "no_panic_cfg (sr_cfg (bl_sender b))"
    using b by (auto elim!: build_Inr_cases simp: new_sender_run_sel endpoint_cfg_def to_build_spec_def d
        no_panic_cfg_def backoff_max_def second_def max_i64_def)
  ultimately show thesis
    using that [OF ex \<open>ex_pusher ex = Some b\<close> _ _ _ _ _ _ built_sender_fresh [OF b]] \<open>ex_pusher ex = Some b\<close>
    by (auto simp: process_start_def start_proxy_def)
qed

lemma new_server_sel: "hs_pc (new_server a) = ToListen" "\<not> hs_shutdown (new_server a)" "hs_active (new_server a) = 0"
  by (simp_all add: new_server_def)

section \<open>Properties\<close>

text \<open>C8. When the process exits, nothing that was gathered is lost silently: it exits only after a signal,
  the metrics server has returned, and every sample that was offered for pushing has been sent,
  failed or been dropped with its reason counted; nothing is queued or in flight.\<close>

theorem nothing_pending_at_exit:
  assumes "main_start uni plat rf pem version loaded = Inr ex"
    and "reaches fmt (process_start url_ok ex) s" "pr_main s = Exited"
  shows "pr_cancelled s
    \<and> (\<forall>srv. pr_metrics s = Some srv \<longrightarrow> serve_returned srv \<and> hs_shutdown srv)
    \<and> (\<forall>p ps r. pr_push s = Some (p, ps) \<longrightarrow> r \<in> set (ps_senders ps) \<longrightarrow>
         sr_returned r \<and> q_contents (sr_queue r) = [] \<and> sr_current r = None
         \<and> samples_in (sr_offered r) = sent_samples (sr_slog r) + failed_samples (sr_slog r)
             + dropped_samples (sr_slog r) + queue_dropped (sr_qlog r))"
proof -
  have ok: "proc_ok s" by (rule reaches_ok [OF assms(2) process_start_ok [OF assms(1)]])
  then have m: "serve_returned srv" if "pr_metrics s = Some srv" for srv
    using assms(3) that by (auto simp: proc_ok_def undone_def split: if_splits)
  have "sr_returned r \<and> sender_ok r" if p: "pr_push s = Some (p, ps)" and r: "r \<in> set (ps_senders ps)" for p ps r
  proof -
    have "push_ok ps" "ps_pc ps = AtReturned"
      using ok p assms(3) by (auto simp: proc_ok_def undone_def split: if_splits)
    with r show ?thesis by (auto simp: push_ok_def list_all_iff in_set_conv_nth)
  qed
  then show ?thesis using ok m assms(3)
    by (fastforce simp: proc_ok_def sender_ok_def settled_split in_flight_def)
qed

theorem nothing_pending_at_exit_witness:
  "\<exists>ex s (r :: sender_run). reaches (\<lambda>_. []) (process_start (\<lambda>_. True) ex) s \<and> pr_cancelled s \<and> sr_returned r \<and> q_contents (sr_queue r) = []"
proof -
  obtain ex b where ex: "main_start id OtherPlatform (\<lambda>_. None) (\<lambda>_. True) [] (Inr demo_live) = Inr ex"
      "ex_pusher ex = Some b" "no_panic_cfg (sr_cfg (bl_sender b))"
    and facts: "pr_main (process_start (\<lambda>_. True) ex) = AtSignal" "pr_wg (process_start (\<lambda>_. True) ex) = 2"
      "pr_metrics (process_start (\<lambda>_. True) ex) = Some (new_server [])"
      "pr_push (process_start (\<lambda>_. True) ex) = Some (bl_pusher b, run_start [bl_sender b])"
      "\<not> pr_push_done (process_start (\<lambda>_. True) ex)" and f: "fresh_sender (bl_sender b)"
    and px: "\<exists>a. pr_proxy (process_start (\<lambda>_. True) ex) = Some (new_server a, DownWaiting)"
    by (rule demo_start)
  let ?xs = "exit_path (process_start (\<lambda>_. True) ex) (new_server []) (bl_pusher b) (bl_sender b)"
  have r: "reaches (\<lambda>_. []) (process_start (\<lambda>_. True) ex) (path_end (process_start (\<lambda>_. True) ex) ?xs)"
    by (rule path_reaches [OF exit_path_ok [OF facts new_server_sel f] reaches_refl])
  let ?s = "path_end (process_start (\<lambda>_. True) ex) ?xs" and ?r = "(sender_close (bl_sender b))\<lparr>sr_returned := True\<rparr>"
  have "pr_main ?s = Exited"
    "pr_push ?s = Some (bl_pusher b, \<lparr>ps_pc = AtReturned, ps_cancelled = False, ps_senders = [?r]\<rparr>)"
    by (simp_all add: exit_path_end)
  with nothing_pending_at_exit [OF ex(1) r this(1)] have "pr_cancelled ?s \<and> sr_returned ?r \<and> q_contents (sr_queue ?r) = []"
    by (auto simp del: at_exit_sel)
  with r show ?thesis by blast
qed

text \<open>C7. After a signal the process exits: on every run from a successful startup on which the goroutines
  are scheduled fairly and the select of the pusher does not ignore the cancelled context forever,
  whatever the clients do and however the servers and the receiver behave, provided that the
  backoff cannot panic.\<close>

theorem signalled_process_exits:
  assumes "main_start uni plat rf pem version loaded = Inr ex"
    and "\<And>b. ex_pusher ex = Some b \<Longrightarrow> no_panic_cfg (sr_cfg (bl_sender b))"
    and "run_of (proc_step fmt) \<sigma> \<tau>" "\<sigma> 0 = process_start url_ok ex"
    and "\<And>t. t \<in> {MainTask, MetricsTask, PushTask} \<Longrightarrow> weakly_fair (proc_step fmt) {t} \<sigma> \<tau>"
    and "strongly_fair (proc_step fmt) {PushCancel} \<sigma> \<tau>"
    and "\<tau> n = Some SignalTask"
  shows "\<exists>m > n. pr_main (\<sigma> m) = Exited"
proof -
  have "proc_ok (\<sigma> 0) \<and> calm_push (\<sigma> 0)"
    using process_start_ok [OF assms(1)] assms(2,4)
    by (auto simp: calm_push_def process_start_def run_start_def)
  then have ok: "proc_ok (\<sigma> n) \<and> calm_push (\<sigma> n)"
    by (rule run_keeps [OF assms(3), where P = "\<lambda>s. proc_ok s \<and> calm_push s", rotated])
      (auto simp: proc_step_def live_step_ok live_step_calm)
  have l: "live_step fmt SignalTask (\<sigma> n) (\<sigma> (Suc n))" "pr_main (\<sigma> n) \<noteq> Exited"
    using run_step [OF assms(3,7)] by (simp_all add: proc_step_def)
  from l(1) have "pr_cancelled (\<sigma> (Suc n))" by (cases rule: live_step.cases) simp
  with l ok have "stopping (\<sigma> (Suc n))" by (simp add: stopping_def live_step_ok live_step_calm)
  from eventually_exits [OF assms(3,5,6) this] show ?thesis by (meson Suc_le_lessD)
qed


theorem signalled_process_exits_witness:
  "\<exists>ex \<sigma> \<tau>. run_of (proc_step (\<lambda>_. [])) \<sigma> \<tau> \<and> \<sigma> 0 = process_start (\<lambda>_. True) ex \<and> \<tau> 2 = Some SignalTask
     \<and> (\<exists>m > 2. pr_main (\<sigma> m) = Exited)"
proof -
  obtain ex b where ex: "main_start id OtherPlatform (\<lambda>_. None) (\<lambda>_. True) [] (Inr demo_live) = Inr ex"
      "ex_pusher ex = Some b" "no_panic_cfg (sr_cfg (bl_sender b))"
    and facts: "pr_main (process_start (\<lambda>_. True) ex) = AtSignal" "pr_wg (process_start (\<lambda>_. True) ex) = 2"
      "pr_metrics (process_start (\<lambda>_. True) ex) = Some (new_server [])"
      "pr_push (process_start (\<lambda>_. True) ex) = Some (bl_pusher b, run_start [bl_sender b])"
      "\<not> pr_push_done (process_start (\<lambda>_. True) ex)" and f: "fresh_sender (bl_sender b)"
    and px: "\<exists>a. pr_proxy (process_start (\<lambda>_. True) ex) = Some (new_server a, DownWaiting)"
    by (rule demo_start)
  let ?xs = "exit_path (process_start (\<lambda>_. True) ex) (new_server []) (bl_pusher b) (bl_sender b)"
  have p: "path (proc_step (\<lambda>_. [])) (process_start (\<lambda>_. True) ex) ?xs"
    by (rule exit_path_ok [OF facts new_server_sel f])
  have "\<not> enabled (proc_step (\<lambda>_. [])) A (path_end (process_start (\<lambda>_. True) ex) ?xs)" for A
    by (simp add: exit_path_end enabled_def proc_step_def)
  note fair = path_fair [OF this]
  have "path_state (process_start (\<lambda>_. True) ex) ?xs 0 = process_start (\<lambda>_. True) ex" "path_label ?xs 2 = Some SignalTask"
    by (simp_all add: path_state_def path_label_def exit_path_end)
  with signalled_process_exits [OF ex(1) _ path_run [OF p] this(1) fair(1) fair(2) this(2)] ex(2,3) path_run [OF p]
  show ?thesis by auto
qed

text \<open>The shutdown of the proxy is not waited for: the process can exit while a proxied request is still
  being answered, although \<open>Proxy.Start\<close> grants it five seconds, because the goroutines of the collector
  are not in the wait group.\<close>

lemma exit_can_cut_proxied_requests:
  obtains ex s srv d where "main_start id OtherPlatform (\<lambda>_. None) (\<lambda>_. True) [] (Inr demo_live) = Inr ex"
    "reaches fmt (process_start (\<lambda>_. True) ex) s" "pr_main s = Exited"
    "pr_proxy s = Some (srv, d)" "0 < hs_active srv" "d = DownWaiting"
proof -
  obtain ex b where ex: "main_start id OtherPlatform (\<lambda>_. None) (\<lambda>_. True) [] (Inr demo_live) = Inr ex"
      "ex_pusher ex = Some b" "no_panic_cfg (sr_cfg (bl_sender b))"
    and facts: "pr_main (process_start (\<lambda>_. True) ex) = AtSignal" "pr_wg (process_start (\<lambda>_. True) ex) = 2"
      "pr_metrics (process_start (\<lambda>_. True) ex) = Some (new_server [])"
      "pr_push (process_start (\<lambda>_. True) ex) = Some (bl_pusher b, run_start [bl_sender b])"
      "\<not> pr_push_done (process_start (\<lambda>_. True) ex)" and f: "fresh_sender (bl_sender b)"
    and px: "\<exists>a. pr_proxy (process_start (\<lambda>_. True) ex) = Some (new_server a, DownWaiting)"
    by (rule demo_start)
  obtain a where px: "pr_proxy (process_start (\<lambda>_. True) ex) = Some (new_server a, DownWaiting)" using px by blast
  let ?srv = "(new_server a)\<lparr>hs_pc := Accepting\<rparr>"
  let ?s1 = "(process_start (\<lambda>_. True) ex)\<lparr>pr_proxy := Some (?srv, DownWaiting)\<rparr>"
  let ?s2 = "?s1\<lparr>pr_proxy := Some (?srv\<lparr>hs_active := 1\<rparr>, DownWaiting)\<rparr>"
  have "proc_step fmt ProxyTask (process_start (\<lambda>_. True) ex) ?s1"
    using live_step.proxy_serve [OF px, of "Bind True" ?srv fmt] facts by (simp add: proc_step_def new_server_sel)
  moreover have "proc_step fmt ClientTask ?s1 ?s2"
    using live_step.proxy_client [of ?s1 ?srv DownWaiting Arrives "?srv\<lparr>hs_active := 1\<rparr>" fmt] facts
    by (simp add: proc_step_def new_server_sel)
  ultimately have r: "reaches fmt (process_start (\<lambda>_. True) ex) ?s2" by (meson reaches_refl reaches_step)
  let ?xs = "exit_path ?s2 (new_server []) (bl_pusher b) (bl_sender b)"
  have "path (proc_step fmt) ?s2 ?xs" by (rule exit_path_ok [OF _ _ _ _ _ new_server_sel f]) (simp_all add: facts)
  from that [OF ex(1) path_reaches [OF this r]] show thesis by (simp add: exit_path_end)
qed

end
