(* ===== verification/Receiver.thy ===== *)
theory Receiver
  imports Sender Convert
begin

text \<open>
  \<^verbatim>\<open>internal/remotewrite/testutil/receiver.go\<close>: the remote write receiver against which the exporter is
  tested. Its state is the struct; every method runs under the mutex and is one function. Reading the
  request body, \<open>snappy.Decode\<close> and \<open>WriteRequest.Unmarshal\<close> are arguments of \<open>handle\<close>. Last, the
  sender of \<open>Sender\<close> and this receiver together: what a batch leaves at the receiver.
\<close>

section \<open>The receiver\<close>

datatype response_mode = ModeSuccess | ModeFailNTimes | ModeSlowLoris | ModeRetryAfter

record receiver =
  rv_series :: "series list"
  rv_requests :: int
  rv_mode :: response_mode
  rv_fail_n :: int
  rv_fail_status :: int
  rv_slow_duration :: duration
  rv_retry_after :: int

definition new_receiver :: receiver where
  "new_receiver = \<lparr>rv_series = [], rv_requests = 0, rv_mode = ModeSuccess, rv_fail_n = 0,
     rv_fail_status = 503, rv_slow_duration = 0, rv_retry_after = 0\<rparr>"

definition rv_received :: "receiver \<Rightarrow> series list" where
  "rv_received r = rv_series r"

definition request_count :: "receiver \<Rightarrow> int" where
  "request_count r = rv_requests r"

definition rv_reset :: "receiver \<Rightarrow> receiver" where
  "rv_reset r = r\<lparr>rv_series := [], rv_requests := 0\<rparr>"

definition set_mode :: "response_mode \<Rightarrow> receiver \<Rightarrow> receiver" where
  "set_mode m r = r\<lparr>rv_mode := m\<rparr>"

definition fail_n_times :: "int \<Rightarrow> int \<Rightarrow> receiver \<Rightarrow> receiver" where
  "fail_n_times n status r =
     r\<lparr>rv_mode := ModeFailNTimes, rv_fail_n := n, rv_fail_status := (if status = 0 then 503 else status)\<rparr>"

definition slow_loris :: "duration \<Rightarrow> receiver \<Rightarrow> receiver" where
  "slow_loris d r = r\<lparr>rv_mode := ModeSlowLoris, rv_slow_duration := d\<rparr>"

definition retry_after_mode :: "int \<Rightarrow> receiver \<Rightarrow> receiver" where
  "retry_after_mode seconds r = r\<lparr>rv_mode := ModeRetryAfter, rv_retry_after := seconds\<rparr>"

text \<open>
  The reply: a status with the \<open>Retry-After\<close> header, if it is set; \<open>Abandoned\<close> when the client has
  gone before the slow reply is written.
\<close>

datatype reply = Reply int "string option" | Abandoned

text \<open>The critical section: what is stored, and the changes of the mode.\<close>

definition store_request :: "series list \<Rightarrow> receiver \<Rightarrow> receiver" where
  "store_request ts r =
     (let r1 = r\<lparr>rv_requests := rv_requests r + 1, rv_series := rv_series r @ ts\<rparr>;
          r2 = (if rv_mode r = ModeFailNTimes \<and> rv_fail_n r > 0 then r1\<lparr>rv_fail_n := rv_fail_n r - 1\<rparr> else r1)
      in if rv_mode r = ModeRetryAfter then r2\<lparr>rv_mode := ModeSuccess\<rparr> else r2)"

text \<open>The reply, from the values read in the critical section before the changes.\<close>

definition reply_of :: "receiver \<Rightarrow> bool \<Rightarrow> reply" where
  "reply_of r client_gone =
     (case rv_mode r of
        ModeSuccess \<Rightarrow> Reply 200 None
      | ModeFailNTimes \<Rightarrow> if rv_fail_n r > 0 then Reply (rv_fail_status r) None else Reply 200 None
      | ModeSlowLoris \<Rightarrow> if client_gone then Abandoned else Reply 200 None
      | ModeRetryAfter \<Rightarrow> Reply 429 (Some (print_int (rv_retry_after r))))"

definition handle ::
    "(string \<Rightarrow> string option) \<Rightarrow> (string \<Rightarrow> series list option) \<Rightarrow> string option \<Rightarrow> bool \<Rightarrow> receiver
       \<Rightarrow> receiver \<times> reply" where
  "handle snappy_decode unmarshal body client_gone r =
     (case body of
        None \<Rightarrow> (r, Reply 400 None)
      | Some b \<Rightarrow>
          (case snappy_decode b of
             None \<Rightarrow> (r, Reply 400 None)
           | Some raw \<Rightarrow>
               (case unmarshal raw of
                  None \<Rightarrow> (r, Reply 400 None)
                | Some ts \<Rightarrow> (store_request ts r, reply_of r client_gone))))"

section \<open>A sequence of requests\<close>

text \<open>The same decodable request \<open>k\<close> times: the receiver before the next one.\<close>

primrec after_requests :: "series list \<Rightarrow> receiver \<Rightarrow> nat \<Rightarrow> receiver" where
  "after_requests ts r 0 = r"
| "after_requests ts r (Suc k) = store_request ts (after_requests ts r k)"

lemma store_request_sel [simp]:
  "rv_series (store_request ts r) = rv_series r @ ts" "rv_requests (store_request ts r) = rv_requests r + 1"
  "rv_fail_status (store_request ts r) = rv_fail_status r"
  "rv_mode (store_request ts r) = (if rv_mode r = ModeRetryAfter then ModeSuccess else rv_mode r)"
  "rv_fail_n (store_request ts r) =
     (if rv_mode r = ModeFailNTimes \<and> rv_fail_n r > 0 then rv_fail_n r - 1 else rv_fail_n r)"
  by (simp_all add: store_request_def Let_def)

lemma after_requests_stored:
  "rv_series (after_requests ts r k) = rv_series r @ concat (replicate k ts)"
  "rv_requests (after_requests ts r k) = rv_requests r + int k"
proof -
  have "concat (replicate k ts) @ ts = ts @ concat (replicate k ts)" for k
    by (induction k) simp_all
  then show "rv_series (after_requests ts r k) = rv_series r @ concat (replicate k ts)"
    "rv_requests (after_requests ts r k) = rv_requests r + int k"
    by (induction k) simp_all
qed

lemma failing_receiver:
  assumes "rv_mode r = ModeFailNTimes" "rv_fail_n r = int n"
  shows "rv_mode (after_requests ts r k) = ModeFailNTimes \<and> rv_fail_n (after_requests ts r k) = int (n - k)
    \<and> rv_fail_status (after_requests ts r k) = rv_fail_status r"
  using assms by (induction k) auto


section \<open>Deliveries that recover\<close>

text \<open>An error after which the sender tries again: a timeout, or neither a rejection nor a cancellation.\<close>

definition transient :: "goerr \<Rightarrow> bool" where
  "transient err \<longleftrightarrow> \<not> err_is CtxCanceled err \<and> (err_is CtxDeadlineExceeded err \<or> \<not> is_non_retryable err)"

primrec is_posted :: "send_event \<Rightarrow> bool" where
  "is_posted (Posted h) = True"
| "is_posted (OnSendOutcome o' d) = False"
| "is_posted (OnSamplesSent n) = False"
| "is_posted (OnSamplesFailed r n) = False"
| "is_posted (OnSamplesDropped r n) = False"
| "is_posted OnRetry = False"
| "is_posted (OnLastSend t) = False"
| "is_posted (BreakerNote s) = False"
| "is_posted (StartTimer d) = False"

lemma posted_count: "length (filter is_posted (posted bx a)) = (if fst (attempt_exchange bx a) = None then 0 else 1)"
  by (simp add: posted_def split: option.split)

lemma notes_not_posted [simp]: "filter is_posted (map BreakerNote ns) = []"
  by (induction ns) simp_all

text \<open>\<open>n\<close> transient failures and then a success, within the attempts and without a deadline.\<close>

lemma retry_loop_recovers:
  assumes "bx_deadline bx = None" "backoff_max (bx_cfg bx) < max_i64"
  shows "(\<And>i. i < n \<Longrightarrow> \<exists>err. snd (attempt_exchange bx (a + i)) = Some err \<and> transient err \<and> \<not> ae_ctx_done (bx_env bx (a + i)))
    \<Longrightarrow> (\<And>i. i \<le> n \<Longrightarrow> fst (attempt_exchange bx (a + i)) \<noteq> None)
    \<Longrightarrow> snd (attempt_exchange bx (a + n)) = None \<Longrightarrow> n < k
    \<Longrightarrow> \<exists>es. retry_loop bx k a cb = Some (fst (record_success cb), es)
      \<and> filter terminal es = [OnSamplesSent (bx_len bx)]
      \<and> count_list es OnRetry = n \<and> length (filter is_posted es) = Suc n"
proof (induction n arbitrary: a k)
  case 0
  then obtain k' where "k = Suc k'" by (cases k) auto
  then show ?case using 0(2) [of 0] 0(3)
    by (auto simp: Let_def posted_count split: prod.split)
next
  case (Suc n)
  obtain k' where k: "k = Suc k'" "n < k'" using Suc.prems(4) by (cases k) auto
  obtain err where err: "snd (attempt_exchange bx a) = Some err" "transient err" "\<not> ae_ctx_done (bx_env bx a)"
    using Suc.prems(1) [of 0] by auto
  obtain wait where w: "compute_backoff (bx_cfg bx) (ae_rand (bx_env bx a)) (int a) err = Some wait"
    using compute_backoff_defined [OF assms(2)] by blast
  obtain es where es: "retry_loop bx k' (Suc a) cb = Some (fst (record_success cb), es)"
    "filter terminal es = [OnSamplesSent (bx_len bx)]" "count_list es OnRetry = n" "length (filter is_posted es) = Suc n"
    using Suc.IH [of "Suc a" k'] Suc.prems(1) [of "Suc _"] Suc.prems(2) [of "Suc _"] Suc.prems(3) k(2) by auto
  have p: "fst (attempt_exchange bx a) \<noteq> None" using Suc.prems(2) [of 0] by simp
  have "k' \<noteq> 0" using k(2) by simp
  moreover have "\<not> deadline_passed bx a" "capped_wait bx a wait = Some wait"
    by (simp_all add: deadline_passed_def capped_wait_def assms(1))
  ultimately have "retry_loop bx k a cb = Some (fst (record_success cb),
      posted bx a @ [OnSendOutcome (outcome_of err) (ae_dur (bx_env bx a)), OnRetry, StartTimer wait] @ es)"
    using err w es(1) by (auto simp: k(1) Let_def transient_def)
  then show ?case using es(2-4) p by (auto simp: posted_count)
qed

text \<open>What \<open>http.Client\<close> makes of a reply.\<close>

definition response_of :: "int \<Rightarrow> http_response" where
  "response_of status = \<lparr>resp_status_code = status, resp_status = print_int status, resp_retry_after = []\<rparr>"

definition retryable_status :: "int \<Rightarrow> bool" where
  "retryable_status status \<longleftrightarrow> \<not> (200 \<le> status \<and> status < 300) \<and> status \<notin> {400, 401, 403, 404}"

text \<open>
  An execution in which every attempt of a batch reaches the receiver: attempt \<open>i\<close> is answered by the
  reply of the receiver to its request number \<open>i\<close>, and the context is not cancelled.
\<close>

definition answered_by :: "receiver \<Rightarrow> series list \<Rightarrow> batch_ctx \<Rightarrow> bool" where
  "answered_by r ts bx \<longleftrightarrow> (\<forall>i. ae_build_err (bx_env bx i) = None \<and> \<not> ae_ctx_done (bx_env bx i)
     \<and> (\<exists>status. reply_of (after_requests ts r i) False = Reply status None
          \<and> ae_reply (bx_env bx i) = Inr (response_of status)))"

lemma exchange_status:
  assumes "ae_build_err (bx_env bx i) = None" "ae_reply (bx_env bx i) = Inr (response_of status)"
  shows "fst (attempt_exchange bx i) \<noteq> None"
    and "200 \<le> status \<Longrightarrow> status < 300 \<Longrightarrow> snd (attempt_exchange bx i) = None"
    and "retryable_status status \<Longrightarrow> \<exists>err. snd (attempt_exchange bx i) = Some err \<and> transient err"
  using assms
  by (auto simp: attempt_exchange_def send_write_request_def classify_status_def response_of_def
      retryable_status_def transient_def is_non_retryable_def server_returned_def Let_def)

text \<open>C10. A batch survives transient failures, at least once: against a receiver that refuses the next \<open>n\<close>
  requests with a status that may be retried, a sender with more than \<open>n\<close> attempts and no time limit
  makes exactly \<open>n + 1\<close> requests with \<open>n\<close> retries and reports the batch as sent. The receiver, which
  stores what it refuses, then holds the batch \<open>n + 1\<close> times after what it held before.\<close>

theorem delivered_after_transient_failures:
  assumes "\<And>raw. snappy_decode (snappy raw) = Some raw" "\<And>ts raw. marshal ts = Inr raw \<Longrightarrow> unmarshal raw = Some ts"
    and "encode_write_request marshal snappy ts = Inr body"
    and "retryable_status (if status = 0 then 503 else status)"
    and "answered_by (fail_n_times (int n) status r) ts bx" "bx_len bx = length ts"
    and "n < eff_attempts (bx_cfg bx)" "ep_max_elapsed (bx_cfg bx) \<le> 0" "backoff_max (bx_cfg bx) < max_i64"
    and "fst (br_allow t0 cb)"
  shows "\<exists>cb' es. process_batch bx t0 (encode_error (encode_write_request marshal snappy ts)) start cb = Some (cb', es)
    \<and> filter terminal es = [OnSamplesSent (length ts)]
    \<and> count_list es OnRetry = n \<and> length (filter is_posted es) = Suc n
    \<and> rv_series (((\<lambda>r. fst (handle snappy_decode unmarshal (Some body) False r)) ^^ Suc n) (fail_n_times (int n) status r))
        = rv_series r @ concat (replicate (Suc n) ts)"
proof -
  let ?r = "fail_n_times (int n) status r" and ?bx = "bx\<lparr>bx_deadline := None\<rparr>"
  let ?status = "if status = 0 then 503 else status"
  have r: "rv_mode ?r = ModeFailNTimes" "rv_fail_n ?r = int n" "rv_fail_status ?r = ?status" "rv_series ?r = rv_series r"
    by (simp_all add: fail_n_times_def)
  obtain raw where raw: "marshal ts = Inr raw" "body = snappy raw"
    using assms(3) by (auto simp: encode_write_request_def split: sum.splits)
  have decoded: "snappy_decode body = Some raw" "unmarshal raw = Some ts"
    using assms(1,2) raw by simp_all
  note f = failing_receiver [OF r(1,2), of ts]
  have "reply_of (after_requests ts ?r i) False = Reply (if i < n then ?status else 200) None" for i
    using f [of i] r(3) by (simp add: reply_of_def)
  then have x: "ae_build_err (bx_env ?bx i) = None" "\<not> ae_ctx_done (bx_env ?bx i)"
    "ae_reply (bx_env ?bx i) = Inr (response_of (if i < n then ?status else 200))" for i
    using spec [OF assms(5) [unfolded answered_by_def], of i] by auto
  note e = exchange_status [OF x(1,3)]
  have "\<exists>es. retry_loop ?bx (eff_attempts (bx_cfg bx)) 0 cb' = Some (fst (record_success cb'), es)
      \<and> filter terminal es = [OnSamplesSent (bx_len ?bx)]
      \<and> count_list es OnRetry = n \<and> length (filter is_posted es) = Suc n" for cb'
    using retry_loop_recovers [of ?bx n 0 "eff_attempts (bx_cfg bx)" cb'] e assms(4,7,9) x(2) by simp
  then have "\<exists>cb' es. process_batch bx t0 (encode_error (encode_write_request marshal snappy ts)) start cb = Some (cb', es)
    \<and> filter terminal es = [OnSamplesSent (length ts)] \<and> count_list es OnRetry = n \<and> length (filter is_posted es) = Suc n"
    using assms(3,6,8,10) by (fastforce simp: process_batch_def encode_error_def Let_def split: prod.splits)
  moreover have "((\<lambda>r. fst (handle snappy_decode unmarshal (Some body) False r)) ^^ k) ?r = after_requests ts ?r k" for k
    by (induction k) (simp_all add: handle_def decoded)
  ultimately show ?thesis by (simp only: after_requests_stored r(4) simp_thms)
qed

definition demo_point :: series where
  "demo_point = \<lparr>ts_labels = [], ts_value = 0, ts_timestamp = 0\<rparr>"

theorem delivered_after_transient_failures_witness:
  "rv_series (((\<lambda>r. fst (handle Some (\<lambda>raw. if raw = [] then Some [demo_point] else None) (Some []) False r)) ^^ 2) (fail_n_times 1 0 new_receiver))
     = [demo_point, demo_point]"
proof -
  let ?env = "\<lambda>i :: nat. demo_env\<lparr>ae_reply := Inr (response_of (if i = 0 then 503 else 200))\<rparr>"
  let ?bx = "demo_bx\<lparr>bx_env := ?env, bx_len := 1\<rparr>" and ?r = "fail_n_times (int 1) 0 new_receiver"
  have "rv_mode ?r = ModeFailNTimes" "rv_fail_n ?r = int 1" "rv_fail_status ?r = 503" "rv_series new_receiver = []"
    by (simp_all add: fail_n_times_def new_receiver_def)
  note r = this failing_receiver [OF this(1,2), of "[demo_point]"]
  have a: "answered_by ?r [demo_point] ?bx"
    using r by (auto simp: answered_by_def reply_of_def demo_env_def)
  have c: "bx_cfg demo_bx = demo_cfg" by (simp add: demo_bx_def)
  have "1 < eff_attempts demo_cfg" "ep_max_elapsed demo_cfg \<le> 0" "backoff_max demo_cfg < max_i64"
    "fst (br_allow 0 demo_breaker)" "retryable_status (if (0 :: int) = 0 then 503 else 0)" "bx_len ?bx = length [demo_point]"
    by (simp_all add: eff_attempts_def demo_cfg_def backoff_max_def second_def max_i64_def br_allow_def demo_breaker_ok
        retryable_status_def)
  note facts = this
  have codec: "(if raw = [] then Some [demo_point] else None) = Some ts"
    if "(if ts = [demo_point] then Inr [] else Inl CtxCanceled) = Inr raw" for ts and raw :: string
    using that by (simp split: if_splits)
  let ?d = "\<lambda>raw. if raw = [] then Some [demo_point] else None"
  from delivered_after_transient_failures [of Some id "\<lambda>ts. if ts = [demo_point] then Inr [] else Inl CtxCanceled" ?d
      "[demo_point]" "[]" 0 1 new_receiver ?bx 0 demo_breaker 0, OF _ codec _ facts(5) a facts(6) _ _ _ facts(4)] facts(1-3)
  show ?thesis by (auto simp: c r(4) numeral_2_eq_2 encode_write_request_def split: if_splits)
qed

end
