(* ===== verification/JsonScalar.thy ===== *)
theory JsonScalar
  imports StreamJson
begin

text \<open>
  The recognizer on a single scalar token: a string token of any length, of which only the first
  128 or 4096 bytes are kept, and a number or literal, which it validates byte by byte without keeping
  it. The automaton of \<open>scalarByte\<close> is shown to accept exactly the JSON numbers and literals.
\<close>

section \<open>States between and inside tokens\<close>

text \<open>The state between two tokens, and inside a string or a scalar of which the text \<open>t\<close> has been read.\<close>

definition rdy :: "jframe list \<Rightarrow> fields \<Rightarrow> fields list \<Rightarrow> bool \<Rightarrow> bool \<Rightarrow> jfields" where
  "rdy st fl em sk kt = \<lparr>jf_stack = st, jf_token = [], jf_mode = ModeNone, jf_escape = False,
     jf_unicode = 0, jf_number = NumStart, jf_literal = [], jf_literal_pos = 0, jf_key_token = kt,
     jf_overflow = False, jf_bad = False, jf_failure = [], jf_key_skipped = sk, jf_fields = fl,
     jf_emitted = em, jf_panic = False\<rparr>"

definition key_limit :: "bool \<Rightarrow> nat" where "key_limit kt = (if kt then 128 else 4096)"

definition in_string :: "jframe list \<Rightarrow> fields \<Rightarrow> fields list \<Rightarrow> bool \<Rightarrow> bool \<Rightarrow> string \<Rightarrow> bool \<Rightarrow> nat \<Rightarrow> jfields" where
  "in_string st fl em sk kt t esc u = (rdy st fl em sk kt)\<lparr>jf_token := take (key_limit kt) t,
     jf_mode := ModeString, jf_escape := esc, jf_unicode := u, jf_overflow := key_limit kt < length t\<rparr>"

definition in_scalar :: "jframe list \<Rightarrow> fields \<Rightarrow> fields list \<Rightarrow> bool \<Rightarrow> string \<Rightarrow> jnum \<Rightarrow> string \<Rightarrow> nat \<Rightarrow> jfields" where
  "in_scalar st fl em sk t n l p = (rdy st fl em sk False)\<lparr>jf_token := take 4096 t,
     jf_mode := ModeScalar, jf_overflow := 4096 < length t, jf_number := n, jf_literal := l, jf_literal_pos := p\<rparr>"

lemma rdy_sel [simp]:
  "jf_stack (rdy st fl em sk kt) = st" "jf_mode (rdy st fl em sk kt) = ModeNone" "\<not> jf_bad (rdy st fl em sk kt)"
  "jf_fields (rdy st fl em sk kt) = fl" "jf_emitted (rdy st fl em sk kt) = em"
  "jf_key_skipped (rdy st fl em sk kt) = sk" "jf_token (rdy st fl em sk kt) = []"
  "jf_failure (rdy st fl em sk kt) = []" "jf_panic (rdy st fl em sk kt) = False" "jf_key_token (rdy st fl em sk kt) = kt"
  by (simp_all add: rdy_def)

lemma new_jfields_rdy: "new_jfields = rdy [] Map.empty [] False False"
  by (simp add: new_jfields_def rdy_def)

section \<open>Strings\<close>

lemma take_snoc: "(if length (take L t) < L then take L t @ [c] else take L t) = take L (t @ [c])"
  by (simp add: not_less)

lemma append_in_string:
  "j_append (in_string st fl em sk kt t esc u) c = in_string st fl em sk kt (t @ [c]) esc u"
  by (auto simp: in_string_def j_append_def token_limit_def key_limit_def rdy_def not_less)

lemma in_string_sel [simp]:
  "jf_escape (in_string st fl em sk kt t esc u) = esc" "jf_unicode (in_string st fl em sk kt t esc u) = u"
  "jf_mode (in_string st fl em sk kt t esc u) = ModeString" "\<not> jf_bad (in_string st fl em sk kt t esc u)"
  "(in_string st fl em sk kt t esc u)\<lparr>jf_escape := e\<rparr> = in_string st fl em sk kt t e u"
  "(in_string st fl em sk kt t esc u)\<lparr>jf_unicode := v\<rparr> = in_string st fl em sk kt t esc v"
  by (simp_all add: in_string_def rdy_def)

lemma byte_in_string:
  "json_byte (in_string st fl em sk kt t esc u) c = string_byte (in_string st fl em sk kt t esc u) c"
  by (simp add: json_byte_def)

lemma string_plain:
  "c \<noteq> CHR 0x5C \<Longrightarrow> c \<noteq> CHR 0x22 \<Longrightarrow> 32 \<le> byte c \<Longrightarrow>
   json_byte (in_string st fl em sk kt t False 0) c = in_string st fl em sk kt (t @ [c]) False 0"
  by (simp add: byte_in_string string_byte_def append_in_string Let_def)

lemma string_backslash:
  "json_byte (in_string st fl em sk kt t False 0) (CHR 0x5C) = in_string st fl em sk kt (t @ [CHR 0x5C]) True 0"
  by (simp add: byte_in_string string_byte_def append_in_string Let_def)

lemma string_escaped:
  "simple_escape e \<Longrightarrow> e \<noteq> CHR ''u'' \<Longrightarrow>
   json_byte (in_string st fl em sk kt t True 0) e = in_string st fl em sk kt (t @ [e]) False 0"
  "json_byte (in_string st fl em sk kt t True 0) (CHR ''u'') = in_string st fl em sk kt (t @ ''u'') False 4"
  by (simp_all add: byte_in_string string_byte_def append_in_string Let_def)

lemma string_hex:
  "is_hex c \<Longrightarrow> 0 < u \<Longrightarrow>
   json_byte (in_string st fl em sk kt t False u) c = in_string st fl em sk kt (t @ [c]) False (u - 1)"
  by (simp add: byte_in_string string_byte_def append_in_string Let_def)

lemma feed_hex:
  "list_all is_hex hs \<Longrightarrow> length hs \<le> u \<Longrightarrow>
   json_feed (in_string st fl em sk kt t False u) hs = in_string st fl em sk kt (t @ hs) False (u - length hs)"
  by (induction hs arbitrary: t u) (simp_all add: string_hex)

lemma feed_body:
  "valid_body b \<Longrightarrow> json_feed (in_string st fl em sk kt t False 0) b = in_string st fl em sk kt (t @ b) False 0"
proof (induction b arbitrary: t rule: valid_body.induct)
  case (2 c cs)
  show ?case
  proof (cases "c = CHR 0x5C")
    case True
    with 2 obtain e r where cs: "cs = e # r" by (cases cs) auto
    show ?thesis
    proof (cases "e = CHR ''u''")
      case True
      then have h: "4 \<le> length r" "list_all is_hex (take 4 r)" "valid_body (drop 4 r)"
        using 2 cs \<open>c = CHR 0x5C\<close> by auto
      let ?t = "t @ CHR 0x5C # ''u''"
      have "json_feed (in_string st fl em sk kt ?t False 4) r =
          json_feed (json_feed (in_string st fl em sk kt ?t False 4) (take 4 r)) (drop 4 r)"
        by (simp flip: json_feed_append)
      also have "\<dots> = in_string st fl em sk kt ((?t @ take 4 r) @ drop 4 r) False 0"
        using h feed_hex [OF h(2), of 4] 2(1) [OF \<open>c = CHR 0x5C\<close> cs True] by simp
      finally have "json_feed (in_string st fl em sk kt ?t False 4) r = in_string st fl em sk kt (?t @ r) False 0"
        by (simp only: append_assoc append_take_drop_id)
      then show ?thesis using True cs \<open>c = CHR 0x5C\<close> by (simp add: string_backslash string_escaped)
    next
      case False
      then have "simple_escape e" "valid_body r" using 2 cs \<open>c = CHR 0x5C\<close> by auto
      then show ?thesis
        using 2(2) [OF \<open>c = CHR 0x5C\<close> cs False] cs \<open>c = CHR 0x5C\<close> False
        by (simp add: string_backslash string_escaped)
    qed
  next
    case False
    with 2 show ?thesis by (simp add: string_plain)
  qed
qed simp

text \<open>The closing quote ends the token.\<close>

lemma string_end:
  "json_byte (in_string st fl em sk kt t False 0) (CHR 0x22) =
   j_scalar (in_string st fl em sk kt (t @ [CHR 0x22]) False 0)"
  by (simp add: byte_in_string string_byte_def append_in_string Let_def)

lemma feed_string:
  "valid_body b \<Longrightarrow> json_feed (in_string st fl em sk kt [CHR 0x22] False 0) (b @ [CHR 0x22]) =
   j_scalar (in_string st fl em sk kt (quote b) False 0)"
  by (simp add: json_feed_append feed_body string_end quote_def)

lemma quote_valid: "valid_body b \<Longrightarrow> valid_string_token (quote b)"
  by (simp add: valid_string_token_def quote_def)

lemma quote_inner [simp]: "butlast (tl (quote b)) = b"
  by (simp add: quote_def)

lemma unquote_quote: "valid_body b \<Longrightarrow> json_unquote (quote b) = Some (unquote_body b)"
  by (simp add: json_unquote_def quote_valid)

text \<open>The name the recognizer gives a field: none if the token is longer than 128 bytes.\<close>

definition field_name :: "string \<Rightarrow> string" where
  "field_name k = (if 128 < length (quote k) then [] else unquote_body k)"

definition long_key :: "string \<Rightarrow> bool" where "long_key k \<longleftrightarrow> 128 < length (quote k)"

lemma end_key:
  assumes "valid_body k"
  shows "j_scalar (in_string (f # fs) fl em sk True (quote k) False 0) =
    rdy (f\<lparr>f_key := field_name k, f_state := AtColon\<rparr> # fs) fl em (sk \<or> long_key k) True"
  using unquote_quote [OF assms]
  by (simp add: j_scalar_def key_scalar_def in_string_def key_limit_def set_top_def reset_token_def rdy_def
      field_name_def long_key_def Let_def)

definition put_field :: "string \<Rightarrow> string \<Rightarrow> fields \<Rightarrow> fields" where
  "put_field path t fl = (if wanted path then fl(path \<mapsto> t) else fl)"

lemma end_string_value:
  assumes "valid_body b" "wanted (frames_path (f # fs)) \<Longrightarrow> length (quote b) \<le> 4096"
  shows "j_scalar (in_string (f # fs) fl em sk False (quote b) False 0) =
    rdy (f\<lparr>f_state := AtComma\<rparr> # fs) (put_field (frames_path (f # fs)) (quote b) fl) em sk False"
proof (cases "wanted (frames_path (f # fs))")
  case True
  with assms quote_valid [of b] show ?thesis
    by (simp add: j_scalar_def value_scalar_def in_string_def key_limit_def set_top_def reset_token_def rdy_def
        put_field_def j_path_def value_done_def json_valid_def Let_def)
next
  case False
  then show ?thesis
    by (simp add: j_scalar_def value_scalar_def in_string_def key_limit_def set_top_def reset_token_def rdy_def
        put_field_def j_path_def value_done_def Let_def)
qed

section \<open>Numbers and literals\<close>

text \<open>The automaton of \<open>scalarByte\<close> on numbers, as a function.\<close>

definition num_step :: "jnum \<Rightarrow> char \<Rightarrow> jnum option" where
  "num_step n c =
     (case n of
        NumStart \<Rightarrow> if c = CHR ''-'' then Some NumMinus else if c = CHR ''0'' then Some NumZero
          else if is_digit c then Some NumInt else None
      | NumMinus \<Rightarrow> if c = CHR ''0'' then Some NumZero else if is_digit c then Some NumInt else None
      | NumZero \<Rightarrow> if c = CHR ''.'' then Some NumDot else if is_e c then Some NumExp else None
      | NumInt \<Rightarrow> if c = CHR ''.'' then Some NumDot else if is_e c then Some NumExp
          else if is_digit c then Some NumInt else None
      | NumDot \<Rightarrow> if is_digit c then Some NumFrac else None
      | NumFrac \<Rightarrow> if is_e c then Some NumExp else if is_digit c then Some NumFrac else None
      | NumExp \<Rightarrow> if c = CHR ''+'' \<or> c = CHR ''-'' then Some NumSign
          else if is_digit c then Some NumExpDigits else None
      | NumSign \<Rightarrow> if is_digit c then Some NumExpDigits else None
      | NumExpDigits \<Rightarrow> if is_digit c then Some NumExpDigits else None)"

primrec num_acc :: "jnum \<Rightarrow> string \<Rightarrow> bool" where
  "num_acc n [] = (n \<in> {NumZero, NumInt, NumFrac, NumExpDigits})"
| "num_acc n (c # cs) = (case num_step n c of None \<Rightarrow> False | Some n' \<Rightarrow> num_acc n' cs)"

lemma digit_not_mark: "is_digit c \<Longrightarrow> c \<noteq> CHR ''.'' \<and> \<not> is_e c \<and> c \<noteq> CHR ''+'' \<and> c \<noteq> CHR ''-''"
  by (auto simp: is_digit_def is_e_def byte_def)

lemma acc_exp_digits: "num_acc NumExpDigits s = list_all is_digit s"
  by (induction s) (auto simp: num_step_def)

lemma acc_sign: "num_acc NumSign s = (s \<noteq> [] \<and> list_all is_digit s)"
  by (cases s) (auto simp: num_step_def acc_exp_digits)

lemma acc_exp:
  "num_acc NumExp s = (let ds = (if has_prefix s ''+'' \<or> has_prefix s ''-'' then tl s else s)
     in ds \<noteq> [] \<and> list_all is_digit ds)"
proof (cases s)
  case (Cons c cs)
  then show ?thesis using digit_not_mark [of c]
    by (auto simp: num_step_def acc_exp_digits acc_sign Let_def)
qed (simp add: Let_def)

lemma acc_exp_part:
  "s = [] \<or> \<not> is_digit (hd s) \<Longrightarrow> num_acc NumFrac s = json_exp_part s"
  by (cases s) (auto simp: num_step_def json_exp_part_def acc_exp is_e_def)

lemma acc_frac: "num_acc NumFrac s = json_exp_part (dropWhile is_digit s)"
proof (induction s)
  case (Cons c cs)
  then show ?case
    using acc_exp_part [of "c # cs"] digit_not_mark [of c] by (cases "is_digit c") (auto simp: num_step_def)
qed (simp add: json_exp_part_def)

lemma acc_dot: "num_acc NumDot s = (takeWhile is_digit s \<noteq> [] \<and> json_exp_part (dropWhile is_digit s))"
  by (cases s) (auto simp: num_step_def acc_frac)

lemma acc_zero: "num_acc NumZero s = json_frac_part s"
  by (cases s) (auto simp: num_step_def json_frac_part_def json_exp_part_def acc_dot acc_exp is_e_def)

lemma acc_int: "num_acc NumInt s = json_frac_part (dropWhile is_digit s)"
proof (induction s)
  case (Cons c cs)
  show ?case
  proof (cases "is_digit c")
    case True
    with Cons digit_not_mark [of c] show ?thesis by (simp add: num_step_def)
  next
    case False
    then show ?thesis
      by (auto simp: num_step_def json_frac_part_def json_exp_part_def acc_dot acc_exp is_e_def)
  qed
qed (simp add: json_frac_part_def)

lemma acc_minus: "num_acc NumMinus s = json_int_part s"
  by (cases s) (auto simp: num_step_def json_int_part_def acc_zero acc_int is_digit_def byte_def)

lemma acc_start: "num_acc NumStart s = json_number s"
proof (cases s)
  case (Cons c cs)
  then show ?thesis
    using digit_not_mark [of c]
    by (auto simp: num_step_def json_number_def acc_minus json_int_part_def acc_zero acc_int is_digit_def byte_def)
qed (simp add: json_number_def json_int_part_def)

section \<open>The automaton in the recognizer\<close>

text \<open>A byte of a scalar, and the verdict at its end.\<close>

definition sc_step :: "jfields \<Rightarrow> char \<Rightarrow> jfields" where
  "sc_step j c = j_append (scalar_byte j c) c"

definition sc_accepts :: "jfields \<Rightarrow> bool" where
  "sc_accepts j \<longleftrightarrow> \<not> jf_bad j \<and> scalar_complete j"

lemma byte_in_scalar:
  "\<not> delimiter c \<Longrightarrow> jf_mode j = ModeScalar \<Longrightarrow> \<not> jf_bad j \<Longrightarrow> json_byte j c = sc_step j c"
  by (simp add: json_byte_def sc_step_def)

lemma in_scalar_sel [simp]:
  "jf_mode (in_scalar st fl em sk t n l p) = ModeScalar" "jf_bad (in_scalar st fl em sk t n l p) = False"
  "jf_number (in_scalar st fl em sk t n l p) = n" "jf_literal (in_scalar st fl em sk t n l p) = l"
  "jf_literal_pos (in_scalar st fl em sk t n l p) = p"
  by (simp_all add: in_scalar_def rdy_def)

lemma append_in_scalar:
  "j_append (in_scalar st fl em sk t n l p) c = in_scalar st fl em sk (t @ [c]) n l p"
  by (auto simp: in_scalar_def j_append_def token_limit_def rdy_def not_less)

lemma num_to_in_scalar: "num_to m (in_scalar st fl em sk t n l p) = in_scalar st fl em sk t m l p"
  by (simp add: num_to_def in_scalar_def)

lemma num_byte_split:
  "n \<noteq> NumStart \<or> c \<notin> {CHR ''t'', CHR ''f'', CHR ''n''} \<Longrightarrow> jf_literal j = [] \<Longrightarrow> jf_number j = n \<Longrightarrow>
   scalar_byte j c = (case num_step n c of Some m \<Rightarrow> if m = n then j else num_to m j | None \<Rightarrow> mark_bad j)"
  by (cases n) (simp_all add: scalar_byte_def num_step_def)

lemma num_sc_step:
  assumes "n \<noteq> NumStart \<or> c \<notin> {CHR ''t'', CHR ''f'', CHR ''n''}"
  shows "num_step n c = Some m \<Longrightarrow>
      sc_step (in_scalar st fl em sk t n [] 0) c = in_scalar st fl em sk (t @ [c]) m [] 0"
    and "num_step n c = None \<Longrightarrow> jf_bad (sc_step (in_scalar st fl em sk t n [] 0) c)"
  using num_byte_split [OF assms, of "in_scalar st fl em sk t n [] 0"]
  by (simp_all add: sc_step_def append_in_scalar num_to_in_scalar split: if_splits)

lemma sc_bad: "jf_bad j \<Longrightarrow> jf_bad (foldl sc_step j s)"
proof (induction s arbitrary: j)
  case (Cons c s)
  have "jf_bad (sc_step j c)" using scalar_byte_keeps_bad [OF Cons.prems] by (simp add: sc_step_def)
  from Cons.IH [OF this] show ?case by simp
qed simp

lemma num_step_not_start: "num_step n c = Some m \<Longrightarrow> m \<noteq> NumStart"
  by (cases n) (auto simp: num_step_def split: if_splits)

lemma num_run:
  "n \<noteq> NumStart \<or> s = [] \<or> hd s \<notin> {CHR ''t'', CHR ''f'', CHR ''n''} \<Longrightarrow>
   sc_accepts (foldl sc_step (in_scalar st fl em sk t n [] 0) s) = num_acc n s \<and>
   (num_acc n s \<longrightarrow> (\<exists>m. foldl sc_step (in_scalar st fl em sk t n [] 0) s = in_scalar st fl em sk (t @ s) m [] 0))"
proof (induction s arbitrary: t n)
  case Nil
  have "\<exists>m. in_scalar st fl em sk t n [] 0 = in_scalar st fl em sk t m [] 0" by blast
  then show ?case by (simp add: sc_accepts_def scalar_complete_def)
next
  case (Cons c s)
  then have c: "n \<noteq> NumStart \<or> c \<notin> {CHR ''t'', CHR ''f'', CHR ''n''}" by simp
  show ?case
  proof (cases "num_step n c")
    case None
    then show ?thesis using sc_bad [OF num_sc_step(2) [OF c None]] by (simp add: sc_accepts_def)
  next
    case (Some m)
    from Cons.IH [of m "t @ [c]"] num_step_not_start [OF Some] num_sc_step(1) [OF c Some] Some
    show ?thesis by simp
  qed
qed

lemma lit_sc_step:
  assumes "l \<noteq> []"
  shows "p < length l \<Longrightarrow> c = l ! p \<Longrightarrow>
      sc_step (in_scalar st fl em sk t n l p) c = in_scalar st fl em sk (t @ [c]) n l (Suc p)"
    and "\<not> (p < length l \<and> c = l ! p) \<Longrightarrow> jf_bad (sc_step (in_scalar st fl em sk t n l p) c)"
proof -
  have u: "(in_scalar st fl em sk t n l p)\<lparr>jf_literal_pos := Suc p\<rparr> = in_scalar st fl em sk t n l (Suc p)"
    by (simp add: in_scalar_def)
  show "p < length l \<Longrightarrow> c = l ! p \<Longrightarrow>
      sc_step (in_scalar st fl em sk t n l p) c = in_scalar st fl em sk (t @ [c]) n l (Suc p)"
    using assms by (simp add: sc_step_def scalar_byte_def append_in_scalar u)
  show "\<not> (p < length l \<and> c = l ! p) \<Longrightarrow> jf_bad (sc_step (in_scalar st fl em sk t n l p) c)"
    using assms by (auto simp: sc_step_def scalar_byte_def)
qed

lemma lit_run:
  "l \<noteq> [] \<Longrightarrow> p \<le> length l \<Longrightarrow>
   sc_accepts (foldl sc_step (in_scalar st fl em sk t n l p) s) = (s = drop p l) \<and>
   (s = drop p l \<longrightarrow> foldl sc_step (in_scalar st fl em sk t n l p) s = in_scalar st fl em sk (t @ s) n l (length l))"
proof (induction s arbitrary: t p)
  case Nil
  then show ?case by (auto simp: sc_accepts_def scalar_complete_def)
next
  case (Cons c s)
  show ?case
  proof (cases "p < length l \<and> c = l ! p")
    case True
    then have d: "drop p l = c # drop (Suc p) l" by (simp add: Cons_nth_drop_Suc)
    from Cons.IH [of "Suc p" "t @ [c]"] True Cons.prems d show ?thesis
      by (simp add: lit_sc_step(1))
  next
    case False
    have "c # s \<noteq> drop p l"
    proof
      assume e: "c # s = drop p l"
      then have "p < length l" using drop_eq_Nil2 [of p l] by (cases "p < length l") auto
      with e False show False by (simp add: Cons_nth_drop_Suc [symmetric])
    qed
    with False sc_bad [OF lit_sc_step(2) [OF Cons.prems(1) False]] show ?thesis
      by (simp add: sc_accepts_def)
  qed
qed

lemma lit_start:
  "c \<in> {CHR ''t'', CHR ''f'', CHR ''n''} \<Longrightarrow>
   \<exists>l. l \<in> {''true'', ''false'', ''null''} \<and> hd l = c \<and>
     sc_step (in_scalar st fl em sk [] NumStart [] 0) c = in_scalar st fl em sk [c] NumStart l 1"
proof -
  have s: "start_literal l (in_scalar st fl em sk [] NumStart [] 0) = in_scalar st fl em sk [] NumStart l 1" for l
    by (simp add: start_literal_def in_scalar_def)
  have b: "scalar_byte (in_scalar st fl em sk [] NumStart [] 0) c =
      (if c = CHR ''t'' then start_literal ''true'' (in_scalar st fl em sk [] NumStart [] 0)
       else if c = CHR ''f'' then start_literal ''false'' (in_scalar st fl em sk [] NumStart [] 0)
       else start_literal ''null'' (in_scalar st fl em sk [] NumStart [] 0))"
    if "c \<in> {CHR ''t'', CHR ''f'', CHR ''n''}"
    using that by (elim insertE emptyE) (simp_all add: scalar_byte_def)
  assume c: "c \<in> {CHR ''t'', CHR ''f'', CHR ''n''}"
  define l where "l = (if c = CHR ''t'' then ''true'' else if c = CHR ''f'' then ''false'' else ''null'')"
  have "sc_step (in_scalar st fl em sk [] NumStart [] 0) c = in_scalar st fl em sk [c] NumStart l 1"
    by (simp add: sc_step_def b [OF c] l_def s append_in_scalar)
  moreover have "l \<in> {''true'', ''false'', ''null''}" "hd l = c" using c by (auto simp: l_def)
  ultimately show ?thesis by blast
qed

text \<open>Acceptance of a whole scalar token.\<close>

lemma scalar_run:
  "sc_accepts (foldl sc_step (in_scalar st fl em sk [] NumStart [] 0) s) = (json_number s \<or> json_literal s) \<and>
   (json_number s \<or> json_literal s \<longrightarrow>
     (\<exists>n l p. foldl sc_step (in_scalar st fl em sk [] NumStart [] 0) s = in_scalar st fl em sk s n l p))"
proof (cases "s \<noteq> [] \<and> hd s \<in> {CHR ''t'', CHR ''f'', CHR ''n''}")
  case True
  then obtain c cs where s: "s = c # cs" "c \<in> {CHR ''t'', CHR ''f'', CHR ''n''}" by (cases s) auto
  obtain l where l: "l \<in> {''true'', ''false'', ''null''}" "hd l = c"
    and st: "sc_step (in_scalar st fl em sk [] NumStart [] 0) c = in_scalar st fl em sk [c] NumStart l 1"
    using lit_start [OF s(2), of st fl em sk] by (elim exE conjE)
  have "num_step NumStart c = None"
    using s(2) by (elim insertE emptyE) (simp_all add: num_step_def is_digit_def byte_def)
  then have n: "\<not> json_number s" using s(1) acc_start [of s] by simp
  have j: "json_literal s = (cs = drop 1 l)"
    using s l by (elim insertE emptyE) (simp_all add: json_literal_def)
  have "l \<noteq> [] \<and> 1 \<le> length l" using l by auto
  with lit_run [of l 1 st fl em sk "[c]" NumStart cs] n j st show ?thesis
    by (simp add: s(1)) blast
next
  case False
  then have "\<not> json_literal s" by (auto simp: json_literal_def)
  with False num_run [of NumStart s st fl em sk "[]"] show ?thesis
    by (auto simp: acc_start)
qed

lemma accepted_no_delimiter: "num_acc n s \<Longrightarrow> list_all (\<lambda>c. \<not> delimiter c) s"
proof (induction s arbitrary: n)
  case (Cons c s)
  then obtain m where m: "num_step n c = Some m" "num_acc m s" by (auto split: option.splits)
  then have "\<not> delimiter c"
    by (cases n) (auto simp: num_step_def delimiter_def json_space_def is_digit_def is_e_def byte_def split: if_splits)
  with Cons.IH [OF m(2)] show ?case by simp
qed simp

lemma token_no_delimiter:
  assumes "json_number s \<or> json_literal s"
  shows "list_all (\<lambda>c. \<not> delimiter c) s"
proof (cases "json_number s")
  case True
  then show ?thesis using accepted_no_delimiter [of NumStart s] by (simp add: acc_start)
next
  case False
  with assms show ?thesis by (auto simp: json_literal_def delimiter_def json_space_def byte_def)
qed

lemma feed_scalar:
  "list_all (\<lambda>c. \<not> delimiter c) s \<Longrightarrow> \<not> jf_bad j \<Longrightarrow> jf_mode j = ModeScalar \<Longrightarrow>
   json_feed j s = foldl sc_step j s \<or> jf_bad (json_feed j s) \<and> jf_bad (foldl sc_step j s)"
proof (induction s arbitrary: j)
  case (Cons c s)
  have b: "json_byte j c = sc_step j c" using Cons.prems by (simp add: byte_in_scalar)
  have m: "jf_mode (sc_step j c) = ModeScalar" using Cons.prems by (simp add: sc_step_def)
  show ?case
  proof (cases "jf_bad (sc_step j c)")
    case True
    with b sc_bad [OF True] json_feed_bad [OF True] show ?thesis by simp
  next
    case False
    with Cons.IH [OF _ False m] Cons.prems b show ?thesis by simp
  qed
qed simp

lemma end_scalar_value:
  assumes "json_number t \<or> json_literal t" "scalar_complete (in_scalar (f # fs) fl em sk t n l p)"
    "wanted (frames_path (f # fs)) \<Longrightarrow> length t \<le> 4096"
  shows "j_scalar (in_scalar (f # fs) fl em sk t n l p) =
    rdy (f\<lparr>f_state := AtComma\<rparr> # fs) (put_field (frames_path (f # fs)) t fl) em sk False"
proof (cases "wanted (frames_path (f # fs))")
  case True
  with assms show ?thesis
    by (simp add: j_scalar_def value_scalar_def in_scalar_def set_top_def reset_token_def rdy_def
        put_field_def j_path_def value_done_def json_valid_def Let_def)
next
  case False
  with assms show ?thesis
    by (simp add: j_scalar_def value_scalar_def in_scalar_def set_top_def reset_token_def rdy_def
        put_field_def j_path_def value_done_def scalar_complete_def Let_def)
qed

end
