(* ===== verification/JsonCorrect.thy ===== *)
theory JsonCorrect
  imports JsonScalar
begin

text \<open>
  What the recognizer computes. A JSON document is an abstract value with the texts the grammar of JSON
  gives it, white space included; \<open>select\<close> is a recursive reading of the selected fields from the
  value. Fed byte by byte with any text of a value within its limits, the recognizer arrives exactly
  at the fields that \<open>select\<close> reads.
\<close>

section \<open>JSON values and their texts\<close>

text \<open>A string is its body between the quotes, still escaped; a token is a number or literal.\<close>

datatype json = JStr string | JTok string | JArr "json list" | JObj "(string \<times> json) list"

abbreviation ws :: "string \<Rightarrow> bool" where "ws \<equiv> list_all json_space"

inductive json_text :: "json \<Rightarrow> string \<Rightarrow> bool"
  and json_items :: "json list \<Rightarrow> string \<Rightarrow> bool"
  and json_members :: "(string \<times> json) list \<Rightarrow> string \<Rightarrow> bool" where
  text_str: "valid_body b \<Longrightarrow> json_text (JStr b) (quote b)"
| text_tok: "json_number t \<or> json_literal t \<Longrightarrow> json_text (JTok t) t"
| text_arr0: "ws a \<Longrightarrow> json_text (JArr []) (''['' @ a @ '']'')"
| text_arr: "json_items vs s \<Longrightarrow> json_text (JArr vs) (''['' @ s @ '']'')"
| text_obj0: "ws a \<Longrightarrow> json_text (JObj []) (''{'' @ a @ ''}'')"
| text_obj: "json_members ms s \<Longrightarrow> json_text (JObj ms) (''{'' @ s @ ''}'')"
| items_one: "ws a \<Longrightarrow> json_text v s \<Longrightarrow> ws b \<Longrightarrow> json_items [v] (a @ s @ b)"
| items_more: "ws a \<Longrightarrow> json_text v s \<Longrightarrow> ws b \<Longrightarrow> json_items vs t \<Longrightarrow> json_items (v # vs) (a @ s @ b @ '','' @ t)"
| members_one: "ws a \<Longrightarrow> valid_body k \<Longrightarrow> ws b \<Longrightarrow> ws c \<Longrightarrow> json_text v s \<Longrightarrow> ws d \<Longrightarrow>
    json_members [(k, v)] (a @ quote k @ b @ '':'' @ c @ s @ d)"
| members_more: "ws a \<Longrightarrow> valid_body k \<Longrightarrow> ws b \<Longrightarrow> ws c \<Longrightarrow> json_text v s \<Longrightarrow> ws d \<Longrightarrow> json_members ms t \<Longrightarrow>
    json_members ((k, v) # ms) (a @ quote k @ b @ '':'' @ c @ s @ d @ '','' @ t)"

section \<open>The reference selection\<close>

text \<open>The path of a value: the names on the way to it, \<open>None\<close> inside an array.\<close>

definition join_names :: "string list \<Rightarrow> string" where
  "join_names ks = (case ks of [a] \<Rightarrow> a | [a, b] \<Rightarrow> a @ ''.'' @ b | [a, b, c] \<Rightarrow> a @ ''.'' @ b @ ''.'' @ c | _ \<Rightarrow> [])"

definition path_name :: "string list option \<Rightarrow> string" where
  "path_name p = (case p of
       None \<Rightarrow> []
     | Some ks \<Rightarrow> if length ks > 3 \<or> (\<exists>k \<in> set ks. CHR ''.'' \<in> set k) then [] else join_names ks)"

abbreviation down :: "string list option \<Rightarrow> string \<Rightarrow> string list option" where
  "down p k \<equiv> map_option (\<lambda>ks. ks @ [field_name k]) p"

fun select :: "string list option \<Rightarrow> json \<Rightarrow> fields \<Rightarrow> fields"
  and select_members :: "string list option \<Rightarrow> (string \<times> json) list \<Rightarrow> fields \<Rightarrow> fields" where
  "select p (JStr b) fl = put_field (path_name p) (quote b) fl"
| "select p (JTok t) fl = put_field (path_name p) t fl"
| "select p (JArr vs) fl = put_field (path_name p) ''[]'' fl"
| "select p (JObj ms) fl = select_members p ms (put_field (path_name p) ''{}'' fl)"
| "select_members p [] fl = fl"
| "select_members p ((k, v) # ms) fl = select_members p ms (select (down p k) v fl)"

text \<open>Nesting, the names that are too long to be read, and the size limit of the selected scalars.\<close>

fun depth :: "json \<Rightarrow> nat" and depths :: "json list \<Rightarrow> nat" and depth_members :: "(string \<times> json) list \<Rightarrow> nat" where
  "depth (JStr b) = 0"
| "depth (JTok t) = 0"
| "depth (JArr vs) = Suc (depths vs)"
| "depth (JObj ms) = Suc (depth_members ms)"
| "depths [] = 0"
| "depths (v # vs) = max (depth v) (depths vs)"
| "depth_members [] = 0"
| "depth_members ((k, v) # ms) = max (depth v) (depth_members ms)"

fun skips :: "json \<Rightarrow> bool" and skips_items :: "json list \<Rightarrow> bool" and skips_members :: "(string \<times> json) list \<Rightarrow> bool" where
  "skips (JStr b) = False"
| "skips (JTok t) = False"
| "skips (JArr vs) = skips_items vs"
| "skips (JObj ms) = skips_members ms"
| "skips_items [] = False"
| "skips_items (v # vs) = (skips v \<or> skips_items vs)"
| "skips_members [] = False"
| "skips_members ((k, v) # ms) = (long_key k \<or> skips v \<or> skips_members ms)"

definition fits_here :: "string list option \<Rightarrow> string \<Rightarrow> bool" where
  "fits_here p t \<longleftrightarrow> (wanted (path_name p) \<longrightarrow> length t \<le> 4096)"

fun fits :: "string list option \<Rightarrow> json \<Rightarrow> bool" and fits_members :: "string list option \<Rightarrow> (string \<times> json) list \<Rightarrow> bool" where
  "fits p (JStr b) = fits_here p (quote b)"
| "fits p (JTok t) = fits_here p t"
| "fits p (JArr vs) = True"
| "fits p (JObj ms) = fits_members p ms"
| "fits_members p [] = True"
| "fits_members p ((k, v) # ms) = (fits (down p k) v \<and> fits_members p ms)"

text \<open>Inside an array nothing is selected, so every value fits.\<close>

lemma not_wanted_nil [simp]: "\<not> wanted []"
  by (simp add: wanted_def wanted_paths_def)

lemma put_nil [simp]: "put_field [] t fl = fl"
  by (simp add: put_field_def)

lemma path_none [simp]: "path_name None = []"
  by (simp add: path_name_def)

lemma fits_none [simp]: "fits None v" "fits_members None ms"
  by (induction "None :: string list option" v and "None :: string list option" ms rule: fits_fits_members.induct)
    (simp_all add: fits_here_def)

lemma select_none [simp]: "select None v fl = fl" "select_members None ms fl = fl"
  by (induction "None :: string list option" v fl and "None :: string list option" ms fl rule: select_select_members.induct)
    simp_all

section \<open>Frames and paths\<close>

definition at_path :: "string list option \<Rightarrow> jframe list \<Rightarrow> bool" where
  "at_path p st \<longleftrightarrow> (case p of
       None \<Rightarrow> \<exists>f \<in> set st. f_kind f \<noteq> FObject
     | Some ks \<Rightarrow> (\<forall>f \<in> set st. f_kind f = FObject) \<and> map f_key (rev st) = ks)"

lemma frames_path_at: "at_path p st \<Longrightarrow> frames_path st = path_name p"
proof (cases p)
  case None
  moreover assume "at_path p st"
  ultimately show ?thesis by (auto simp: at_path_def frames_path_def)
next
  case (Some ks)
  assume "at_path p st"
  with Some have k: "\<forall>f \<in> set st. f_kind f = FObject" "ks = map f_key (rev st)" by (auto simp: at_path_def)
  have "(\<exists>f \<in> set st. f_kind f \<noteq> FObject \<or> CHR ''.'' \<in> set (f_key f)) = (\<exists>k \<in> set ks. CHR ''.'' \<in> set k)"
    using k by auto
  moreover have "(case rev st of [a] \<Rightarrow> f_key a | [a, b] \<Rightarrow> f_key a @ ''.'' @ f_key b
      | [a, b, c] \<Rightarrow> f_key a @ ''.'' @ f_key b @ ''.'' @ f_key c | _ \<Rightarrow> []) = join_names ks"
    unfolding k(2) join_names_def by (auto split: list.split)
  moreover have "length st = length ks" using k(2) by simp
  ultimately show ?thesis using Some by (simp add: frames_path_def path_name_def)
qed

lemma at_path_key:
  "at_path p fs \<Longrightarrow> f_kind f = FObject \<Longrightarrow> f_key f = field_name k \<Longrightarrow> at_path (down p k) (f # fs)"
  by (cases p) (auto simp: at_path_def)

lemma at_path_array: "f_kind f = FArray \<Longrightarrow> at_path None (f # fs)"
  by (simp add: at_path_def)

lemma at_path_state [simp]: "at_path p (f\<lparr>f_state := s\<rparr> # fs) = at_path p (f # fs)"
  by (cases p) (auto simp: at_path_def)

section \<open>Single bytes between tokens\<close>

lemma rdy_space: "json_space c \<Longrightarrow> json_byte (rdy st fl em sk kt) c = rdy st fl em sk kt"
  by (simp add: json_byte_def struct_byte_def)

lemma feed_space: "ws w \<Longrightarrow> json_feed (rdy st fl em sk kt) w = rdy st fl em sk kt"
  by (induction w) (simp_all add: rdy_space)

lemma punct_space [simp]:
  "\<not> json_space CHR ''{''" "\<not> json_space CHR ''}''" "\<not> json_space CHR ''[''" "\<not> json_space CHR '']''"
  "\<not> json_space CHR '','' " "\<not> json_space CHR '':''" "\<not> json_space CHR 0x22"
  by (simp_all add: json_space_def byte_def)

lemma delims [simp]: "delimiter CHR '',''" "delimiter CHR ''}''" "delimiter CHR '']''" "json_space c \<Longrightarrow> delimiter c"
  by (simp_all add: delimiter_def)

lemma rdy_updates [simp]:
  "(rdy st fl em sk kt)\<lparr>jf_key_token := k\<rparr> = rdy st fl em sk k"
  "(rdy st fl em sk kt)\<lparr>jf_fields := g\<rparr> = rdy st g em sk kt"
  "(rdy st fl em sk kt)\<lparr>jf_stack := s\<rparr> = rdy s fl em sk kt"
  "(rdy st fl em sk kt)\<lparr>jf_emitted := e\<rparr> = rdy st fl e sk kt"
  by (simp_all add: rdy_def)

lemma rdy_in_string:
  "j_append ((rdy st fl em sk k)\<lparr>jf_mode := ModeString\<rparr>) c = in_string st fl em sk k [c] False 0"
  by (simp add: rdy_def in_string_def j_append_def token_limit_def key_limit_def)

lemma rdy_set_top [simp]: "set_top (rdy (f # fs) fl em sk kt) g = rdy (g f # fs) fl em sk kt"
  by (simp add: set_top_def)

definition new_object :: jframe where "new_object = \<lparr>f_kind = FObject, f_state = FirstKey, f_key = []\<rparr>"
definition new_array :: jframe where "new_array = \<lparr>f_kind = FArray, f_state = FirstItem, f_key = []\<rparr>"

definition closed :: "jframe list \<Rightarrow> fields \<Rightarrow> fields list \<Rightarrow> bool \<Rightarrow> bool \<Rightarrow> jfields" where
  "closed fs fl em sk kt = (case fs of
       [] \<Rightarrow> rdy [] fl (em @ [fl]) sk kt
     | g # gs \<Rightarrow> rdy (g\<lparr>f_state := AtComma\<rparr> # gs) fl em sk kt)"

lemma byte_key:
  "f_state f = FirstKey \<or> f_state f = NextKey \<Longrightarrow>
   json_byte (rdy (f # fs) fl em sk kt) (CHR 0x22) = in_string (f # fs) fl em sk True [CHR 0x22] False 0"
  by (simp add: json_byte_def struct_byte_def rdy_in_string)

lemma byte_colon:
  "f_state f = AtColon \<Longrightarrow>
   json_byte (rdy (f # fs) fl em sk kt) (CHR '':'') = rdy (f\<lparr>f_state := AtValue\<rparr> # fs) fl em sk kt"
  by (simp add: json_byte_def struct_byte_def)

lemma byte_comma:
  "f_state f = AtComma \<Longrightarrow> json_byte (rdy (f # fs) fl em sk kt) (CHR '','') =
     rdy (f\<lparr>f_state := (if f_kind f = FObject then NextKey else AtValue)\<rparr> # fs) fl em sk kt"
  by (simp add: json_byte_def struct_byte_def)

lemma close_rdy:
  "c = CHR ''}'' \<and> f_kind f = FObject \<or> c = CHR '']'' \<and> f_kind f = FArray \<Longrightarrow>
   j_close (rdy (f # fs) fl em sk kt) c = closed fs fl em sk kt"
  by (cases fs) (auto simp: j_close_def closed_def value_done_def)

lemma byte_close_object:
  "f_state f = FirstKey \<or> f_state f = AtComma \<Longrightarrow> f_kind f = FObject \<Longrightarrow>
   json_byte (rdy (f # fs) fl em sk kt) (CHR ''}'') = closed fs fl em sk kt"
  by (auto simp: json_byte_def struct_byte_def close_rdy)

lemma byte_close_array:
  "f_state f = FirstItem \<or> f_state f = AtComma \<Longrightarrow> f_kind f = FArray \<Longrightarrow>
   json_byte (rdy (f # fs) fl em sk kt) (CHR '']'') = closed fs fl em sk kt"
  by (auto simp: json_byte_def struct_byte_def close_rdy)

lemma byte_value:
  "f_state f = AtValue \<or> f_state f = FirstItem \<Longrightarrow> \<not> json_space c \<Longrightarrow> c \<noteq> CHR '']'' \<Longrightarrow>
   json_byte (rdy (f # fs) fl em sk kt) c = start_value (rdy (f # fs) fl em sk kt) c"
  by (elim disjE) (simp_all add: json_byte_def struct_byte_def)

lemma start_string:
  "start_value (rdy st fl em sk kt) (CHR 0x22) = in_string st fl em sk False [CHR 0x22] False 0"
  by (simp add: start_value_def rdy_in_string)

lemma start_object:
  "length st < 64 \<Longrightarrow> start_value (rdy st fl em sk kt) (CHR ''{'') =
   rdy (new_object # st) (put_field (frames_path st) ''{}'' fl) em sk False"
  by (auto simp: start_value_def open_value_def j_path_def put_field_def new_object_def Let_def)

lemma start_array:
  "length st < 64 \<Longrightarrow> start_value (rdy st fl em sk kt) (CHR ''['') =
   rdy (new_array # st) (put_field (frames_path st) ''[]'' fl) em sk False"
  by (auto simp: start_value_def open_value_def j_path_def put_field_def new_array_def Let_def)

lemma start_scalar:
  "scalar_start c \<Longrightarrow> start_value (rdy st fl em sk kt) c = sc_step (in_scalar st fl em sk [] NumStart [] 0) c"
proof -
  assume s: "scalar_start c"
  have "(rdy st fl em sk False)\<lparr>jf_mode := ModeScalar\<rparr> = in_scalar st fl em sk [] NumStart [] 0"
    by (simp add: in_scalar_def rdy_def)
  moreover have "c \<noteq> CHR ''{''" "c \<noteq> CHR ''[''" "c \<noteq> CHR 0x22" using s by (auto simp: scalar_start_def)
  ultimately show ?thesis using s by (simp add: start_value_def sc_step_def)
qed

lemma top_object:
  "json_byte (rdy [] fl em sk kt) (CHR ''{'') = rdy [new_object] Map.empty em sk kt"
  by (simp add: json_byte_def struct_byte_def new_object_def)

section \<open>Scalars\<close>

lemma digit_scalar_start: "is_digit c \<Longrightarrow> scalar_start c"
proof -
  assume "is_digit c"
  then have "byte c \<in> {48 ..< 58}" by (simp add: is_digit_def)
  moreover have "\<forall>n \<in> {48 ..< 58 :: nat}. scalar_start (char_of n)" by code_simp
  ultimately have "scalar_start (char_of (byte c))" by blast
  then show ?thesis by (simp add: byte_def)
qed

lemma token_start: "json_number t \<or> json_literal t \<Longrightarrow> \<exists>c cs. t = c # cs \<and> scalar_start c"
proof (cases t)
  case Nil
  assume "json_number t \<or> json_literal t"
  with Nil acc_start [of t] show ?thesis by (simp add: json_literal_def)
next
  case (Cons c cs)
  assume t: "json_number t \<or> json_literal t"
  show ?thesis
  proof (cases "json_number t")
    case True
    then have "c = CHR ''-'' \<or> c = CHR ''0'' \<or> is_digit c"
      using acc_start [of t] Cons by (auto simp: num_step_def split: if_splits)
    moreover have "scalar_start CHR ''-''" "scalar_start CHR ''0''" by (simp_all add: scalar_start_def)
    ultimately show ?thesis using Cons digit_scalar_start by blast
  next
    case False
    with t Cons show ?thesis by (auto simp: json_literal_def scalar_start_def)
  qed
qed

text \<open>A scalar value and the delimiter that ends it.\<close>

definition value_done_at :: "jfields \<Rightarrow> string \<Rightarrow> jfields \<Rightarrow> bool" where
  "value_done_at j s j' \<longleftrightarrow> (\<forall>c. delimiter c \<longrightarrow> json_feed j (s @ [c]) = json_byte j' c)"

lemma value_done_now: "json_feed j s = j' \<Longrightarrow> value_done_at j s j'"
  by (simp add: value_done_at_def json_feed_append)

lemma done_space:
  assumes "value_done_at j s (rdy st fl em sk kt)" "ws b"
  shows "value_done_at j (s @ b) (rdy st fl em sk kt)"
  unfolding value_done_at_def
proof (intro allI impI)
  fix c assume c: "delimiter c"
  show "json_feed j ((s @ b) @ [c]) = json_byte (rdy st fl em sk kt) c"
  proof (cases b)
    case Nil
    with assms c show ?thesis by (simp add: value_done_at_def)
  next
    case (Cons d b')
    then have "json_feed j (s @ [d]) = rdy st fl em sk kt"
      using assms by (simp add: value_done_at_def rdy_space)
    then have "json_feed j (s @ b) = rdy st fl em sk kt"
      using Cons assms(2) feed_space [of b'] json_feed_append [of j "s @ [d]" b'] by simp
    then show ?thesis by (simp add: json_feed_append)
  qed
qed

lemma space_done: "ws a \<Longrightarrow> value_done_at (rdy st fl em sk kt) s j' \<Longrightarrow> value_done_at (rdy st fl em sk kt) (a @ s) j'"
  by (simp add: value_done_at_def json_feed_append feed_space)

lemma value_string:
  assumes "f_state f = AtValue \<or> f_state f = FirstItem" "at_path p (f # fs)" "valid_body b" "fits_here p (quote b)"
  shows "value_done_at (rdy (f # fs) fl em sk kt) (quote b)
    (rdy (f\<lparr>f_state := AtComma\<rparr> # fs) (put_field (path_name p) (quote b) fl) em sk False)"
proof (rule value_done_now)
  have "json_feed (rdy (f # fs) fl em sk kt) (quote b)
      = json_feed (in_string (f # fs) fl em sk False [CHR 0x22] False 0) (b @ [CHR 0x22])"
    using byte_value [OF assms(1), of "CHR 0x22" fs fl em sk kt] by (simp add: quote_def start_string)
  also have "\<dots> = rdy (f\<lparr>f_state := AtComma\<rparr> # fs) (put_field (frames_path (f # fs)) (quote b) fl) em sk False"
    using assms(4) frames_path_at [OF assms(2)]
    by (subst feed_string [OF assms(3)], subst end_string_value [OF assms(3)]) (simp_all add: fits_here_def)
  finally show "json_feed (rdy (f # fs) fl em sk kt) (quote b) =
      rdy (f\<lparr>f_state := AtComma\<rparr> # fs) (put_field (path_name p) (quote b) fl) em sk False"
    by (simp add: frames_path_at [OF assms(2)])
qed

lemma value_token:
  assumes "f_state f = AtValue \<or> f_state f = FirstItem" "at_path p (f # fs)" "json_number t \<or> json_literal t"
    "fits_here p t"
  shows "value_done_at (rdy (f # fs) fl em sk kt) t
    (rdy (f\<lparr>f_state := AtComma\<rparr> # fs) (put_field (path_name p) t fl) em sk False)"
  unfolding value_done_at_def
proof (intro allI impI)
  fix d assume d: "delimiter d"
  let ?s0 = "in_scalar (f # fs) fl em sk [] NumStart [] 0"
  obtain c cs where t: "t = c # cs" "scalar_start c" using token_start [OF assms(3)] by blast
  have nd: "list_all (\<lambda>c. \<not> delimiter c) t" by (rule token_no_delimiter [OF assms(3)])
  have sp: "\<not> json_space c" "c \<noteq> CHR '']''" using nd t(1) by (auto simp: delimiter_def)
  have acc: "sc_accepts (foldl sc_step ?s0 t)"
    and run: "\<exists>n l p. foldl sc_step ?s0 t = in_scalar (f # fs) fl em sk t n l p"
    using scalar_run [of "f # fs" fl em sk t] assms(3) by simp_all
  then obtain n l q where fin: "foldl sc_step ?s0 t = in_scalar (f # fs) fl em sk t n l q" by blast
  have step: "json_byte (rdy (f # fs) fl em sk kt) c = sc_step ?s0 c"
    using byte_value [OF assms(1) sp] start_scalar [OF t(2)] by simp
  have good: "\<not> jf_bad (sc_step ?s0 c)"
    using acc sc_bad [of "sc_step ?s0 c" cs] t(1) by (auto simp: sc_accepts_def)
  have "json_feed (sc_step ?s0 c) cs = foldl sc_step (sc_step ?s0 c) cs"
    using feed_scalar [of cs "sc_step ?s0 c"] nd t(1) good acc by (auto simp: sc_accepts_def sc_step_def)
  then have "json_feed (rdy (f # fs) fl em sk kt) t = in_scalar (f # fs) fl em sk t n l q"
    using fin step t(1) by simp
  moreover have "j_scalar (in_scalar (f # fs) fl em sk t n l q) =
      rdy (f\<lparr>f_state := AtComma\<rparr> # fs) (put_field (path_name p) t fl) em sk False"
    using end_scalar_value [OF assms(3), of f fs fl em sk n l q] acc fin assms(4) frames_path_at [OF assms(2)]
    by (simp add: sc_accepts_def fits_here_def)
  ultimately show "json_feed (rdy (f # fs) fl em sk kt) (t @ [d]) =
      json_byte (rdy (f\<lparr>f_state := AtComma\<rparr> # fs) (put_field (path_name p) t fl) em sk False) d"
    using d scalar_then_byte [of "in_scalar (f # fs) fl em sk t n l q" d] by (simp add: json_feed_append)
qed

section \<open>Values, items and members\<close>

lemma done_then:
  assumes "value_done_at j s r" "delimiter c" "value_done_at (json_byte r c) t r'"
  shows "value_done_at j (s @ c # t) r'"
  using assms json_feed_append [of j "s @ [c]"] by (simp add: value_done_at_def)

lemma feed_done:
  assumes "json_feed j x = i" "value_done_at i s r"
  shows "value_done_at j (x @ s) r"
  using assms by (simp add: value_done_at_def json_feed_append)

lemma done_close: "value_done_at j s r \<Longrightarrow> delimiter c \<Longrightarrow> json_feed j (s @ [c]) = json_byte r c"
  by (simp add: value_done_at_def)

lemma feed_key:
  assumes "f_state f = FirstKey \<or> f_state f = NextKey" "valid_body k"
  shows "json_feed (rdy (f # fs) fl em sk kt) (quote k) =
    rdy (f\<lparr>f_key := field_name k, f_state := AtColon\<rparr> # fs) fl em (sk \<or> long_key k) True"
proof -
  have "json_feed (rdy (f # fs) fl em sk kt) (quote k)
      = json_feed (in_string (f # fs) fl em sk True [CHR 0x22] False 0) (k @ [CHR 0x22])"
    by (simp add: quote_def byte_key [OF assms(1)])
  then show ?thesis by (simp add: feed_string [OF assms(2)] end_key [OF assms(2)])
qed

text \<open>A member up to its value.\<close>

lemma feed_member:
  assumes "f_state f = FirstKey \<or> f_state f = NextKey" "valid_body k" "ws a" "ws b" "ws c"
  shows "json_feed (rdy (f # fs) fl em sk kt) (a @ quote k @ b @ '':'' @ c) =
    rdy (f\<lparr>f_key := field_name k, f_state := AtValue\<rparr> # fs) fl em (sk \<or> long_key k) True"
  using assms by (simp add: json_feed_append feed_space feed_key byte_colon)

definition value_ok :: "json \<Rightarrow> string \<Rightarrow> bool" where
  "value_ok v s \<longleftrightarrow> (\<forall>f fs fl em sk kt p.
     (f_state f = AtValue \<or> f_state f = FirstItem) \<longrightarrow> at_path p (f # fs) \<longrightarrow>
     length (f # fs) + depth v \<le> 64 \<longrightarrow> fits p v \<longrightarrow>
     (\<exists>kt'. value_done_at (rdy (f # fs) fl em sk kt) s
        (rdy (f\<lparr>f_state := AtComma\<rparr> # fs) (select p v fl) em (sk \<or> skips v) kt')))"

definition items_ok :: "json list \<Rightarrow> string \<Rightarrow> bool" where
  "items_ok vs s \<longleftrightarrow> (\<forall>f fs fl em sk kt. f_kind f = FArray \<longrightarrow>
     (f_state f = AtValue \<or> f_state f = FirstItem) \<longrightarrow> length (f # fs) + depths vs \<le> 64 \<longrightarrow>
     (\<exists>kt'. value_done_at (rdy (f # fs) fl em sk kt) s
        (rdy (f\<lparr>f_state := AtComma\<rparr> # fs) fl em (sk \<or> skips_items vs) kt')))"

definition members_ok :: "(string \<times> json) list \<Rightarrow> string \<Rightarrow> bool" where
  "members_ok ms s \<longleftrightarrow> (\<forall>f fs fl em sk kt p. f_kind f = FObject \<longrightarrow>
     (f_state f = FirstKey \<or> f_state f = NextKey) \<longrightarrow> at_path p fs \<longrightarrow>
     length (f # fs) + depth_members ms \<le> 64 \<longrightarrow> fits_members p ms \<longrightarrow>
     (\<exists>kt' k. value_done_at (rdy (f # fs) fl em sk kt) s
        (rdy (f\<lparr>f_key := k, f_state := AtComma\<rparr> # fs) (select_members p ms fl) em (sk \<or> skips_members ms) kt')))"

lemma value_okD:
  assumes "value_ok v s" "f_state f = AtValue \<or> f_state f = FirstItem" "at_path p (f # fs)"
    "length (f # fs) + depth v \<le> 64" "fits p v"
  obtains kt' where "value_done_at (rdy (f # fs) fl em sk kt) s
    (rdy (f\<lparr>f_state := AtComma\<rparr> # fs) (select p v fl) em (sk \<or> skips v) kt')"
  using assms unfolding value_ok_def by blast

lemma item_done:
  assumes "value_ok v s" "ws a" "ws b" "f_kind f = FArray" "f_state f = AtValue \<or> f_state f = FirstItem"
    "length (f # fs) + depth v \<le> 64"
  obtains kt' where "value_done_at (rdy (f # fs) fl em sk kt) (a @ s @ b)
    (rdy (f\<lparr>f_state := AtComma\<rparr> # fs) fl em (sk \<or> skips v) kt')"
proof -
  obtain kt' where "value_done_at (rdy (f # fs) fl em sk kt) s
      (rdy (f\<lparr>f_state := AtComma\<rparr> # fs) (select None v fl) em (sk \<or> skips v) kt')"
    by (rule value_okD [OF assms(1,5) at_path_array [OF assms(4)] assms(6)]) simp
  then have "value_done_at (rdy (f # fs) fl em sk kt) (s @ b)
      (rdy (f\<lparr>f_state := AtComma\<rparr> # fs) fl em (sk \<or> skips v) kt')"
    using done_space [OF _ assms(3)] by simp
  then show thesis using that space_done [OF assms(2)] by blast
qed

lemma member_done:
  assumes "value_ok v s" "ws a" "ws b" "ws c" "ws d" "valid_body k" "f_kind f = FObject"
    "f_state f = FirstKey \<or> f_state f = NextKey" "at_path p fs" "length (f # fs) + depth v \<le> 64" "fits (down p k) v"
  obtains kt' where "value_done_at (rdy (f # fs) fl em sk kt) (a @ quote k @ b @ '':'' @ c @ s @ d)
    (rdy (f\<lparr>f_key := field_name k, f_state := AtComma\<rparr> # fs) (select (down p k) v fl) em
      (sk \<or> long_key k \<or> skips v) kt')"
proof -
  let ?f = "f\<lparr>f_key := field_name k, f_state := AtValue\<rparr>"
  have at: "at_path (down p k) (?f # fs)" using assms(7) by (intro at_path_key [OF assms(9)]) simp_all
  have g: "f_state ?f = AtValue \<or> f_state ?f = FirstItem" "length (?f # fs) + depth v \<le> 64" using assms(10) by simp_all
  obtain kt' where "value_done_at (rdy (?f # fs) fl em (sk \<or> long_key k) True) s
      (rdy (?f\<lparr>f_state := AtComma\<rparr> # fs) (select (down p k) v fl) em ((sk \<or> long_key k) \<or> skips v) kt')"
    by (rule value_okD [OF assms(1) g(1) at g(2) assms(11)])
  then have "value_done_at (rdy (?f # fs) fl em (sk \<or> long_key k) True) (s @ d)
      (rdy (f\<lparr>f_key := field_name k, f_state := AtComma\<rparr> # fs) (select (down p k) v fl) em
        (sk \<or> long_key k \<or> skips v) kt')"
    using done_space [OF _ assms(5)] by (simp add: disj_assoc)
  from feed_done [OF feed_member [OF assms(8,6,2,3,4)] this] show thesis by (intro that) simp
qed

lemma array_done:
  assumes "f_state f = AtValue \<or> f_state f = FirstItem" "at_path p (f # fs)" "length (f # fs) < 64"
    "value_done_at (rdy (new_array # f # fs) (put_field (path_name p) ''[]'' fl) em sk False) s
       (rdy (g # f # fs) fl' em sk' kt')" "f_kind g = FArray" "f_state g = FirstItem \<or> f_state g = AtComma"
  shows "value_done_at (rdy (f # fs) fl em sk kt) (''['' @ s @ '']'') (rdy (f\<lparr>f_state := AtComma\<rparr> # fs) fl' em sk' kt')"
proof (rule value_done_now)
  have "json_feed (rdy (f # fs) fl em sk kt) (''['' @ s @ '']'') =
      json_feed (rdy (new_array # f # fs) (put_field (path_name p) ''[]'' fl) em sk False) (s @ '']'')"
    using byte_value [OF assms(1), of "CHR ''[''"] start_array [OF assms(3)] frames_path_at [OF assms(2)] by simp
  also have "\<dots> = json_byte (rdy (g # f # fs) fl' em sk' kt') (CHR '']'')"
    by (rule done_close [OF assms(4)]) simp
  finally show "json_feed (rdy (f # fs) fl em sk kt) (''['' @ s @ '']'') = rdy (f\<lparr>f_state := AtComma\<rparr> # fs) fl' em sk' kt'"
    using assms(5,6) by (simp add: byte_close_array closed_def)
qed

lemma object_done:
  assumes "f_state f = AtValue \<or> f_state f = FirstItem" "at_path p (f # fs)" "length (f # fs) < 64"
    "value_done_at (rdy (new_object # f # fs) (put_field (path_name p) ''{}'' fl) em sk False) s
       (rdy (g # f # fs) fl' em sk' kt')" "f_kind g = FObject" "f_state g = FirstKey \<or> f_state g = AtComma"
  shows "value_done_at (rdy (f # fs) fl em sk kt) (''{'' @ s @ ''}'') (rdy (f\<lparr>f_state := AtComma\<rparr> # fs) fl' em sk' kt')"
proof (rule value_done_now)
  have "json_feed (rdy (f # fs) fl em sk kt) (''{'' @ s @ ''}'') =
      json_feed (rdy (new_object # f # fs) (put_field (path_name p) ''{}'' fl) em sk False) (s @ ''}'')"
    using byte_value [OF assms(1), of "CHR ''{''"] start_object [OF assms(3)] frames_path_at [OF assms(2)] by simp
  also have "\<dots> = json_byte (rdy (g # f # fs) fl' em sk' kt') (CHR ''}'')"
    by (rule done_close [OF assms(4)]) simp
  finally show "json_feed (rdy (f # fs) fl em sk kt) (''{'' @ s @ ''}'') = rdy (f\<lparr>f_state := AtComma\<rparr> # fs) fl' em sk' kt'"
    using assms(5,6) by (simp add: byte_close_object closed_def)
qed

lemma new_frames [simp]:
  "f_kind new_object = FObject" "f_state new_object = FirstKey" "f_kind new_array = FArray" "f_state new_array = FirstItem"
  by (simp_all add: new_object_def new_array_def)

lemma space_only: "ws a \<Longrightarrow> value_done_at (rdy st fl em sk kt) a (rdy st fl em sk kt)"
  by (rule value_done_now) (rule feed_space)

lemma array_ok:
  assumes "items_ok vs s"
  shows "value_ok (JArr vs) (''['' @ s @ '']'')"
  unfolding value_ok_def
proof (intro allI impI)
  fix f :: jframe and fs fl em sk kt p
  assume f: "f_state f = AtValue \<or> f_state f = FirstItem" "at_path p (f # fs)" "length (f # fs) + depth (JArr vs) \<le> 64"
  have "length (new_array # f # fs) + depths vs \<le> 64" using f(3) by simp
  then obtain kt' where "value_done_at (rdy (new_array # f # fs) (put_field (path_name p) ''[]'' fl) em sk False) s
      (rdy (new_array\<lparr>f_state := AtComma\<rparr> # f # fs) (put_field (path_name p) ''[]'' fl) em (sk \<or> skips_items vs) kt')"
    using assms unfolding items_ok_def by (metis new_frames(3,4))
  from array_done [OF f(1,2) _ this] f(3)
  show "\<exists>kt'. value_done_at (rdy (f # fs) fl em sk kt) (''['' @ s @ '']'')
      (rdy (f\<lparr>f_state := AtComma\<rparr> # fs) (select p (JArr vs) fl) em (sk \<or> skips (JArr vs)) kt')"
    by (intro exI [of _ kt']) simp
qed

lemma object_ok:
  assumes "members_ok ms s"
  shows "value_ok (JObj ms) (''{'' @ s @ ''}'')"
  unfolding value_ok_def
proof (intro allI impI)
  fix f :: jframe and fs fl em sk kt p
  assume f: "f_state f = AtValue \<or> f_state f = FirstItem" "at_path p (f # fs)" "length (f # fs) + depth (JObj ms) \<le> 64"
    "fits p (JObj ms)"
  have l: "length (new_object # f # fs) + depth_members ms \<le> 64" using f(3) by simp
  obtain kt' k where d: "value_done_at (rdy (new_object # f # fs) (put_field (path_name p) ''{}'' fl) em sk False) s
      (rdy (new_object\<lparr>f_key := k, f_state := AtComma\<rparr> # f # fs)
        (select_members p ms (put_field (path_name p) ''{}'' fl)) em (sk \<or> skips_members ms) kt')"
    using assms f(2,4) l unfolding members_ok_def by (metis fits.simps(4) new_frames(1,2))
  from object_done [OF f(1,2) _ d] f(3)
  show "\<exists>kt'. value_done_at (rdy (f # fs) fl em sk kt) (''{'' @ s @ ''}'')
      (rdy (f\<lparr>f_state := AtComma\<rparr> # fs) (select p (JObj ms) fl) em (sk \<or> skips (JObj ms)) kt')"
    by (intro exI [of _ kt']) simp
qed

lemma empty_array_ok: "ws a \<Longrightarrow> value_ok (JArr []) (''['' @ a @ '']'')"
  unfolding value_ok_def
proof (intro allI impI)
  fix f :: jframe and fs fl em sk kt p
  assume a: "ws a" and f: "f_state f = AtValue \<or> f_state f = FirstItem" "at_path p (f # fs)"
    "length (f # fs) + depth (JArr []) \<le> 64"
  have l: "length (f # fs) < 64" using f(3) by simp
  show "\<exists>kt'. value_done_at (rdy (f # fs) fl em sk kt) (''['' @ a @ '']'')
      (rdy (f\<lparr>f_state := AtComma\<rparr> # fs) (select p (JArr []) fl) em (sk \<or> skips (JArr [])) kt')"
    by (rule exI [of _ False])
      (use array_done [OF f(1,2) l space_only [OF a] new_frames(3) disjI1 [OF new_frames(4)]] in simp)
qed

lemma empty_object_ok: "ws a \<Longrightarrow> value_ok (JObj []) (''{'' @ a @ ''}'')"
  unfolding value_ok_def
proof (intro allI impI)
  fix f :: jframe and fs fl em sk kt p
  assume a: "ws a" and f: "f_state f = AtValue \<or> f_state f = FirstItem" "at_path p (f # fs)"
    "length (f # fs) + depth (JObj []) \<le> 64"
  have l: "length (f # fs) < 64" using f(3) by simp
  show "\<exists>kt'. value_done_at (rdy (f # fs) fl em sk kt) (''{'' @ a @ ''}'')
      (rdy (f\<lparr>f_state := AtComma\<rparr> # fs) (select p (JObj []) fl) em (sk \<or> skips (JObj [])) kt')"
    by (rule exI [of _ False])
      (use object_done [OF f(1,2) l space_only [OF a] new_frames(1) disjI1 [OF new_frames(2)]] in simp)
qed

lemma items_one_ok:
  assumes "ws a" "value_ok v s" "ws b"
  shows "items_ok [v] (a @ s @ b)"
  unfolding items_ok_def
proof (intro allI impI)
  fix f :: jframe and fs fl em sk kt
  assume f: "f_kind f = FArray" "f_state f = AtValue \<or> f_state f = FirstItem" "length (f # fs) + depths [v] \<le> 64"
  have "length (f # fs) + depth v \<le> 64" using f(3) by simp
  obtain k1 where "value_done_at (rdy (f # fs) fl em sk kt) (a @ s @ b)
      (rdy (f\<lparr>f_state := AtComma\<rparr> # fs) fl em (sk \<or> skips v) k1)"
    by (rule item_done [OF assms(2,1,3) f(1,2) \<open>length (f # fs) + depth v \<le> 64\<close>])
  then show "\<exists>kt'. value_done_at (rdy (f # fs) fl em sk kt) (a @ s @ b)
      (rdy (f\<lparr>f_state := AtComma\<rparr> # fs) fl em (sk \<or> skips_items [v]) kt')"
    by (intro exI [of _ k1]) simp
qed

lemma items_more_ok:
  assumes "ws a" "value_ok v s" "ws b" "items_ok vs t"
  shows "items_ok (v # vs) (a @ s @ b @ '','' @ t)"
  unfolding items_ok_def
proof (intro allI impI)
  fix f :: jframe and fs fl em sk kt
  assume f: "f_kind f = FArray" "f_state f = AtValue \<or> f_state f = FirstItem" "length (f # fs) + depths (v # vs) \<le> 64"
  let ?g = "f\<lparr>f_state := AtValue\<rparr>"
  have l: "length (f # fs) + depth v \<le> 64" "length (?g # fs) + depths vs \<le> 64" using f(3) by simp_all
  obtain k1 where d: "value_done_at (rdy (f # fs) fl em sk kt) (a @ s @ b)
      (rdy (f\<lparr>f_state := AtComma\<rparr> # fs) fl em (sk \<or> skips v) k1)"
    by (rule item_done [OF assms(2,1,3) f(1,2) l(1)])
  have c: "json_byte (rdy (f\<lparr>f_state := AtComma\<rparr> # fs) fl em (sk \<or> skips v) k1) (CHR '','') =
      rdy (?g # fs) fl em (sk \<or> skips v) k1"
    using f(1) by (simp add: byte_comma)
  have g: "f_kind ?g = FArray" "f_state ?g = AtValue" using f(1) by simp_all
  obtain k2 where e: "value_done_at (rdy (?g # fs) fl em (sk \<or> skips v) k1) t
      (rdy (?g\<lparr>f_state := AtComma\<rparr> # fs) fl em ((sk \<or> skips v) \<or> skips_items vs) k2)"
    using assms(4) g l(2) unfolding items_ok_def by blast
  from done_then [OF d delims(1), unfolded c, OF e]
  show "\<exists>kt'. value_done_at (rdy (f # fs) fl em sk kt) (a @ s @ b @ '','' @ t)
      (rdy (f\<lparr>f_state := AtComma\<rparr> # fs) fl em (sk \<or> skips_items (v # vs)) kt')"
    by (intro exI [of _ k2]) (simp add: disj_assoc)
qed

lemma members_one_ok:
  assumes "ws a" "valid_body k" "ws b" "ws c" "value_ok v s" "ws d"
  shows "members_ok [(k, v)] (a @ quote k @ b @ '':'' @ c @ s @ d)"
  unfolding members_ok_def
proof (intro allI impI)
  fix f :: jframe and fs fl em sk kt p
  assume f: "f_kind f = FObject" "f_state f = FirstKey \<or> f_state f = NextKey" "at_path p fs"
    "length (f # fs) + depth_members [(k, v)] \<le> 64" "fits_members p [(k, v)]"
  have l: "length (f # fs) + depth v \<le> 64" "fits (down p k) v" using f(4,5) by simp_all
  obtain k1 where "value_done_at (rdy (f # fs) fl em sk kt) (a @ quote k @ b @ '':'' @ c @ s @ d)
      (rdy (f\<lparr>f_key := field_name k, f_state := AtComma\<rparr> # fs) (select (down p k) v fl) em
        (sk \<or> long_key k \<or> skips v) k1)"
    by (rule member_done [OF assms(5,1,3,4,6,2) f(1-3) l])
  then show "\<exists>kt' k'. value_done_at (rdy (f # fs) fl em sk kt) (a @ quote k @ b @ '':'' @ c @ s @ d)
      (rdy (f\<lparr>f_key := k', f_state := AtComma\<rparr> # fs) (select_members p [(k, v)] fl) em
        (sk \<or> skips_members [(k, v)]) kt')"
    by (intro exI [of _ k1] exI [of _ "field_name k"]) simp
qed

lemma members_more_ok:
  assumes "ws a" "valid_body k" "ws b" "ws c" "value_ok v s" "ws d" "members_ok ms t"
  shows "members_ok ((k, v) # ms) (a @ quote k @ b @ '':'' @ c @ s @ d @ '','' @ t)"
  unfolding members_ok_def
proof (intro allI impI)
  fix f :: jframe and fs fl em sk kt p
  assume f: "f_kind f = FObject" "f_state f = FirstKey \<or> f_state f = NextKey" "at_path p fs"
    "length (f # fs) + depth_members ((k, v) # ms) \<le> 64" "fits_members p ((k, v) # ms)"
  let ?g = "f\<lparr>f_key := field_name k, f_state := NextKey\<rparr>" and ?fl = "select (down p k) v fl"
    and ?sk = "sk \<or> long_key k \<or> skips v"
  have l: "length (f # fs) + depth v \<le> 64" "fits (down p k) v"
    "length (?g # fs) + depth_members ms \<le> 64" "fits_members p ms" using f(4,5) by simp_all
  obtain k1 where d: "value_done_at (rdy (f # fs) fl em sk kt) (a @ quote k @ b @ '':'' @ c @ s @ d)
      (rdy (f\<lparr>f_key := field_name k, f_state := AtComma\<rparr> # fs) ?fl em ?sk k1)"
    by (rule member_done [OF assms(5,1,3,4,6,2) f(1-3) l(1,2)])
  have c: "json_byte (rdy (f\<lparr>f_key := field_name k, f_state := AtComma\<rparr> # fs) ?fl em ?sk k1) (CHR '','') =
      rdy (?g # fs) ?fl em ?sk k1"
    using f(1) by (simp add: byte_comma)
  have g: "f_kind ?g = FObject" "f_state ?g = NextKey" using f(1) by simp_all
  obtain k2 k' where e: "value_done_at (rdy (?g # fs) ?fl em ?sk k1) t
      (rdy (?g\<lparr>f_key := k', f_state := AtComma\<rparr> # fs) (select_members p ms ?fl) em (?sk \<or> skips_members ms) k2)"
    using assms(7) g f(3) l(3,4) unfolding members_ok_def by blast
  from done_then [OF d delims(1), unfolded c, OF e]
  show "\<exists>kt' k'. value_done_at (rdy (f # fs) fl em sk kt) (a @ quote k @ b @ '':'' @ c @ s @ d @ '','' @ t)
      (rdy (f\<lparr>f_key := k', f_state := AtComma\<rparr> # fs) (select_members p ((k, v) # ms) fl) em
        (sk \<or> skips_members ((k, v) # ms)) kt')"
    by (intro exI [of _ k2] exI [of _ k']) (simp add: disj_assoc)
qed

lemma str_ok: "valid_body b \<Longrightarrow> value_ok (JStr b) (quote b)"
  unfolding value_ok_def using value_string by fastforce

lemma tok_ok: "json_number t \<or> json_literal t \<Longrightarrow> value_ok (JTok t) t"
  unfolding value_ok_def using value_token by fastforce

lemma texts_ok:
  "json_text v s \<Longrightarrow> value_ok v s"
  "json_items vs s \<Longrightarrow> items_ok vs s"
  "json_members ms s \<Longrightarrow> members_ok ms s"
  by (induction rule: json_text_json_items_json_members.inducts)
    (rule str_ok tok_ok empty_array_ok array_ok empty_object_ok object_ok items_one_ok items_more_ok
      members_one_ok members_more_ok; assumption)+

section \<open>Streams of objects\<close>

text \<open>Top-level objects one after the other, as in a native streaming response.\<close>

inductive json_stream :: "(string \<times> json) list list \<Rightarrow> string \<Rightarrow> bool" where
  stream_end: "ws a \<Longrightarrow> json_stream [] a"
| stream_more: "ws a \<Longrightarrow> json_text (JObj ms) s \<Longrightarrow> json_stream os t \<Longrightarrow> json_stream (ms # os) (a @ s @ t)"

inductive_cases object_text_cases: "json_text (JObj ms) s"

definition selected :: "(string \<times> json) list \<Rightarrow> fields" where
  "selected ms = select_members (Some []) ms Map.empty"

definition within_limits :: "(string \<times> json) list \<Rightarrow> bool" where
  "within_limits ms \<longleftrightarrow> depth (JObj ms) \<le> 64 \<and> fits_members (Some []) ms"

lemma feed_top:
  assumes "json_text (JObj ms) s" "within_limits ms"
  obtains kt' where "json_feed (rdy [] fl em sk kt) s = rdy [] (selected ms) (em @ [selected ms]) (sk \<or> skips_members ms) kt'"
proof -
  have inner: "\<exists>kt' g. value_done_at (rdy [new_object] Map.empty em sk kt) t (rdy [g] (selected ms) em (sk \<or> skips_members ms) kt')
      \<and> f_kind g = FObject \<and> (f_state g = FirstKey \<or> f_state g = AtComma)"
    if t: "ws t \<and> ms = [] \<or> json_members ms t" for t
    using t
  proof
    assume "ws t \<and> ms = []"
    then show ?thesis using space_only [of t "[new_object]" Map.empty em sk kt]
      by (intro exI [of _ kt] exI [of _ new_object]) (simp add: selected_def)
  next
    assume "json_members ms t"
    from texts_ok(3) [OF this] have m: "members_ok ms t" .
    have "length [new_object] + depth_members ms \<le> 64" "fits_members (Some []) ms" "at_path (Some []) []"
      using assms(2) by (simp_all add: within_limits_def at_path_def)
    then obtain kt' k where d: "value_done_at (rdy [new_object] Map.empty em sk kt) t
        (rdy [new_object\<lparr>f_key := k, f_state := AtComma\<rparr>] (selected ms) em (sk \<or> skips_members ms) kt')"
      using m unfolding members_ok_def selected_def by (metis new_frames(1,2))
    then show ?thesis
      by (intro exI [of _ kt'] exI [of _ "new_object\<lparr>f_key := k, f_state := AtComma\<rparr>"]) simp
  qed
  obtain t where s: "s = ''{'' @ t @ ''}''" and t: "ws t \<and> ms = [] \<or> json_members ms t"
    using assms(1) by (rule object_text_cases) auto
  obtain kt' g where d: "value_done_at (rdy [new_object] Map.empty em sk kt) t (rdy [g] (selected ms) em (sk \<or> skips_members ms) kt')"
    and g: "f_kind g = FObject" "f_state g = FirstKey \<or> f_state g = AtComma"
    using inner [OF t] by blast
  have "json_feed (rdy [] fl em sk kt) s = json_feed (rdy [new_object] Map.empty em sk kt) (t @ ''}'')"
    by (simp add: s top_object)
  also have "\<dots> = json_byte (rdy [g] (selected ms) em (sk \<or> skips_members ms) kt') (CHR ''}'')"
    by (rule done_close [OF d]) simp
  also have "\<dots> = rdy [] (selected ms) (em @ [selected ms]) (sk \<or> skips_members ms) kt'"
    using g by (simp add: byte_close_object closed_def)
  finally show thesis by (rule that)
qed

lemma feed_stream:
  "json_stream os s \<Longrightarrow> list_all within_limits os \<Longrightarrow>
   \<exists>fl' kt'. json_feed (rdy [] fl em sk kt) s =
     rdy [] fl' (em @ map selected os) (sk \<or> list_ex skips_members os) kt'"
proof (induction arbitrary: fl em sk kt rule: json_stream.induct)
  case (stream_end a)
  have "json_feed (rdy [] fl em sk kt) a = rdy [] fl em sk kt" by (rule feed_space [OF stream_end.hyps])
  then show ?case by (intro exI [of _ fl] exI [of _ kt]) simp
next
  case (stream_more a ms s os t)
  have l: "within_limits ms" "list_all within_limits os" using stream_more.prems by simp_all
  obtain k1 where f: "json_feed (rdy [] fl em sk kt) s =
      rdy [] (selected ms) (em @ [selected ms]) (sk \<or> skips_members ms) k1"
    by (rule feed_top [OF stream_more.hyps(2) l(1)])
  obtain fl' k2 where "json_feed (rdy [] (selected ms) (em @ [selected ms]) (sk \<or> skips_members ms) k1) t =
      rdy [] fl' ((em @ [selected ms]) @ map selected os) ((sk \<or> skips_members ms) \<or> list_ex skips_members os) k2"
    using stream_more.IH [OF l(2)] by blast
  then show ?case
    by (intro exI [of _ fl'] exI [of _ k2]) (simp add: json_feed_append feed_space [OF stream_more.hyps(1)] f disj_assoc)
qed

section \<open>Properties\<close>

lemma rdy_complete [simp]: "json_complete (rdy [] fl em sk kt)"
  by (simp add: json_complete_def)

text \<open>C4. The streaming recognizer agrees with a recursive reading of the document: fed byte by byte with
  any text (any white space, escapes, nesting up to 64 and sizes of unselected values) of a sequence
  of JSON objects whose selected scalars are at most 4096 bytes, it ends complete, has emitted for
  each object exactly the fields that \<open>select\<close> reads from its value, the last member of a name
  winning, and has noted exactly whether some field name was too long.\<close>

theorem recognizer_correct:
  assumes "json_stream os s" "list_all within_limits os"
  shows "json_complete (json_feed new_jfields s) \<and>
    jf_emitted (json_feed new_jfields s) = map selected os \<and>
    jf_key_skipped (json_feed new_jfields s) = list_ex skips_members os"
  using feed_stream [OF assms, of Map.empty "[]" False False] by (auto simp: new_jfields_rdy)

lemma demo_stream: "json_stream [[(''done'', JTok ''true'')]] (''{'' @ quote ''done'' @ '':true} '')"
proof -
  have t: "json_text (JTok ''true'') ''true''" by (rule text_tok) (simp add: json_literal_def)
  have v: "valid_body ''done''" by (simp add: byte_def)
  have "json_text (JObj [(''done'', JTok ''true'')]) (''{'' @ ([] @ quote ''done'' @ [] @ '':'' @ [] @ ''true'' @ []) @ ''}'')"
    by (intro text_obj members_one t v) simp_all
  from stream_more [OF _ this stream_end, of "[]" "'' ''"] show ?thesis
    by (simp add: json_space_def byte_def)
qed

lemma demo_selected:
  "within_limits [(''done'', JTok ''true'')]" "selected [(''done'', JTok ''true'')] = [''done'' \<mapsto> ''true'']"
  "\<not> skips_members [(''done'', JTok ''true'')]"
proof -
  have u: "field_name ''done'' = ''done''" "\<not> long_key ''done''" by code_simp+
  have w: "wanted ''done''" by (simp add: wanted_def wanted_paths_def)
  show "within_limits [(''done'', JTok ''true'')]" by (simp add: within_limits_def fits_here_def)
  show "selected [(''done'', JTok ''true'')] = [''done'' \<mapsto> ''true'']"
    by (simp add: selected_def u path_name_def join_names_def put_field_def w)
  show "\<not> skips_members [(''done'', JTok ''true'')]" by (simp add: u)
qed

theorem recognizer_correct_witness:
  "jf_emitted (json_feed new_jfields (''{'' @ quote ''done'' @ '':true} '')) = [[''done'' \<mapsto> ''true'']]"
  using recognizer_correct [OF demo_stream] demo_selected by simp

text \<open>The scalar automaton is exact: a token that starts like a scalar and contains no delimiter, read
  as the value of a member, is accepted exactly when it is a JSON number or one of the three
  literals, however long it is and although only 4096 bytes of it are kept.\<close>

theorem scalar_automaton_exact:
  assumes "list_all (\<lambda>c. \<not> delimiter c) (c # cs)" "scalar_start c"
  shows "(let j = json_feed (json_feed new_jfields (''{'' @ quote ''k'' @ '':'')) (c # cs) in
     \<not> jf_bad j \<and> scalar_complete j) = (json_number (c # cs) \<or> json_literal (c # cs))"
proof -
  have v: "valid_body ''k''" by (simp add: byte_def)
  let ?f = "new_object\<lparr>f_key := field_name ''k'', f_state := AtValue\<rparr>"
  let ?s0 = "in_scalar [?f] Map.empty [] False [] NumStart [] 0"
  have o: "json_byte (rdy [] Map.empty [] False False) (CHR ''{'') = rdy [new_object] Map.empty [] False False"
    by (rule top_object)
  have m: "json_feed (rdy [new_object] Map.empty [] False False) ([] @ quote ''k'' @ [] @ '':'' @ []) =
      rdy [?f] Map.empty [] (False \<or> long_key ''k'') True"
    by (rule feed_member [OF _ v]) simp_all
  have k: "\<not> long_key ''k''" by (simp add: long_key_def quote_def)
  have i: "json_feed new_jfields (''{'' @ quote ''k'' @ '':'') = rdy [?f] Map.empty [] False True"
    using o m k by (simp add: new_jfields_rdy)
  have sp: "\<not> json_space c" "c \<noteq> CHR '']''" using assms(1) by (auto simp: delimiter_def)
  have b: "json_byte (rdy [?f] Map.empty [] False True) c = sc_step ?s0 c"
    using byte_value [of ?f c "[]" Map.empty "[]" False True] sp start_scalar [OF assms(2)] by simp
  have r: "sc_accepts (foldl sc_step ?s0 (c # cs)) = (json_number (c # cs) \<or> json_literal (c # cs))"
    using scalar_run by blast
  have "sc_accepts (json_feed (sc_step ?s0 c) cs) = sc_accepts (foldl sc_step (sc_step ?s0 c) cs)"
  proof (cases "jf_bad (sc_step ?s0 c)")
    case True
    then show ?thesis using sc_bad [OF True] json_feed_bad [OF True] by (simp add: sc_accepts_def)
  next
    case False
    have "jf_mode (sc_step ?s0 c) = ModeScalar" by (simp add: sc_step_def)
    from feed_scalar [OF _ False this, of cs] assms(1) show ?thesis by (auto simp: sc_accepts_def)
  qed
  then show ?thesis using i b r by (simp add: sc_accepts_def Let_def)
qed

theorem scalar_automaton_exact_witness:
  "(let j = json_feed (json_feed new_jfields (''{'' @ quote ''k'' @ '':'')) ''12'' in
     \<not> jf_bad j \<and> scalar_complete j) = (json_number ''12'' \<or> json_literal ''12'')"
  by (rule scalar_automaton_exact) (simp_all add: delimiter_def json_space_def byte_def scalar_start_def)

end
