(* ===== verification/Utf8.thy ===== *)
theory Utf8
  imports JsonText
begin

text \<open>
  Valid UTF-8 (\<open>utf8.ValidString\<close>), which the metrics library requires of every label value: what
  keeps a string valid, and what the decoding of a JSON string makes of any bytes.
\<close>

section \<open>Validity\<close>

function valid_utf8 :: "string \<Rightarrow> bool" where
  "valid_utf8 s \<longleftrightarrow> (if s = [] then True else if utf8_len s = 0 then False else valid_utf8 (drop (utf8_len s) s))"
  by pat_completeness auto
termination
  by (relation "measure length") auto

declare valid_utf8.simps [simp del]

text \<open>A string with every byte that is not part of a valid encoding replaced.\<close>

function to_valid_utf8 :: "string \<Rightarrow> string" where
  "to_valid_utf8 s =
     (if s = [] then []
      else if utf8_len s = 0 then replacement_char @ to_valid_utf8 (drop 1 s)
      else take (utf8_len s) s @ to_valid_utf8 (drop (utf8_len s) s))"
  by pat_completeness auto
termination
  by (relation "measure length") auto

declare to_valid_utf8.simps [simp del]

lemma valid_Nil [simp]: "valid_utf8 []"
  by (subst valid_utf8.simps) simp

lemma valid_step: "s \<noteq> [] \<Longrightarrow> valid_utf8 s \<longleftrightarrow> 0 < utf8_len s \<and> valid_utf8 (drop (utf8_len s) s)"
  by (subst valid_utf8.simps) simp

lemma utf8_len_ascii: "byte c < 128 \<Longrightarrow> utf8_len (c # s) = 1"
  by (simp add: utf8_len_def)

lemma valid_ascii [simp]: "byte c < 128 \<Longrightarrow> valid_utf8 (c # s) = valid_utf8 s"
  by (simp add: valid_step utf8_len_ascii)

lemma to_valid_id: "valid_utf8 s \<Longrightarrow> to_valid_utf8 s = s"
proof (induction s rule: to_valid_utf8.induct)
  case (1 s)
  then show ?case
    by (cases "s = []") (simp_all add: to_valid_utf8.simps [of s] to_valid_utf8.simps [of "[]"] valid_step)
qed

lemma utf8_len_append: "0 < utf8_len s \<Longrightarrow> utf8_len (s @ r) = utf8_len s"
proof (cases "128 \<le> byte (hd s)")
  case True
  assume "0 < utf8_len s"
  from this True show ?thesis by (cases rule: utf8_len_multi) (simp_all add: utf8_len_parts)
next
  case False
  assume "0 < utf8_len s"
  with False show ?thesis by (cases s) (simp_all add: utf8_len_def)
qed

lemma utf8_len_prefix: "0 < utf8_len s \<Longrightarrow> utf8_len (take (utf8_len s) s) = utf8_len s"
proof (cases "128 \<le> byte (hd s)")
  case True
  assume "0 < utf8_len s"
  from utf8_len_take [OF this True, of "[]"] show ?thesis by simp
next
  case False
  assume "0 < utf8_len s"
  with False show ?thesis by (cases s) (simp_all add: utf8_len_def)
qed

text \<open>The bytes after the first of an encoding are continuation bytes, which no encoding starts with.\<close>

lemma utf8_len_tail: "0 < utf8_len s \<Longrightarrow> list_all continuation (tl (take (utf8_len s) s))"
proof (cases "128 \<le> byte (hd s)")
  case True
  have c: "continuation b" if "second_byte a b" for a b
    using that by (auto simp: second_byte_def in_range_def split: if_splits)
  assume "0 < utf8_len s"
  from this True show ?thesis by (cases rule: utf8_len_multi) (auto simp: numeral_eq_Suc dest: c)
next
  case False
  assume "0 < utf8_len s"
  with False show ?thesis by (cases s) (simp_all add: utf8_len_def)
qed

lemma utf8_len_continuation: "continuation c \<Longrightarrow> utf8_len (c # s) = 0"
  by (auto simp: utf8_len_def in_range_def split: list.split)

lemma valid_append: "valid_utf8 xs \<Longrightarrow> valid_utf8 (xs @ ys) = valid_utf8 ys"
proof (induction xs rule: valid_utf8.induct)
  case (1 s)
  show ?case
  proof (cases "s = []")
    case False
    with 1 have "0 < utf8_len s" "valid_utf8 (drop (utf8_len s) s)" by (simp_all add: valid_step)
    with 1(1) [OF False] False show ?thesis
      using utf8_len_le [of s] by (simp add: valid_step [of "s @ ys"] utf8_len_append)
  qed simp
qed

lemma valid_appendI [intro]: "valid_utf8 xs \<Longrightarrow> valid_utf8 ys \<Longrightarrow> valid_utf8 (xs @ ys)"
  by (simp add: valid_append)

text \<open>UTF-8 is self-synchronizing: a boundary before a byte that starts an encoding is one.\<close>

lemma valid_cut: "valid_utf8 (xs @ ys) \<Longrightarrow> ys = [] \<or> \<not> continuation (hd ys) \<Longrightarrow> valid_utf8 xs \<and> valid_utf8 ys"
proof (induction "length xs" arbitrary: xs rule: less_induct)
  case less
  show ?case
  proof (cases "xs = []")
    case False
    let ?s = "xs @ ys" and ?n = "utf8_len (xs @ ys)"
    have n: "0 < ?n" "valid_utf8 (drop ?n ?s)" using less.prems(1) False by (simp_all add: valid_step)
    have le: "?n \<le> length xs"
    proof (rule ccontr)
      assume "\<not> ?n \<le> length xs"
      then have "length xs < ?n" "?n \<le> length ?s" using utf8_len_le [of ?s] by simp_all
      then have "ys \<noteq> []" and h: "length xs - 1 < length (tl (take ?n ?s))"
        using False by (auto simp: length_greater_0_conv [symmetric] simp del: length_greater_0_conv)
      then have "tl (take ?n ?s) ! (length xs - 1) = hd ys"
        using False by (simp add: nth_tl nth_append hd_conv_nth)
      moreover have "continuation (tl (take ?n ?s) ! (length xs - 1))"
        using utf8_len_tail [OF n(1)] h by (simp add: list_all_length)
      ultimately show False using less.prems(2) \<open>ys \<noteq> []\<close> by simp
    qed
    have t: "take ?n ?s = take ?n xs" using le by simp
    have "utf8_len (take ?n xs) = ?n" using utf8_len_prefix [OF n(1)] unfolding t .
    with utf8_len_append [of "take ?n xs" "drop ?n xs"] n(1) have x: "utf8_len xs = ?n" by simp
    have "valid_utf8 (drop ?n xs @ ys)" using n(2) le by simp
    then have "valid_utf8 (drop ?n xs) \<and> valid_utf8 ys"
      using less.hyps [of "drop ?n xs"] False n(1) less.prems(2) by simp
    with x n(1) False show ?thesis by (simp add: valid_step [of xs])
  qed (use less.prems in simp)
qed

lemma valid_starts: "valid_utf8 (c # s) \<Longrightarrow> \<not> continuation c"
  using utf8_len_continuation [of c s] by (auto simp: valid_step)

lemma valid_left: "valid_utf8 (xs @ ys) \<Longrightarrow> valid_utf8 ys \<Longrightarrow> valid_utf8 xs"
  using valid_cut [of xs ys] valid_starts by (cases ys) auto

lemma valid_at_ascii: "valid_utf8 (xs @ c # ys) \<Longrightarrow> byte c < 128 \<Longrightarrow> valid_utf8 xs \<and> valid_utf8 ys"
  using valid_cut [of xs "c # ys"] by (simp add: in_range_def)

lemma valid_ascii_string: "list_all (\<lambda>c. byte c < 128) s \<Longrightarrow> valid_utf8 s"
  by (induction s) simp_all

section \<open>Encoded runes\<close>

lemma quotient: "lo \<le> r \<Longrightarrow> r < hi \<Longrightarrow> hi mod k = 0 \<Longrightarrow> lo div k \<le> r div k \<and> r div k < hi div k" for r :: nat
  by (metis div_le_mono div_mult_mod_eq add.right_neutral less_mult_imp_div_less)

lemma valid_rune: "r < 55296 \<or> 57344 \<le> r \<and> r < 1114112 \<Longrightarrow> valid_utf8 (encode_rune r)"
proof -
  assume r: "r < 55296 \<or> 57344 \<le> r \<and> r < 1114112"
  consider "r < 128" | "128 \<le> r" "r < 2048" | "2048 \<le> r" "r < 65536" | "65536 \<le> r" "r < 1114112"
    using r by linarith
  then show ?thesis
  proof cases
    case 1
    then show ?thesis by (simp add: encode_rune_def)
  next
    case 2
    let ?a = "char_of (192 + r div 64) :: char" and ?b = "char_of (128 + r mod 64) :: char"
    have "in_range 194 223 ?a" "continuation ?b" using 2 by (auto simp: in_range_def)
    then have "utf8_len [?a, ?b] = 2" by (rule utf8_len_parts)
    with 2 show ?thesis by (simp add: encode_rune_def valid_step)
  next
    case 3
    let ?a = "char_of (224 + r div 4096) :: char" and ?b = "char_of (128 + r div 64 mod 64) :: char"
      and ?c = "char_of (128 + r mod 64) :: char"
    have d: "r div 4096 < 16" using 3 by auto
    have ab: "byte ?a = 224 + r div 4096" "byte ?b = 128 + r div 64 mod 64" using d by simp_all
    have "in_range 224 239 ?a" using d by (simp add: in_range_def)
    moreover have "second_byte ?a ?b"
    proof -
      have "160 \<le> 128 + r div 64 mod 64" if "r div 4096 = 0"
        using quotient [of 2048 r 4096 64] 3 that by (auto simp: div_eq_0_iff)
      moreover have "128 + r div 64 mod 64 \<le> 159" if "r div 4096 = 13"
      proof -
        have "13 * 4096 \<le> r" "r < 14 * 4096" using that by auto
        with r have "53248 \<le> r" "r < 55296" by auto
        from quotient [OF this, of 64] have "832 \<le> r div 64 \<and> r div 64 < 864" by simp
        then obtain q where q: "r div 64 = 832 + q" "832 + q < 864" using le_Suc_ex by metis
        then have "(832 + q) mod 64 = q" using mod_mult_self2 [of q 64 13] by (simp add: add.commute)
        with q show ?thesis by simp
      qed
      ultimately show ?thesis unfolding second_byte_def in_range_def ab using d by auto
    qed
    moreover have "continuation ?c" by (simp add: in_range_def)
    ultimately have "utf8_len [?a, ?b, ?c] = 3" by (rule utf8_len_parts)
    with 3 show ?thesis by (simp add: encode_rune_def valid_step)
  next
    case 4
    let ?a = "char_of (240 + r div 262144) :: char" and ?b = "char_of (128 + r div 4096 mod 64) :: char"
      and ?c = "char_of (128 + r div 64 mod 64) :: char" and ?d = "char_of (128 + r mod 64) :: char"
    have d: "r div 262144 \<le> 4" using 4 by auto
    have ab: "byte ?a = 240 + r div 262144" "byte ?b = 128 + r div 4096 mod 64" using d by simp_all
    have "in_range 240 244 ?a" using d by (simp add: in_range_def)
    moreover have "second_byte ?a ?b"
    proof -
      have "144 \<le> 128 + r div 4096 mod 64" if "r div 262144 = 0"
        using quotient [of 65536 r 262144 4096] 4 that by (auto simp: div_eq_0_iff)
      moreover have "128 + r div 4096 mod 64 \<le> 143" if "r div 262144 = 4"
      proof -
        have "1048576 \<le> r" using that by auto
        from quotient [OF this 4(2), of 4096] have "256 \<le> r div 4096 \<and> r div 4096 < 272" by simp
        then obtain q where q: "r div 4096 = 256 + q" "256 + q < 272" using le_Suc_ex by metis
        then have "(256 + q) mod 64 = q" using mod_mult_self2 [of q 64 4] by (simp add: add.commute)
        with q show ?thesis by simp
      qed
      ultimately show ?thesis unfolding second_byte_def in_range_def ab using d by auto
    qed
    moreover have "continuation ?c" "continuation ?d" by (simp_all add: in_range_def)
    ultimately have "utf8_len [?a, ?b, ?c, ?d] = 4" by (rule utf8_len_parts)
    with 4 show ?thesis by (simp add: encode_rune_def valid_step)
  qed
qed

lemma valid_replacement: "valid_utf8 replacement_char"
  unfolding replacement_char_def by (rule valid_rune) simp

section \<open>Decoded JSON strings\<close>

lemma valid_body_high:
  "list_all (\<lambda>c. 128 \<le> byte c) xs \<Longrightarrow> valid_body (xs @ r) = valid_body r"
proof (induction xs)
  case (Cons c xs)
  then have "c \<noteq> CHR 0x5C" "c \<noteq> CHR 0x22" by (auto simp: byte_def)
  with Cons show ?case by simp
qed simp

lemma surrogate_pair_rune:
  assumes "surrogate_pair hi r = Some rune" "is_surrogate hi" "valid_body r"
  shows "valid_utf8 (encode_rune rune) \<and> valid_body (drop 6 r)"
proof -
  obtain lo where lo: "hi < 56320" "has_prefix r (CHR 0x5C # ''u'')" "getu4 (drop 2 r) = Some lo"
      "56320 \<le> lo" "lo < 57344" "rune = (hi - 55296) * 1024 + (lo - 56320) + 65536"
    using assms(1) by (auto simp: surrogate_pair_def split: if_splits option.splits)
  have "55296 \<le> hi" using assms(2) by (simp add: is_surrogate_def)
  then have "65536 \<le> rune" "rune < 1114112" using lo by linarith+
  then have "valid_utf8 (encode_rune rune)" by (intro valid_rune) simp
  moreover obtain t where "r = CHR 0x5C # CHR ''u'' # t" using lo(2) by (auto simp: has_prefix_append)
  then have "valid_body (drop 6 r)" using assms(3) by (simp add: numeral_eq_Suc)
  ultimately show ?thesis by simp
qed

lemma escaped_ascii: "simple_escape e \<Longrightarrow> byte (escaped_byte e) < 128"
proof -
  have "\<forall>e \<in> set (CHR 0x22 # CHR 0x5C # ''/bfnrt''). byte (escaped_byte e) < 128" by code_simp
  then show "simple_escape e \<Longrightarrow> byte (escaped_byte e) < 128" unfolding simple_escape_def by (rule bspec)
qed

lemma unquote_step_valid:
  assumes "valid_body s" "s \<noteq> []" "unquote_step s = (out, n)"
  shows "valid_utf8 out \<and> valid_body (drop n s)"
proof (cases s)
  case (Cons c cs)
  show ?thesis
  proof (cases "c = CHR 0x5C")
    case True
    then obtain e r where cs: "cs = e # r" using assms(1) Cons by (cases cs) auto
    show ?thesis
    proof (cases "e = CHR ''u''")
      case u: True
      then have v: "4 \<le> length r" "list_all is_hex (take 4 r)" "valid_body (drop 4 r)"
        using assms(1) Cons True cs by simp_all
      then obtain rr where rr: "getu4 r = Some rr" by (simp add: getu4_def)
      have lt: "rr < 65536" using getu4_bounds [OF rr] by simp
      show ?thesis
      proof (cases "is_surrogate rr")
        case s: True
        show ?thesis
        proof (cases "surrogate_pair rr (drop 4 r)")
          case None
          with assms(3) Cons True cs u rr s v(3) valid_replacement show ?thesis by (auto simp: unquote_step_def numeral_eq_Suc)
        next
          case (Some rune)
          have "valid_utf8 (encode_rune rune) \<and> valid_body (drop 6 (drop 4 r))"
            by (rule surrogate_pair_rune [OF Some s v(3)])
          then show ?thesis using assms(3) Cons True cs u rr s Some by (auto simp: unquote_step_def numeral_eq_Suc)
        qed
      next
        case False
        then have "valid_utf8 (encode_rune rr)" using lt by (intro valid_rune) (auto simp: is_surrogate_def)
        with assms(3) Cons True cs u rr False v(3) show ?thesis by (auto simp: unquote_step_def numeral_eq_Suc)
      qed
    next
      case False
      then have "simple_escape e" "valid_body r" using assms(1) Cons True cs by simp_all
      moreover from this have "byte (escaped_byte e) < 128"
        by (simp add: escaped_ascii)
      ultimately show ?thesis using assms(3) Cons True cs False by (auto simp: unquote_step_def numeral_eq_Suc)
    qed
  next
    case False
    then have v: "valid_body cs" using assms(1) Cons by (simp split: if_splits)
    show ?thesis
    proof (cases "byte c < 128")
      case True
      with assms(3) Cons False v show ?thesis by (auto simp: unquote_step_def)
    next
      case high: False
      show ?thesis
      proof (cases "utf8_len s = 0")
        case True
        with assms(3) Cons False high v valid_replacement show ?thesis by (auto simp: unquote_step_def)
      next
        case n: False
        then have o: "out = take (utf8_len s) s" "n = utf8_len s"
          using assms(3) Cons False high by (auto simp: unquote_step_def)
        have "list_all (\<lambda>c. 128 \<le> byte c) (take (utf8_len s) s)"
          using n high Cons by (intro utf8_len_high) simp_all
        from valid_body_high [OF this, of "drop (utf8_len s) s"] assms(1) have "valid_body (drop n s)" by (simp add: o)
        moreover have "valid_utf8 out"
          using utf8_len_prefix [of s] n Cons by (simp add: o valid_step)
        ultimately show ?thesis by simp
      qed
    qed
  qed
qed (use assms in simp)

lemma unquote_valid: "valid_body s \<Longrightarrow> valid_utf8 (unquote_body s)"
proof (induction s rule: unquote_body.induct)
  case (1 s)
  obtain out n where st: "unquote_step s = (out, n)" by fastforce
  show ?case
  proof (cases "s = [] \<or> n = 0")
    case True
    with st show ?thesis by (subst unquote_body.simps) simp
  next
    case False
    then have v: "valid_utf8 out" "valid_body (drop n s)" using unquote_step_valid [OF 1(2) _ st] by simp_all
    with "1.IH" [OF st [symmetric] refl] False have "valid_utf8 (unquote_body (drop n s))" by simp
    with v False st show ?thesis by (subst unquote_body.simps) (simp add: valid_append)
  qed
qed

lemma json_unquote_valid: "json_unquote t = Some v \<Longrightarrow> valid_utf8 v"
  by (auto simp: json_unquote_def valid_string_token_def unquote_valid split: if_splits)

end
