(* ===== verification/OllamaClient.thy ===== *)
theory OllamaClient
  imports Poller Proxy JsonCorrect Utf8
begin

text \<open>
  \<^verbatim>\<open>internal/ollama/client.go\<close>: the requests of the client and how it reads the answers. The HTTP
  exchange is the argument \<open>srv\<close> (\<open>None\<close> for an error of \<open>NewRequestWithContext\<close> or \<open>Do\<close>), the
  decoding of a body into its type the argument \<open>dec\<close>. The body of \<open>Show\<close> is written by
  \<open>json.Marshal\<close>, whose encoding of a string is modelled byte by byte.
\<close>

section \<open>Encoding a string\<close>

definition hex_digit :: "nat \<Rightarrow> char" where
  "hex_digit n = ''0123456789abcdef'' ! n"

text \<open>\<open>htmlSafeSet\<close>, on bytes below 128.\<close>

definition html_safe :: "char \<Rightarrow> bool" where
  "html_safe c \<longleftrightarrow> 32 \<le> byte c \<and> c \<notin> set [CHR 0x22, CHR 0x5C, CHR 0x3C, CHR 0x3E, CHR 0x26]"

definition short_escape :: "char \<Rightarrow> char option" where
  "short_escape c =
     (if c = CHR 0x5C \<or> c = CHR 0x22 then Some c
      else if c = CHR 0x08 then Some (CHR ''b'') else if c = CHR 0x0C then Some (CHR ''f'')
      else if c = CHR 0x0A then Some (CHR ''n'') else if c = CHR 0x0D then Some (CHR ''r'')
      else if c = CHR 0x09 then Some (CHR ''t'') else None)"

text \<open>One turn of the loop of \<open>appendString\<close>: the bytes written and the number of bytes read.\<close>

definition escape_step :: "string \<Rightarrow> string \<times> nat" where
  "escape_step s =
     (case s of
        [] \<Rightarrow> ([], 0)
      | c # _ \<Rightarrow>
          if byte c < 128 then
            (if html_safe c then [c]
             else case short_escape c of
               Some e \<Rightarrow> [CHR 0x5C, e]
             | None \<Rightarrow> CHR 0x5C # ''u00'' @ [hex_digit (byte c div 16), hex_digit (byte c mod 16)], 1)
          else if utf8_len s = 0 then (CHR 0x5C # ''ufffd'', 1)
          else if take (utf8_len s) s = encode_rune 8232 then (CHR 0x5C # ''u2028'', 3)
          else if take (utf8_len s) s = encode_rune 8233 then (CHR 0x5C # ''u2029'', 3)
          else (take (utf8_len s) s, utf8_len s))"

function json_escape :: "string \<Rightarrow> string" where
  "json_escape s =
     (let (out, n) = escape_step s
      in if s = [] \<or> n = 0 then [] else out @ json_escape (drop n s))"
  by pat_completeness auto
termination
  by (relation "measure length") auto

declare json_escape.simps [simp del]

definition marshal_string :: "string \<Rightarrow> string" where
  "marshal_string s = quote (json_escape s)"

section \<open>Requests\<close>

record http_request =
  hq_method :: string
  hq_url :: string
  hq_content_type :: "string option"
  hq_body :: string

type_synonym http_server = "http_request \<Rightarrow> (int \<times> string) option"

definition get_request :: "string \<Rightarrow> string \<Rightarrow> http_request" where
  "get_request base path = \<lparr>hq_method = ''GET'', hq_url = base @ path, hq_content_type = None, hq_body = []\<rparr>"

definition client_health :: "string \<Rightarrow> http_server \<Rightarrow> bool" where
  "client_health base srv =
     (case srv (get_request base ''/'') of None \<Rightarrow> False | Some (status, _) \<Rightarrow> status = 200)"

text \<open>The end of \<open>get\<close> and of \<open>Show\<close>: \<open>None\<close> is an error.\<close>

definition read_answer :: "(string \<Rightarrow> 'a option) \<Rightarrow> (int \<times> string) option \<Rightarrow> 'a option" where
  "read_answer dec answer =
     (case answer of
        None \<Rightarrow> None
      | Some (status, body) \<Rightarrow> if status \<noteq> 200 then None else dec body)"

definition client_get :: "string \<Rightarrow> http_server \<Rightarrow> (string \<Rightarrow> 'a option) \<Rightarrow> string \<Rightarrow> 'a option" where
  "client_get base srv dec path = read_answer dec (srv (get_request base path))"

definition show_body :: "string \<Rightarrow> string" where
  "show_body model = ''{'' @ quote ''model'' @ '':'' @ marshal_string model @ ''}''"

definition show_request :: "string \<Rightarrow> string \<Rightarrow> http_request" where
  "show_request base model =
     \<lparr>hq_method = ''POST'', hq_url = base @ ''/api/show'', hq_content_type = Some ''application/json'',
      hq_body = show_body model\<rparr>"

definition client_show :: "string \<Rightarrow> http_server \<Rightarrow> (string \<Rightarrow> show_details option) \<Rightarrow> show_fn" where
  "client_show base srv dec model = read_answer dec (srv (show_request base model))"

text \<open>What the poller sees of a server at a tick.\<close>

definition tick_of ::
    "string \<Rightarrow> http_server \<Rightarrow> (string \<Rightarrow> running_model list option option) \<Rightarrow> (string \<Rightarrow> string list option option)
       \<Rightarrow> (string \<Rightarrow> show_details option) \<Rightarrow> (metric \<Rightarrow> (string \<times> string) list list) \<Rightarrow> tick" where
  "tick_of base srv dec_ps dec_tags dec_show collected =
     \<lparr>t_healthy = client_health base srv,
      t_ps = client_get base srv dec_ps ''/api/ps'',
      t_tags = client_get base srv dec_tags ''/api/tags'',
      t_show = client_show base srv dec_show,
      t_collected = collected\<rparr>"

section \<open>The encoding is read back\<close>

lemma unquote_more:
  "unquote_step s = (out, n) \<Longrightarrow> 0 < n \<Longrightarrow> s \<noteq> [] \<Longrightarrow> unquote_body s = out @ unquote_body (drop n s)"
  by (subst unquote_body.simps) simp

lemma hex_digits: "n < 16 \<Longrightarrow> is_hex (hex_digit n) \<and> hex_val (hex_digit n) = n"
proof -
  have "\<forall>n \<in> set [0..<16]. is_hex (hex_digit n) \<and> hex_val (hex_digit n) = n" by code_simp
  then show "n < 16 \<Longrightarrow> is_hex (hex_digit n) \<and> hex_val (hex_digit n) = n" by simp
qed

lemma getu4_hex:
  assumes "is_hex a" "is_hex b" "is_hex c" "is_hex d"
  shows "getu4 (a # b # c # d # r) = Some (16 * (16 * (16 * hex_val a + hex_val b) + hex_val c) + hex_val d)"
  using assms by (simp add: getu4_def)

lemma unquote_u:
  assumes "is_hex a" "is_hex b" "is_hex c" "is_hex d"
    and "v = 16 * (16 * (16 * hex_val a + hex_val b) + hex_val c) + hex_val d" "\<not> is_surrogate v"
  shows "unquote_body (CHR 0x5C # CHR ''u'' # a # b # c # d # r) = encode_rune v @ unquote_body r"
    and "valid_body (CHR 0x5C # CHR ''u'' # a # b # c # d # r) = valid_body r"
proof -
  show "unquote_body (CHR 0x5C # CHR ''u'' # a # b # c # d # r) = encode_rune v @ unquote_body r"
    using unquote_more [of "CHR 0x5C # CHR ''u'' # a # b # c # d # r" "encode_rune v" 6] assms
    by (simp add: unquote_step_def getu4_hex)
  show "valid_body (CHR 0x5C # CHR ''u'' # a # b # c # d # r) = valid_body r" using assms by simp
qed

lemma short_escape_back:
  "short_escape c = Some e \<Longrightarrow> simple_escape e \<and> e \<noteq> CHR ''u'' \<and> escaped_byte e = c"
  by (auto simp: short_escape_def simple_escape_def escaped_byte_def split: if_splits)

lemma unquote_short:
  assumes "short_escape c = Some e"
  shows "unquote_body (CHR 0x5C # e # r) = c # unquote_body r" "valid_body (CHR 0x5C # e # r) = valid_body r"
  using short_escape_back [OF assms] unquote_more [of "CHR 0x5C # e # r" "[c]" 2]
  by (simp_all add: unquote_step_def)

lemma unquote_copy:
  assumes "128 \<le> byte (hd s)" "0 < utf8_len s"
  shows "unquote_body (take (utf8_len s) s @ r) = take (utf8_len s) s @ unquote_body r"
proof -
  let ?n = "utf8_len s"
  define t where "t = take ?n s @ r"
  have l: "utf8_len t = ?n" unfolding t_def by (rule utf8_len_take [OF assms(2,1)])
  have t: "t \<noteq> []" "128 \<le> byte (hd t)"
    using assms by (cases s; cases ?n; simp add: t_def utf8_len_def)+
  then have "hd t \<noteq> CHR 0x5C" by (auto simp: byte_def)
  with t l have "unquote_step t = (take ?n t, ?n)"
    using assms(2) by (cases t) (simp_all add: unquote_step_def)
  from unquote_more [OF this assms(2) t(1)] show ?thesis
    using utf8_len_le [of s] by (simp add: t_def)
qed

lemma separators:
  "utf8_len (encode_rune 8232 @ r) = 3" "utf8_len (encode_rune 8233 @ r) = 3"
  by (simp_all add: encode_rune_def utf8_len_def in_range_def)

lemma unquote_replacement:
  "unquote_body (CHR 0x5C # ''ufffd'' @ r) = replacement_char @ unquote_body r"
  "valid_body (CHR 0x5C # ''ufffd'' @ r) = valid_body r"
  "unquote_body (CHR 0x5C # ''u2028'' @ r) = encode_rune 8232 @ unquote_body r"
  "valid_body (CHR 0x5C # ''u2028'' @ r) = valid_body r"
  "unquote_body (CHR 0x5C # ''u2029'' @ r) = encode_rune 8233 @ unquote_body r"
  "valid_body (CHR 0x5C # ''u2029'' @ r) = valid_body r"
proof -
  have h: "is_hex CHR ''f''" "is_hex CHR ''d''" "is_hex CHR ''2''" "is_hex CHR ''0''" "is_hex CHR ''8''" "is_hex CHR ''9''"
    by (simp_all add: is_hex_def)
  have v: "hex_val CHR ''f'' = 15" "hex_val CHR ''d'' = 13" "hex_val CHR ''2'' = 2" "hex_val CHR ''0'' = 0"
    "hex_val CHR ''8'' = 8" "hex_val CHR ''9'' = 9"
    by code_simp+
  show "unquote_body (CHR 0x5C # ''ufffd'' @ r) = replacement_char @ unquote_body r"
    "valid_body (CHR 0x5C # ''ufffd'' @ r) = valid_body r"
    using unquote_u [of "CHR ''f''" "CHR ''f''" "CHR ''f''" "CHR ''d''" 65533 r] h v
    by (simp_all add: is_surrogate_def replacement_char_def)
  show "unquote_body (CHR 0x5C # ''u2028'' @ r) = encode_rune 8232 @ unquote_body r"
    "valid_body (CHR 0x5C # ''u2028'' @ r) = valid_body r"
    using unquote_u [of "CHR ''2''" "CHR ''0''" "CHR ''2''" "CHR ''8''" 8232 r] h v
    by (simp_all add: is_surrogate_def)
  show "unquote_body (CHR 0x5C # ''u2029'' @ r) = encode_rune 8233 @ unquote_body r"
    "valid_body (CHR 0x5C # ''u2029'' @ r) = valid_body r"
    using unquote_u [of "CHR ''2''" "CHR ''0''" "CHR ''2''" "CHR ''9''" 8233 r] h v
    by (simp_all add: is_surrogate_def)
qed

lemma unquote_ascii:
  assumes "byte c < 128" "escape_step (c # cs) = (out, n)"
  shows "n = 1" "unquote_body (out @ r) = c # unquote_body r" "valid_body (out @ r) = valid_body r"
proof -
  show "n = 1" using assms by (simp add: escape_step_def)
  have o: "out = (if html_safe c then [c] else case short_escape c of Some e \<Rightarrow> [CHR 0x5C, e]
      | None \<Rightarrow> CHR 0x5C # ''u00'' @ [hex_digit (byte c div 16), hex_digit (byte c mod 16)])"
    using assms by (simp add: escape_step_def)
  have "unquote_body (out @ r) = c # unquote_body r \<and> valid_body (out @ r) = valid_body r"
  proof (cases "html_safe c")
    case True
    then have "unquote_step (c # r) = ([c], 1)" using assms(1) by (simp add: unquote_step_def html_safe_def)
    from unquote_more [OF this] True o show ?thesis by (simp add: html_safe_def)
  next
    case False
    show ?thesis
    proof (cases "short_escape c")
      case (Some e)
      with False o unquote_short [OF Some] show ?thesis by simp
    next
      case None
      have b: "byte c div 16 < 16" "byte c mod 16 < 16" using assms(1) by auto
      have z: "is_hex CHR ''0''" "hex_val CHR ''0'' = 0" by code_simp+
      have "encode_rune (byte c) = [c]" using assms(1) by (simp add: encode_rune_def byte_def)
      moreover have "\<not> is_surrogate (byte c)" using assms(1) by (simp add: is_surrogate_def)
      ultimately show ?thesis
        using False None o z hex_digits [OF b(1)] hex_digits [OF b(2)]
          unquote_u [of "CHR ''0''" "CHR ''0''" "hex_digit (byte c div 16)" "hex_digit (byte c mod 16)" "byte c" r]
        by simp
    qed
  qed
  then show "unquote_body (out @ r) = c # unquote_body r" "valid_body (out @ r) = valid_body r" by simp_all
qed

lemma escape_back:
  "unquote_body (json_escape s) = to_valid_utf8 s \<and> valid_body (json_escape s)"
proof (induction s rule: json_escape.induct)
  case (1 s)
  show ?case
  proof (cases s)
    case Nil
    then show ?thesis by (simp add: json_escape.simps [of "[]"] to_valid_utf8.simps [of "[]"] unquote_body.simps [of "[]"])
  next
    case (Cons c cs)
    obtain out n where st: "escape_step s = (out, n)" by fastforce
    have e: "json_escape s = out @ json_escape (drop n s)" if "0 < n"
      using that st Cons by (subst json_escape.simps) simp
    have ih: "unquote_body (json_escape (drop n s)) = to_valid_utf8 (drop n s)" "valid_body (json_escape (drop n s))"
      if "0 < n"
      using "1.IH" [OF st [symmetric] refl] that Cons by simp_all
    show ?thesis
    proof (cases "byte c < 128")
      case True
      note a = unquote_ascii [OF True st [unfolded Cons]]
      have "utf8_len s = 1" using True Cons by (simp add: utf8_len_def)
      then have "to_valid_utf8 s = c # to_valid_utf8 (drop n s)" using Cons a(1) by (subst to_valid_utf8.simps) simp
      with a e ih show ?thesis by simp
    next
      case high: False
      then have hd: "128 \<le> byte (hd s)" using Cons by simp
      show ?thesis
      proof (cases "utf8_len s = 0")
        case True
        then have "out = CHR 0x5C # ''ufffd''" "n = 1" using st high Cons by (simp_all add: escape_step_def)
        moreover have "to_valid_utf8 s = replacement_char @ to_valid_utf8 (drop 1 s)"
          using True Cons by (subst to_valid_utf8.simps) simp
        ultimately show ?thesis using e ih unquote_replacement(1,2) by (simp del: valid_body.simps)
      next
        case False
        then have v: "to_valid_utf8 s = take (utf8_len s) s @ to_valid_utf8 (drop (utf8_len s) s)"
          using Cons by (subst to_valid_utf8.simps) simp
        have sep: "utf8_len s = 3" if "take (utf8_len s) s = encode_rune 8232 \<or> take (utf8_len s) s = encode_rune 8233"
          using that separators [of "drop (utf8_len s) s"] by (metis append_take_drop_id)
        consider (a) "take (utf8_len s) s = encode_rune 8232" "out = CHR 0x5C # ''u2028''" "n = 3" "utf8_len s = 3"
          | (b) "take (utf8_len s) s = encode_rune 8233" "out = CHR 0x5C # ''u2029''" "n = 3" "utf8_len s = 3"
          | (c) "out = take (utf8_len s) s" "n = utf8_len s"
        proof (cases "take (utf8_len s) s = encode_rune 8232")
          case True
          have "escape_step s = (CHR 0x5C # ''u2028'', 3)"
            unfolding escape_step_def using high Cons False True by simp
          with st True sep a show thesis by simp
        next
          case n1: False
          show thesis
          proof (cases "take (utf8_len s) s = encode_rune 8233")
            case True
            have "escape_step s = (CHR 0x5C # ''u2029'', 3)"
              unfolding escape_step_def using high Cons False n1 True by simp
            with st True sep b show thesis by simp
          next
            case n2: False
            have "escape_step s = (take (utf8_len s) s, utf8_len s)"
              unfolding escape_step_def using high Cons False n1 n2 by simp
            then have "out = take (utf8_len s) s \<and> n = utf8_len s" unfolding st prod.inject .
            then show thesis by (intro c) (erule conjunct1, erule conjunct2)
          qed
        qed
        then show ?thesis
        proof cases
          case a
          with e ih v unquote_replacement(3,4) show ?thesis by (simp del: valid_body.simps)
        next
          case b
          with e ih v unquote_replacement(5,6) show ?thesis by (simp del: valid_body.simps)
        next
          case c
          with e ih v False unquote_copy [OF hd] valid_body_high [OF utf8_len_high [OF _ hd]] show ?thesis by simp
        qed
      qed
    qed
  qed
qed

section \<open>Properties\<close>

lemma marshal_unmarshal: "unmarshal_string (Some (marshal_string s)) = Some (to_valid_utf8 s)"
proof -
  have "marshal_string s \<noteq> ''null''" by (simp add: marshal_string_def quote_def)
  then show ?thesis
    using escape_back [of s] by (simp add: unmarshal_string_def marshal_string_def unquote_quote)
qed

lemma show_body_text: "json_text (JObj [(''model'', JStr (json_escape m))]) (show_body m)"
proof -
  have "json_text (JObj [(''model'', JStr (json_escape m))])
      (''{'' @ ([] @ quote ''model'' @ [] @ '':'' @ [] @ quote (json_escape m) @ []) @ ''}'')"
    by (intro text_obj members_one text_str) (use escape_back [of m] in \<open>simp_all add: byte_def\<close>)
  then show ?thesis by (simp add: show_body_def marshal_string_def)
qed

text \<open>C19. The client and the proxy agree on what a request says: for every model name in valid UTF-8 (whatever
  quotes, control characters or separators it holds) whose encoding is at most 4096 bytes, the proxy
  reads exactly that name from the body that the client writes for it.\<close>

theorem request_model_roundtrip:
  assumes "valid_utf8 model" "model \<noteq> []" "length (marshal_string model) \<le> 4096"
  shows "peek_model query_model (show_body model) = model"
proof -
  let ?ms = "[(''model'', JStr (json_escape model))]"
  have u: "field_name ''model'' = ''model''" "\<not> long_key ''model''" by code_simp+
  have w: "wanted ''model''" by (simp add: wanted_def wanted_paths_def)
  have p: "path_name (Some [''model'']) = ''model''" by (simp add: path_name_def join_names_def)
  have "within_limits ?ms" using assms(3)
    by (simp add: within_limits_def fits_here_def u p w marshal_string_def)
  then obtain kt where f: "json_feed (rdy [] Map.empty [] False False) (show_body model) =
      rdy [] (selected ?ms) ([] @ [selected ?ms]) (False \<or> skips_members ?ms) kt"
    using feed_top [OF show_body_text] by blast
  have "selected ?ms ''model'' = Some (marshal_string model)"
    by (simp add: selected_def u p w put_field_def marshal_string_def)
  then have "jf_fields (json_feed new_jfields (show_body model)) ''model'' = Some (marshal_string model)"
    unfolding new_jfields_rdy f by (simp add: rdy_def)
  then show ?thesis
    using marshal_unmarshal [of model] to_valid_id [OF assms(1)] assms(2) by (simp add: peek_model_def show_body_def)
qed

theorem request_model_roundtrip_witness: "peek_model [] (show_body ''m'') = ''m''"
proof -
  have "valid_utf8 ''m''" by (simp add: byte_def)
  moreover have "marshal_string ''m'' = quote ''m''"
    by (simp add: marshal_string_def json_escape.simps [of "''m''"] json_escape.simps [of "[]"] escape_step_def
        html_safe_def byte_def)
  ultimately show ?thesis by (intro request_model_roundtrip) (simp_all add: quote_def)
qed

text \<open>C20. A failed scrape is visible and harmless: when the server cannot be reached, answers anything but 200,
  or its list of models cannot be read, exactly one call is made, which sets \<open>up\<close> to whether the
  health check passed; the models that were loaded are neither forgotten nor counted as unloaded.\<close>

theorem failed_scrape_keeps_the_inventory:
  assumes "(\<nexists>b. srv (get_request base ''/'') = Some (200, b)) \<or> client_get base srv dec_ps ''/api/ps'' = None"
  shows "scrape uni ord p (tick_of base srv dec_ps dec_tags dec_show collected) =
    p\<lparr>p_log := p_log p @ [MSet Up [] (FInt (if \<exists>b. srv (get_request base ''/'') = Some (200, b) then 1 else 0))]\<rparr>"
proof -
  have "client_health base srv \<longleftrightarrow> (\<exists>b. srv (get_request base ''/'') = Some (200, b))"
    by (auto simp: client_health_def split: option.split)
  with assms show ?thesis by (auto simp: scrape_def tick_of_def p_call_def Let_def)
qed

theorem failed_scrape_keeps_the_inventory_witness:
  "p_log (scrape id id (new_poller new_model_cache)
     (tick_of ''http://h'' (\<lambda>_. Some (500, [])) (\<lambda>_. None) (\<lambda>_. None) (\<lambda>_. None) (\<lambda>_. []))) = [MSet Up [] (FInt 0)]"
  using failed_scrape_keeps_the_inventory [of "\<lambda>_. Some (500, [])" "''http://h''" "\<lambda>_. None" id id "new_poller new_model_cache"]
  by (simp add: new_poller_def)

text \<open>The metadata of a model falls back to its name whenever \<open>Show\<close> does not answer with 200 and a body
  that decodes.\<close>

lemma show_failure_falls_back:
  assumes "\<nexists>b d. srv (show_request base model) = Some (200, b) \<and> dec b = Some d"
  shows "mc_fetch uni (client_show base srv dec) model = \<lparr>mi_family = fst (parse_model_name model), mi_quant = ''unknown''\<rparr>"
proof -
  have "client_show base srv dec model = None"
    using assms by (auto simp: client_show_def read_answer_def split: option.splits if_splits prod.splits)
  then show ?thesis by (simp add: mc_fetch_def)
qed

end
