(* ===== verification/Labels.thy ===== *)
theory Labels
  imports OllamaClient
begin

text \<open>
  Label values. The metrics library panics in \<open>WithLabelValues\<close> when a value is not valid UTF-8, so a
  request that reaches it with such a value is not served. This theory follows every value the proxy
  uses from where it comes: the path and the query of the request, its body, the body of the response,
  and what the server answers about a model.
\<close>

section \<open>String operations that keep validity\<close>

lemma to_lower_ascii: "byte c < 128 \<Longrightarrow> byte (to_lower c) < 128"
  by (auto simp: to_lower_def is_upper_def)

text \<open>\<open>strings.ToLower\<close> outside ASCII maps runes to runes.\<close>

definition lower_valid :: "(string \<Rightarrow> string) \<Rightarrow> bool" where
  "lower_valid uni \<longleftrightarrow> (\<forall>s. valid_utf8 s \<longrightarrow> valid_utf8 (uni s))"

lemma valid_lower: "lower_valid uni \<Longrightarrow> valid_utf8 s \<Longrightarrow> valid_utf8 (lower_string uni s)"
proof -
  assume a: "lower_valid uni" "valid_utf8 s"
  have "valid_utf8 (map to_lower s)" if "list_all (\<lambda>c. byte c < 128) s"
    using that by (intro valid_ascii_string) (induction s, simp_all add: to_lower_ascii)
  with a show ?thesis by (simp add: lower_string_def lower_valid_def)
qed

lemma space_seqs_valid: "q \<in> set space_seqs \<Longrightarrow> valid_utf8 q"
proof -
  have "\<forall>r \<in> set space_runes. r < 55296" by (simp add: space_runes_def)
  then show "q \<in> set space_seqs \<Longrightarrow> valid_utf8 q" using valid_rune by (auto simp: space_seqs_def)
qed

lemma valid_trim_left: "valid_utf8 s \<Longrightarrow> valid_utf8 (trim_left_space s)"
proof (induction s rule: trim_left_space.induct)
  case (1 s)
  show ?case
  proof (cases "leading_space s")
    case None
    with 1(2) show ?thesis by (subst trim_left_space.simps) simp
  next
    case (Some n)
    then obtain q where q: "find (has_prefix s) space_seqs = Some q" "n = length q" by (auto simp: leading_space_def)
    then have "q \<in> set space_seqs" "has_prefix s q" by (auto simp: find_Some_iff)
    then have "valid_utf8 (drop n s)"
      using 1(2) space_seqs_valid valid_append q(2) by (auto simp: has_prefix_append)
    with 1 Some show ?thesis by (subst trim_left_space.simps) simp
  qed
qed

lemma valid_trim_right: "valid_utf8 s \<Longrightarrow> valid_utf8 (trim_right_space s)"
proof (induction s rule: trim_right_space.induct)
  case (1 s)
  show ?case
  proof (cases "trailing_space s")
    case None
    with 1(2) show ?thesis by (subst trim_right_space.simps) simp
  next
    case (Some n)
    then obtain q where q: "find (has_suffix s) space_seqs = Some q" "n = length q" by (auto simp: trailing_space_def)
    then have m: "q \<in> set space_seqs" "has_suffix s q" by (auto simp: find_Some_iff)
    then obtain t where t: "s = t @ q" by (auto simp: has_suffix_def has_prefix_append) (metis rev_append rev_rev_ident)
    then have "valid_utf8 (take (length s - n) s)"
      using 1(2) valid_left [of t q] space_seqs_valid [OF m(1)] q(2) by simp
    with 1 Some show ?thesis by (subst trim_right_space.simps) simp
  qed
qed

lemma valid_trim: "valid_utf8 s \<Longrightarrow> valid_utf8 (trim_space s)"
  by (simp add: trim_space_def valid_trim_left valid_trim_right)

lemma valid_before: "valid_utf8 s \<Longrightarrow> byte c < 128 \<Longrightarrow> valid_utf8 (takeWhile (\<lambda>x. x \<noteq> c) s)"
proof -
  assume a: "valid_utf8 s" "byte c < 128"
  show ?thesis
  proof (cases "c \<in> set s")
    case True
    from split_list_first [OF True] obtain xs ys where s: "s = xs @ c # ys" "c \<notin> set xs" by blast
    then have "takeWhile (\<lambda>x. x \<noteq> c) s = xs" by (subst s(1), subst takeWhile_append2) auto
    with valid_at_ascii [of xs c ys] a s(1) show ?thesis by simp
  next
    case False
    then have e: "takeWhile (\<lambda>x. x \<noteq> c) s = s" by (auto simp: takeWhile_eq_all_conv)
    show ?thesis unfolding e by (rule a(1))
  qed
qed

lemma valid_after: "valid_utf8 s \<Longrightarrow> byte c < 128 \<Longrightarrow> c \<in> set s \<Longrightarrow> valid_utf8 (tl (dropWhile (\<lambda>x. x \<noteq> c) s))"
proof -
  assume a: "valid_utf8 s" "byte c < 128" "c \<in> set s"
  from split_list_first [OF a(3)] obtain xs ys where s: "s = xs @ c # ys" "c \<notin> set xs" by blast
  then have "dropWhile (\<lambda>x. x \<noteq> c) s = c # ys" by (subst s(1), subst dropWhile_append2) auto
  with valid_at_ascii [of xs c ys] a s(1) show ?thesis by simp
qed

lemma str_index_split: "str_index s [c] = Some i \<Longrightarrow> \<exists>ys. s = take i s @ c # ys"
proof (induction s arbitrary: i)
  case Nil
  then show ?case by (simp add: str_index.simps)
next
  case (Cons x s)
  have "x = c \<and> i = 0 \<or> (\<exists>j. i = Suc j \<and> str_index s [c] = Some j)"
    using Cons.prems by (subst (asm) str_index.simps) (auto split: if_splits)
  with Cons.IH show ?case by auto
qed

lemma last_index_split: "last_index_char s c = Some i \<Longrightarrow> \<exists>ys. s = take i s @ c # ys \<and> drop (i + 1) s = ys"
proof (induction s arbitrary: i)
  case (Cons x s)
  then show ?case by (cases "last_index_char s c") (auto split: if_splits)
qed simp

lemma valid_model_name:
  assumes "valid_utf8 name"
  shows "valid_utf8 (fst (parse_model_name name))" "valid_utf8 (snd (parse_model_name name))"
proof -
  have asc: "byte CHR '':'' < 128" "byte CHR ''.'' < 128" "byte CHR ''-'' < 128" by (simp_all add: byte_def)
  have b: "valid_utf8 (fst (split_colon name))" using valid_before [OF assms asc(1)] by (simp add: split_colon_def)
  have t: "valid_utf8 t" if "snd (split_colon name) = Some t" for t
    using that valid_after [OF assms asc(1)] by (auto simp: split_colon_def split: if_splits)
  have i: "valid_utf8 (take i s)" if "str_index s ''.'' = Some i" "valid_utf8 s" for i s
    using that str_index_split [OF that(1)] valid_at_ascii asc(2) by metis
  have l: "valid_utf8 (drop (i + 1) s)" if "last_index_char s CHR ''-'' = Some i" "valid_utf8 s" for i s
    using that last_index_split [OF that(1)] valid_at_ascii asc(3) by metis
  have u: "valid_utf8 ''unknown''" by (simp add: byte_def)
  show "valid_utf8 (fst (parse_model_name name))"
    using b i by (auto simp: parse_model_name_def Let_def split_def split: option.split)
  show "valid_utf8 (snd (parse_model_name name))"
    using t l u by (auto simp: parse_model_name_def Let_def split_def split: option.split)
qed

section \<open>The cache\<close>

definition info_valid :: "model_info \<Rightarrow> bool" where
  "info_valid info \<longleftrightarrow> valid_utf8 (mi_family info) \<and> valid_utf8 (mi_quant info)"

definition cache_valid :: "model_cache \<Rightarrow> bool" where
  "cache_valid mc \<longleftrightarrow> (\<forall>model info. mc_cache mc model = Some info \<longrightarrow> info_valid info)"

text \<open>The decoder of the answers to \<open>Show\<close> yields valid strings, like any decoder of JSON strings.\<close>

definition show_valid :: "show_fn \<Rightarrow> bool" where
  "show_valid show_fn \<longleftrightarrow>
     (\<forall>model d. show_fn model = Some d \<longrightarrow> valid_utf8 (sd_family d) \<and> valid_utf8 (sd_quantization_level d))"

lemma fetched_valid:
  assumes "lower_valid uni" "show_valid s" "valid_utf8 model"
  shows "info_valid (mc_fetch uni s model)"
proof -
  have "valid_utf8 ''unknown''" by (simp add: byte_def)
  moreover have "valid_utf8 (lower_string uni (trim_space (sd_family d)))"
    "valid_utf8 (lower_string uni (trim_space (sd_quantization_level d)))" if "s model = Some d" for d
    using that assms(2) by (auto simp: show_valid_def intro: valid_lower [OF assms(1)] valid_trim)
  ultimately show ?thesis
    using valid_model_name [OF assms(3)] by (simp add: mc_fetch_def info_valid_def Let_def split: option.split)
qed

lemma mc_get_valid:
  assumes "lower_valid uni" "show_valid s" "valid_utf8 model" "cache_valid mc" "mc_get uni s mc model = (info, mc')"
  shows "info_valid info \<and> cache_valid mc'"
  using assms(4,5) fetched_valid [OF assms(1-3)]
  by (auto simp: mc_get_def fetch_and_cache_def cache_valid_def Let_def split: option.splits if_splits)

section \<open>The calls\<close>

primrec call_labels :: "metric_call \<Rightarrow> string list" where
  "call_labels (MSet m ls v) = ls"
| "call_labels (MAdd m ls v) = ls"
| "call_labels (MInc m ls) = ls"
| "call_labels (MDec m ls) = ls"
| "call_labels (MObserve m ls v) = ls"
| "call_labels (MDeleteMatch m l v) = []"

definition call_valid :: "metric_call \<Rightarrow> bool" where
  "call_valid c \<longleftrightarrow> list_all valid_utf8 (call_labels c)"

text \<open>What handling a response leaves: a valid cache and calls with valid labels.\<close>

definition result_valid :: "model_cache \<times> metric_call list \<Rightarrow> bool" where
  "result_valid r \<longleftrightarrow> cache_valid (fst r) \<and> list_all call_valid (snd r)"

lemma unmarshal_valid: "unmarshal_string raw = Some v \<Longrightarrow> valid_utf8 v"
  by (auto simp: unmarshal_string_def json_unquote_valid split: option.splits if_splits)

lemma decoded_model_valid: "decode_generate f = Some gen \<Longrightarrow> valid_utf8 (g_model gen)"
  by (auto simp: decode_generate_def field_string_def unmarshal_valid split: option.splits)

lemma usage_model_valid: "valid_utf8 requested \<Longrightarrow> valid_utf8 (usage_model requested f)"
  by (auto simp: usage_model_def unmarshal_valid split: option.split)

lemma peeked_model_valid: "valid_utf8 query_model \<Longrightarrow> valid_utf8 (peek_model query_model prefix)"
  by (auto simp: peek_model_def unmarshal_valid split: option.split)

lemma generate_calls_valid:
  "valid_utf8 (g_model gen) \<Longrightarrow> info_valid info \<Longrightarrow> valid_utf8 path \<Longrightarrow> list_all call_valid (generate_calls gen path info)"
  by (simp add: generate_calls_def call_valid_def info_valid_def Let_def)

lemma record_sample_valid:
  assumes "lower_valid uni" "show_valid s" "valid_utf8 requested" "valid_utf8 path" "cache_valid mc"
  shows "result_valid (fst (record_sample uni s mc cp requested path f), fst (snd (record_sample uni s mc cp requested path f)))"
proof (cases cp)
  case True
  obtain info mc' where g: "mc_get uni s mc (usage_model requested f) = (info, mc')" by fastforce
  have "info_valid info \<and> cache_valid mc'"
    by (rule mc_get_valid [OF assms(1,2) usage_model_valid [OF assms(3)] assms(5) g])
  with True g assms(4,5) usage_model_valid [OF assms(3)] show ?thesis
    by (simp add: record_sample_def record_usage_def observe_count_def result_valid_def call_valid_def info_valid_def
        Let_def split: option.split)
next
  case False
  show ?thesis
  proof (cases "decode_generate f")
    case None
    with False assms(5) show ?thesis by (simp add: record_sample_def result_valid_def)
  next
    case (Some gen)
    obtain info mc' where g: "mc_get uni s mc (g_model gen) = (info, mc')" by fastforce
    note m = decoded_model_valid [OF Some]
    have "info_valid info \<and> cache_valid mc'" by (rule mc_get_valid [OF assms(1,2) m assms(5) g])
    with False Some g m assms(4,5) generate_calls_valid show ?thesis
      by (simp add: record_sample_def record_generate_metrics_def result_valid_def)
  qed
qed

lemma vocabulary_valid: "x \<in> outcomes \<Longrightarrow> valid_utf8 x" "r \<in> reasons \<Longrightarrow> valid_utf8 r"
proof -
  have "\<forall>x \<in> outcomes. list_all (\<lambda>c. byte c < 128) x" by (simp add: outcomes_def byte_def)
  then show "x \<in> outcomes \<Longrightarrow> valid_utf8 x" using valid_ascii_string by blast
  have "\<forall>r \<in> reasons. list_all (\<lambda>c. byte c < 128) r" unfolding reasons_listed by (simp add: byte_def)
  then show "r \<in> reasons \<Longrightarrow> valid_utf8 r" using valid_ascii_string by blast
qed

lemma callbacks_valid:
  assumes "lower_valid uni" "show_valid s" "valid_utf8 (rq_model rq)" "valid_utf8 (rq_path rq)" "cache_valid mc"
    and "\<forall>x r. CallResult x r \<in> set cs \<longrightarrow> x \<in> outcomes \<and> r \<in> reasons"
  shows "result_valid (callbacks_calls uni s cp rq mc cs)"
  using assms(5,6)
proof (induction cs arbitrary: mc)
  case Nil
  then show ?case by (simp add: result_valid_def)
next
  case (Cons c cs)
  have one: "result_valid (callback_calls uni s cp rq mc c)"
  proof (cases c)
    case (CallResult x r)
    with Cons.prems vocabulary_valid show ?thesis by (simp add: result_valid_def call_valid_def)
  next
    case CallNotice
    with Cons.prems show ?thesis by (simp add: result_valid_def call_valid_def byte_def)
  next
    case (CallEmit f)
    with record_sample_valid [OF assms(1-4) Cons.prems(1), of cp f] show ?thesis by (simp add: Let_def split_def)
  qed
  then have "result_valid (callbacks_calls uni s cp rq (fst (callback_calls uni s cp rq mc c)) cs)"
    using Cons.prems(2) by (intro Cons.IH) (simp_all add: result_valid_def)
  with one show ?case by (simp add: result_valid_def Let_def split_def)
qed

lemma exchange_valid:
  assumes "lower_valid uni" "show_valid s" "valid_utf8 (rq_path (rs_request resp))" "cache_valid mc"
    and "rq_path (rs_request resp) \<in> set exclude_paths \<or> valid_utf8 (rq_model (rs_request resp))"
  shows "result_valid (exchange uni s exclude_paths mc resp ops)"
proof (cases "modify_response exclude_paths resp")
  case (NotObserved cs)
  then have "cs = [] \<or> cs = [MInc ExtractionResults [''skipped'', ''http_status'']]"
    by (auto simp: modify_response_def Let_def split: if_splits)
  with NotObserved assms(4) show ?thesis by (auto simp: exchange_def result_valid_def call_valid_def byte_def)
next
  case (Observed cp b)
  then obtain sse where b: "b = new_response_body sse" and m: "valid_utf8 (rq_model (rs_request resp))"
    using assms(5) by (auto simp: modify_response_def Let_def split: if_splits)
  have "rb_reasons_ok (rb_ops (sample_verdict cp) b ops)" unfolding b by (rule ro_ops [OF ro_new])
  then have "result_valid (callbacks_calls uni s cp (rs_request resp) mc (rb_log (rb_ops (sample_verdict cp) b ops)))"
    by (intro callbacks_valid [OF assms(1,2) m assms(3,4)]) (simp add: rb_reasons_ok_def)
  with Observed show ?thesis by (simp add: exchange_def)
qed

text \<open>C22. No response can make the proxy panic on a label: when the path and the query of a request are valid
  UTF-8, every value of every metric call made for it is, whatever bytes its body and the response
  contain, and so is everything left in the cache.\<close>

theorem proxied_labels_are_valid:
  assumes "valid_utf8 (rq_path rq)" "valid_utf8 (rq_query_model rq)"
    and "lower_valid uni" "show_valid s" "cache_valid mc"
    and "proxied uni s exclude_paths mc rq body resp ops elapsed = (mc', calls, served)"
  shows "list_all call_valid calls \<and> cache_valid mc'"
proof -
  define model where "model = (case if rq_method rq = ''POST'' \<and> inference_path (rq_path rq) then body else None of
    None \<Rightarrow> rq_query_model rq | Some b \<Rightarrow> peek_model (rq_query_model rq) (fst (read_prefix b)))"
  have m: "valid_utf8 model"
    using assms(2) peeked_model_valid by (simp add: model_def split: option.split)
  let ?rq = "rq\<lparr>rq_model := model\<rparr>"
  let ?x = "\<lambda>r. exchange uni s exclude_paths mc (resp\<lparr>rs_request := r\<rparr>) ops"
  define e where "e = (\<lambda>b. if b then (mc, []) else ?x ?rq)"
  have e: "result_valid (e b)" for b
    using exchange_valid [OF assms(3,4) _ assms(5), of "resp\<lparr>rs_request := ?rq\<rparr>" exclude_paths ops] assms(1,5) m
    by (simp add: e_def result_valid_def)
  show ?thesis
  proof (cases "rq_path rq \<in> set exclude_paths")
    case True
    have x: "result_valid (?x rq)"
      using exchange_valid [OF assms(3,4) _ assms(5), of "resp\<lparr>rs_request := rq\<rparr>" exclude_paths ops] assms(1) True by simp
    have "mc' = mc \<and> calls = [] \<or> mc' = fst (?x rq) \<and> calls = snd (?x rq)"
      using assms(6) True
      by (auto simp: proxied_def instrumented_handler_def Let_def split_def split: if_splits option.splits)
    with x assms(5) show ?thesis by (auto simp: result_valid_def)
  next
    case False
    define info where "info = (\<lambda>b. mc_get uni s (fst (e b)) model)"
    have i: "info_valid (fst (info b)) \<and> cache_valid (snd (info b))" for b
      using mc_get_valid [OF assms(3,4) m, of "fst (e b)" "fst (info b)" "snd (info b)"] e [of b]
      by (simp add: info_def result_valid_def)
    define b where "b \<longleftrightarrow> (case if rq_method rq = ''POST'' \<and> inference_path (rq_path rq) then body else None of
      None \<Rightarrow> False | Some i \<Rightarrow> snd (read_prefix i))"
    have "calls = [MInc RequestsInFlight [model, rq_path rq]] @ snd (e b)
        @ [MObserve RequestDuration [model, mi_family (fst (info b)), mi_quant (fst (info b)), rq_path rq] (FSeconds elapsed),
           MDec RequestsInFlight [model, rq_path rq]]" "mc' = snd (info b)"
      using assms(6) False
      by (auto simp: proxied_def instrumented_handler_def model_def b_def e_def info_def Let_def split_def
          split: if_splits option.splits)
    with e [of b] i [of b] m assms(1) show ?thesis
      by (simp add: result_valid_def call_valid_def info_valid_def)
  qed
qed

theorem proxied_labels_are_valid_witness:
  "list_all call_valid (fst (snd (proxied id (\<lambda>_. None) [] new_model_cache (demo_request ''/api/chat'') None
     (demo_response ''/api/chat'') [OpRead [CHR 0xFF] EOF] 0)))"
proof -
  have "valid_utf8 ''/api/chat''" by (simp add: byte_def)
  then have "valid_utf8 (rq_path (demo_request ''/api/chat''))" "valid_utf8 (rq_query_model (demo_request ''/api/chat''))"
    by (simp_all add: demo_request_def)
  moreover have "lower_valid id" "show_valid (\<lambda>_. None)" "cache_valid new_model_cache"
    by (simp_all add: lower_valid_def show_valid_def cache_valid_def new_model_cache_def)
  ultimately show ?thesis
    using proxied_labels_are_valid [of "demo_request ''/api/chat''" id "\<lambda>_. None" new_model_cache "[]" None
        "demo_response ''/api/chat''" "[OpRead [CHR 0xFF] EOF]" 0]
    by (metis prod.collapse)
qed

text \<open>The path itself is used as a label unchecked: a request for any path that is not valid UTF-8 once its
  percent escapes are decoded reaches the in-flight gauge with that path as a label value, before it
  is forwarded, and is not served.\<close>

theorem undecodable_path_is_used_as_label:
  assumes "\<not> valid_utf8 (rq_path rq)" "rq_path rq \<notin> set exclude_paths"
  shows "\<exists>model. hd (fst (snd (proxied uni s exclude_paths mc rq body resp ops elapsed))) =
      MInc RequestsInFlight [model, rq_path rq]
    \<and> \<not> call_valid (MInc RequestsInFlight [model, rq_path rq])"
  using assms by (simp add: proxied_def instrumented_handler_def call_valid_def Let_def split_def)

end
