(* ===== verification/ResponseCorrect.thy ===== *)
theory ResponseCorrect
  imports JsonCorrect ResponseBody
begin

text \<open>
  What the response observer extracts from a well-formed response: the recognizer's correctness carried
  through merging, the end of the body and the callbacks. Also the line decoder of event streams: the
  three line ending conventions are equivalent.
\<close>

section \<open>Running the recognizer, then the emit callback\<close>

text \<open>The maps emitted so far are only extended.\<close>

lemma emitted_append [simp]: "jf_emitted (j_append j c) = jf_emitted j"
  by (simp add: j_append_def)

lemma emitted_value_done [simp]: "jf_emitted (value_done j) = jf_emitted j"
  by (simp add: value_done_def)

lemma emitted_scalar [simp]: "jf_emitted (j_scalar j) = jf_emitted j"
  by (simp add: j_scalar_def key_scalar_def value_scalar_def reset_token_def Let_def split: option.split)

lemma emitted_close: "\<exists>es. jf_emitted (j_close j c) = jf_emitted j @ es"
  by (auto simp: j_close_def mark_bad_def Let_def split: list.split)

lemma emitted_start [simp]: "jf_emitted (start_value j c) = jf_emitted j"
  by (simp add: start_value_def open_value_def Let_def)

lemma emitted_struct: "\<exists>es. jf_emitted (struct_byte j c) = jf_emitted j @ es"
proof -
  have n: "\<exists>es. jf_emitted i = jf_emitted j @ es" if "jf_emitted i = jf_emitted j" for i
    using that by simp
  have i: "\<exists>es. jf_emitted x = jf_emitted j @ es \<Longrightarrow> \<exists>es. jf_emitted y = jf_emitted j @ es \<Longrightarrow>
      \<exists>es. jf_emitted (if b then x else y) = jf_emitted j @ es" for x y b by simp
  show ?thesis unfolding struct_byte_def
    by (cases "jf_stack j"; simp only: list.case) (intro i emitted_close n; simp)+
qed

lemma emitted_string [simp]: "jf_emitted (string_byte j c) = jf_emitted j"
proof -
  have i: "jf_emitted x = jf_emitted j \<Longrightarrow> jf_emitted y = jf_emitted j \<Longrightarrow> jf_emitted (if b then x else y) = jf_emitted j"
    for x y b by simp
  show ?thesis unfolding string_byte_def Let_def by (intro i; simp)
qed

lemma emitted_byte: "\<exists>es. jf_emitted (json_byte j c) = jf_emitted j @ es"
  using emitted_struct [of "j_scalar j" c] emitted_struct [of j c]
  by (cases "jf_mode j") (auto simp: json_byte_def Let_def)

lemma emitted_feed: "\<exists>es. jf_emitted (json_feed j s) = jf_emitted j @ es"
proof (induction s arbitrary: j)
  case (Cons c s)
  obtain es where "jf_emitted (json_byte j c) = jf_emitted j @ es" using emitted_byte by blast
  with Cons.IH [of "json_byte j c"] show ?case by auto
qed simp

text \<open>The callback leaves the parser alone, so it can run after all the bytes.\<close>

lemma emit_parser: "parser_emit (b\<lparr>rb_parser := p\<rparr>) f = (parser_emit b f)\<lparr>rb_parser := p\<rparr>"
  by (simp add: parser_emit_def rb_merge_def rb_fail_def Let_def)

lemma emits_parser: "foldl parser_emit (b\<lparr>rb_parser := p\<rparr>) fs = (foldl parser_emit b fs)\<lparr>rb_parser := p\<rparr>"
  by (induction fs arbitrary: b) (simp_all add: emit_parser)

lemma parser_bytes:
  "foldl parser_byte b s =
     (foldl parser_emit b (drop (length (jf_emitted (rb_parser b))) (jf_emitted (json_feed (rb_parser b) s))))
       \<lparr>rb_parser := json_feed (rb_parser b) s\<rparr>"
proof (induction s arbitrary: b)
  case Nil
  then show ?case by simp
next
  case (Cons c s)
  let ?p = "rb_parser b"
  obtain es where es: "jf_emitted (json_byte ?p c) = jf_emitted ?p @ es" using emitted_byte by blast
  obtain fs where fs: "jf_emitted (json_feed (json_byte ?p c) s) = jf_emitted (json_byte ?p c) @ fs"
    using emitted_feed by blast
  have b: "parser_byte b c = (foldl parser_emit b es)\<lparr>rb_parser := json_byte ?p c\<rparr>"
    by (simp add: parser_byte_def es emits_parser Let_def)
  from Cons.IH [of "parser_byte b c"] show ?case
    by (simp add: b es fs emits_parser)
qed

section \<open>Merging\<close>

definition has_error :: "fields \<Rightarrow> bool" where
  "has_error f \<longleftrightarrow> f ''error'' \<noteq> None"

text \<open>The sample: later fields replace earlier ones, objects with an error are not merged.\<close>

definition merged :: "fields list \<Rightarrow> fields" where
  "merged fs = foldl (++) Map.empty (filter (\<lambda>f. \<not> has_error f) fs)"

lemma merge_facts:
  "rb_sample (rb_merge f b) = (if has_error f then rb_sample b else rb_sample b ++ f)"
  "rb_failed (rb_merge f b) = (rb_failed b \<or> has_error f)"
  "rb_failure (rb_merge f b) = (if has_error f \<and> rb_failure b = [] then ''upstream_error'' else rb_failure b)"
  "rb_seen (rb_merge f b) = rb_seen b" "rb_sse (rb_merge f b) = rb_sse b"
  by (simp_all add: rb_merge_def rb_fail_def has_error_def Let_def)

lemma native_emits:
  assumes "\<not> rb_sse b"
  shows "rb_sample (foldl parser_emit b fs) = foldl (++) (rb_sample b) (filter (\<lambda>f. \<not> has_error f) fs)
    \<and> rb_failed (foldl parser_emit b fs) = (rb_failed b \<or> list_ex has_error fs)
    \<and> rb_failure (foldl parser_emit b fs) =
        (if list_ex has_error fs \<and> rb_failure b = [] then ''upstream_error'' else rb_failure b)
    \<and> rb_seen (foldl parser_emit b fs) = (rb_seen b \<or> fs \<noteq> [])"
  using assms
proof (induction fs arbitrary: b)
  case (Cons f fs)
  have "\<not> rb_sse (parser_emit b f)"
    using Cons.prems by (simp add: parser_emit_def merge_facts Let_def)
  from Cons.IH [OF this] Cons.prems show ?case
    by (auto simp: parser_emit_def merge_facts Let_def)
qed simp

definition call_of :: "string \<times> string \<Rightarrow> rb_call" where
  "call_of v = CallResult (fst v) (snd v)"

text \<open>A native response read to its end in one piece.\<close>

lemma native_read:
  assumes "json_stream os s" "list_all within_limits os"
  shows "rb_log (fst (rb_read v (new_response_body False) s EOF)) =
    (if list_ex skips_members os then [CallNotice] else []) @
    (if list_ex (has_error \<circ> selected) os then [CallResult ''failed'' ''upstream_error'']
     else if os = [] then [CallResult ''skipped'' ''incomplete'']
     else [CallEmit (merged (map selected os)), call_of (v (merged (map selected os)))])"
proof -
  let ?b = "new_response_body False"
  have new: "rb_parser ?b = new_jfields" "\<not> rb_sse ?b" "rb_sample ?b = Map.empty" "\<not> rb_failed ?b" "rb_failure ?b = []"
    "\<not> rb_seen ?b" "rb_log ?b = []" "\<not> rb_noticed ?b" "\<not> rb_reported ?b" "\<not> rb_ended ?b" "jf_emitted new_jfields = []"
    by (simp_all add: new_response_body_def new_jfields_def)
  obtain fl kt where f: "json_feed new_jfields s = rdy [] fl (map selected os) (list_ex skips_members os) kt"
    using feed_stream [OF assms, of Map.empty "[]" False False] by (auto simp: new_jfields_rdy)
  define o1 where "o1 = rb_observe ?b s"
  have o1: "o1 = (foldl parser_emit ?b (map selected os))\<lparr>rb_parser := json_feed new_jfields s\<rparr>"
    using parser_bytes [of ?b s] new f by (simp add: o1_def rb_observe_def)
  have q: "quiet ?b o1"
    using quiet_foldl_emit [of ?b "map selected os"] by (simp add: o1 quiet_def)
  have facts: "rb_sample o1 = merged (map selected os)" "rb_failed o1 = list_ex (has_error \<circ> selected) os"
    "rb_failure o1 = (if list_ex (has_error \<circ> selected) os then ''upstream_error'' else [])"
    "rb_seen o1 = (os \<noteq> [])" "jf_key_skipped (rb_parser o1) = list_ex skips_members os"
    "json_complete (rb_parser o1)"
    using native_emits [OF new(2), of "map selected os"] new
    by (simp_all add: o1 merged_def f list_ex_iff)
  have frame: "rb_log o1 = []" "\<not> rb_noticed o1" "\<not> rb_reported o1" "\<not> rb_sse o1"
    using q new by (simp_all add: quiet_def)
  have tm: "rb_terminal o1 \<Longrightarrow> os \<noteq> []"
    using o1 by (cases os) (simp_all add: new_response_body_def)
  let ?n = "note_field_skip o1\<lparr>rb_ended := True\<rparr>"
  have n: "rb_log ?n = (if list_ex skips_members os then [CallNotice] else [])"
    using facts(5) frame by (simp add: note_field_skip_def)
  have read: "fst (rb_read v ?b s EOF) = rb_clean_eof v ?n"
    using new(10) by (simp add: rb_read_def o1_def)
  show ?thesis
    unfolding read
    using n facts frame tm
    by (auto simp: rb_clean_eof_def rb_flush_def rb_success_def call_emit_def call_of_def rb_report_def Let_def
        split: prod.split)
qed

text \<open>C1. A native response is extracted correctly, however its bytes arrive: for any text of a sequence of
  JSON objects within the limits, split into any reads and ended cleanly, the observer calls back
  exactly so: a notice if some field name was too long; then, if an object had an \<open>error\<close> field, the
  result \<open>failed\<close>/\<open>upstream_error\<close>; otherwise, if there was an object at all, \<open>emit\<close> once with the
  fields of all the objects merged, later ones winning, and its verdict as the result.\<close>

theorem native_response_extracted:
  assumes "json_stream os (concat ds @ d)" "list_all within_limits os"
  shows "rb_log (rb_ops v (new_response_body False) (map (\<lambda>d. OpRead d NoErr) ds @ [OpRead d EOF])) =
    (if list_ex skips_members os then [CallNotice] else []) @
    (if list_ex (has_error \<circ> selected) os then [CallResult ''failed'' ''upstream_error'']
     else if os = [] then [CallResult ''skipped'' ''incomplete'']
     else [CallEmit (merged (map selected os)), call_of (v (merged (map selected os)))])"
proof -
  have "\<not> rb_ended (new_response_body False)" by (simp add: new_response_body_def)
  from reads_concat [OF this, of v ds d EOF] native_read [OF assms] show ?thesis by simp
qed

theorem native_response_extracted_witness:
  "rb_log (rb_ops (\<lambda>_. (''success'', ''none'')) (new_response_body False)
     [OpRead ''{'' NoErr, OpRead (quote ''done'' @ '':true} '') EOF]) =
   [CallEmit [''done'' \<mapsto> ''true''], CallResult ''success'' ''none'']"
  using native_response_extracted [of "[[(''done'', JTok ''true'')]]" "[''{'']" "quote ''done'' @ '':true} ''"
      "\<lambda>_. (''success'', ''none'')"] demo_stream demo_selected
  by (simp add: has_error_def merged_def call_of_def)

section \<open>Line endings of event streams\<close>

definition nl :: char where "nl = CHR 0x0A"
definition cr :: char where "cr = CHR 0x0D"

text \<open>The same text with each line ending written as CR LF, and as CR.\<close>

definition crlf :: "string \<Rightarrow> string" where
  "crlf s = concat (map (\<lambda>c. if c = nl then [cr, nl] else [c]) s)"

definition cr_only :: "string \<Rightarrow> string" where
  "cr_only s = map (\<lambda>c. if c = nl then cr else c) s"

lemma nl_cr [simp]: "nl \<noteq> cr" "cr \<noteq> nl"
  by (simp_all add: nl_def cr_def)

lemma pending_note [simp]: "rb_pending_cr (note_field_skip b) = rb_pending_cr b"
  by simp

text \<open>No operation below \<open>Read\<close> looks at the pending flag or at whether the body has ended.\<close>

definition pend :: "bool \<Rightarrow> bool \<Rightarrow> rbody \<Rightarrow> rbody" where
  "pend p e b = b\<lparr>rb_pending_cr := p, rb_ended := e\<rparr>"

lemma pend_fail: "rb_fail r (pend p e b) = pend p e (rb_fail r b)"
  by (simp add: rb_fail_def pend_def)

lemma pend_merge: "rb_merge f (pend p e b) = pend p e (rb_merge f b)"
  by (simp add: rb_merge_def rb_fail_def pend_def Let_def)

lemma pend_emit: "parser_emit (pend p e b) f = pend p e (parser_emit b f)"
  by (simp add: parser_emit_def rb_merge_def rb_fail_def pend_def Let_def)

lemma pend_emits: "foldl parser_emit (pend p e b) fs = pend p e (foldl parser_emit b fs)"
  by (induction fs arbitrary: b) (simp_all add: pend_emit)

lemma pend_sel [simp]:
  "rb_parser (pend p e b) = rb_parser b" "rb_marker (pend p e b) = rb_marker b" "rb_line_bytes (pend p e b) = rb_line_bytes b"
  "rb_line_data (pend p e b) = rb_line_data b" "rb_event_fields (pend p e b) = rb_event_fields b"
  "rb_prefix (pend p e b) = rb_prefix b" "rb_sse (pend p e b) = rb_sse b" "rb_pending_cr (pend p e b) = p" "rb_ended (pend p e b) = e"
  by (simp_all add: pend_def)

lemma pend_updates [simp]:
  "(pend p e b)\<lparr>rb_parser := x1\<rparr> = pend p e (b\<lparr>rb_parser := x1\<rparr>)" "(pend p e b)\<lparr>rb_marker := x2\<rparr> = pend p e (b\<lparr>rb_marker := x2\<rparr>)"
  "(pend p e b)\<lparr>rb_line_bytes := x3\<rparr> = pend p e (b\<lparr>rb_line_bytes := x3\<rparr>)"
  "(pend p e b)\<lparr>rb_line_data := x4\<rparr> = pend p e (b\<lparr>rb_line_data := x4\<rparr>)"
  "(pend p e b)\<lparr>rb_prefix := x5\<rparr> = pend p e (b\<lparr>rb_prefix := x5\<rparr>)"
  "(pend p e b)\<lparr>rb_event_fields := x6\<rparr> = pend p e (b\<lparr>rb_event_fields := x6\<rparr>)"
  "(pend p e b)\<lparr>rb_terminal := x7\<rparr> = pend p e (b\<lparr>rb_terminal := x7\<rparr>)"
  "(pend p e b)\<lparr>rb_pending_cr := x8\<rparr> = pend x8 e b" "pend p e (pend p' e' b) = pend p e b"
  "(pend p e b)\<lparr>rb_ended := x9\<rparr> = pend p x9 b"
  by (simp_all add: pend_def)

lemma pend_parser_byte: "parser_byte (pend p e b) c = pend p e (parser_byte b c)"
  by (simp add: parser_byte_def pend_emits Let_def)

lemma pend_note: "note_field_skip (pend p e b) = pend p e (note_field_skip b)"
  by (simp add: note_field_skip_def pend_def)

lemma pend_if: "(if b then pend p e x else pend p e y) = pend p e (if b then x else y)"
  by simp

lemma pend_dispatch: "rb_dispatch (pend p e b) = pend p e (rb_dispatch b)"
proof -
  have o: "(case x of None \<Rightarrow> pend p e m | Some f \<Rightarrow> pend p e (rb_merge f m)) =
      pend p e (case x of None \<Rightarrow> m | Some f \<Rightarrow> rb_merge f m)" for x m
    by (simp split: option.split)
  show ?thesis
    unfolding rb_dispatch_def Let_def pend_note
    by (simp only: pend_sel pend_updates pend_fail pend_if pend_merge o)
qed

lemma pend_newline: "sse_newline (pend p e b) = pend p e (sse_newline b)"
  by (simp add: sse_newline_def Let_def pend_dispatch pend_parser_byte)

lemma pend_data: "sse_data (pend p e b) c = pend p e (sse_data b c)"
  by (simp add: sse_data_def pend_fail pend_parser_byte)

lemma pend_sse_byte: "sse_byte (pend p e b) c = pend p e (sse_byte b c)"
  by (simp add: sse_byte_eq Let_def pend_newline pend_data)

lemma unpend: "pend (rb_pending_cr b) (rb_ended b) b = b"
  by (simp add: pend_def)

lemma sse_byte_pending [simp]:
  "rb_pending_cr (sse_byte b c) = rb_pending_cr b" "rb_ended (sse_byte b c) = rb_ended b"
proof -
  have "sse_byte b c = pend (rb_pending_cr b) (rb_ended b) (sse_byte b c)"
    by (simp add: unpend flip: pend_sse_byte)
  then show "rb_pending_cr (sse_byte b c) = rb_pending_cr b" "rb_ended (sse_byte b c) = rb_ended b"
    by (metis pend_sel(8), metis pend_sel(9))
qed

text \<open>The state once the pending line ending has been taken into account.\<close>

definition settled :: "rbody \<Rightarrow> rbody" where
  "settled b = (if rb_pending_cr b then sse_byte (pend False (rb_ended b) b) nl else b)"

lemma settled_pending [simp]: "\<not> rb_pending_cr (settled b)" "rb_ended (settled b) = rb_ended b"
  by (simp_all add: settled_def)

lemma unpend_settled: "pend False (rb_ended b) (settled b) = settled b"
  using unpend [of "settled b"] by simp

lemma read_byte_settled:
  "sse_read_byte b c =
     (if c = cr then pend True (rb_ended b) (if rb_pending_cr b \<and> c = nl then b else settled b)
      else if rb_pending_cr b \<and> c = nl then sse_byte (pend False (rb_ended b) b) nl
      else sse_byte (settled b) c)"
proof -
  have u: "b\<lparr>rb_pending_cr := False\<rparr> = pend False (rb_ended b) b" by (simp add: pend_def)
  have v: "x\<lparr>rb_pending_cr := True\<rparr> = pend True (rb_ended x) x" for x by (simp add: pend_def)
  show ?thesis
    by (simp add: sse_read_byte_def Let_def u v settled_def nl_def cr_def)
qed

lemma read_plain: "\<not> rb_pending_cr b \<Longrightarrow> c \<noteq> cr \<Longrightarrow> sse_read_byte b c = sse_byte b c"
  by (simp add: read_byte_settled settled_def)

lemma lf_run: "cr \<notin> set s \<Longrightarrow> \<not> rb_pending_cr b \<Longrightarrow> foldl sse_read_byte b s = foldl sse_byte b s"
  by (induction s arbitrary: b) (auto simp: read_plain)

lemma crlf_pair: "\<not> rb_pending_cr b \<Longrightarrow> sse_read_byte (sse_read_byte b cr) nl = sse_byte b nl"
  using unpend [of b] by (simp add: read_byte_settled settled_def)

lemma crlf_run: "cr \<notin> set s \<Longrightarrow> \<not> rb_pending_cr b \<Longrightarrow> foldl sse_read_byte b (crlf s) = foldl sse_byte b s"
proof (induction s arbitrary: b)
  case (Cons c s)
  then show ?case by (auto simp: crlf_def crlf_pair read_plain)
qed (simp add: crlf_def)

lemma cr_step: "c \<noteq> cr \<Longrightarrow> settled (sse_read_byte b (if c = nl then cr else c)) = sse_byte (settled b) c"
proof -
  assume c: "c \<noteq> cr"
  have "settled (pend True e (settled b)) = sse_byte (pend False e (settled b)) nl" for e
    by (simp add: settled_def [of "pend True e (settled b)"])
  then have "c = nl \<Longrightarrow> ?thesis" by (simp add: read_byte_settled unpend_settled)
  moreover have "c \<noteq> nl \<Longrightarrow> ?thesis"
    using c by (simp add: read_byte_settled settled_def [of "sse_byte (settled b) c"])
  ultimately show ?thesis by blast
qed

lemma cr_run: "cr \<notin> set s \<Longrightarrow> settled (foldl sse_read_byte b (cr_only s)) = foldl sse_byte (settled b) s"
proof (induction s arbitrary: b)
  case (Cons c s)
  then have "settled (sse_read_byte b (if c = nl then cr else c)) = sse_byte (settled b) c"
    by (intro cr_step) auto
  with Cons show ?case by (simp add: cr_only_def)
qed (simp add: cr_only_def)

text \<open>The end of the body flushes an unsettled state like the settled one.\<close>

lemma dispatch_note: "rb_dispatch (note_field_skip b) = rb_dispatch b"
  by (simp add: rb_dispatch_def)

lemma dispatch_late: "rb_dispatch (sse_byte (note_field_skip b) c) = rb_dispatch (sse_byte b c)"
proof -
  have "note_field_skip (sse_byte (note_field_skip b) c) = note_field_skip (sse_byte b c)"
    using late_note_sse_byte [of c] by (simp add: late_note_def)
  then show ?thesis by (metis dispatch_note)
qed

lemma newline_line_bytes [simp]: "\<not> rb_line_bytes (sse_byte b nl)"
  by (simp add: sse_byte_eq sse_newline_def nl_def Let_def)

lemma flush_settled:
  assumes "rb_sse b"
  shows "pend False True (rb_flush ((note_field_skip b)\<lparr>rb_ended := True\<rparr>)) =
    pend False True (rb_flush ((note_field_skip (settled b))\<lparr>rb_ended := True\<rparr>))"
proof (cases "rb_pending_cr b")
  case True
  have e: "x\<lparr>rb_ended := True\<rparr> = pend (rb_pending_cr x) True x" for x by (simp add: pend_def)
  have sse: "rb_sse (settled b)"
    using assms calm_sse_byte [of "pend False (rb_ended b) b" nl] by (simp add: settled_def calm_def)
  have "pend False True (rb_flush ((note_field_skip b)\<lparr>rb_ended := True\<rparr>)) =
      pend False True (rb_dispatch (sse_byte (note_field_skip b) nl))"
    using True assms by (simp add: rb_flush_def e pend_sse_byte pend_dispatch flip: nl_def)
  also have "\<dots> = pend False True (rb_dispatch (sse_byte b nl))" by (simp add: dispatch_late)
  also have "\<dots> = pend False True (rb_dispatch (settled b))"
    using True by (simp add: settled_def pend_sse_byte pend_dispatch)
  also have "\<dots> = pend False True (rb_flush ((note_field_skip (settled b))\<lparr>rb_ended := True\<rparr>))"
    using True sse by (simp add: rb_flush_def e pend_dispatch dispatch_note) (simp add: settled_def)
  finally show ?thesis .
qed (simp add: settled_def)

lemma eof_log:
  assumes "pend False True (rb_flush a) = pend False True (rb_flush b)"
  shows "rb_log (rb_clean_eof v a) = rb_log (rb_clean_eof v b)"
proof -
  have p: "rb_log (let b = x in if rb_success b then call_emit v b
      else if rb_failed b then rb_report ''failed'' (rb_failure b) b
      else if \<not> json_complete (rb_parser b) then rb_report ''failed'' (failure_reason (rb_parser b)) b
      else rb_report ''skipped'' ''incomplete'' b) =
    rb_log (let b = pend False True x in if rb_success b then call_emit v b
      else if rb_failed b then rb_report ''failed'' (rb_failure b) b
      else if \<not> json_complete (rb_parser b) then rb_report ''failed'' (failure_reason (rb_parser b)) b
      else rb_report ''skipped'' ''incomplete'' b)" for x
    by (simp add: pend_def rb_success_def call_emit_def rb_report_def Let_def split: prod.split)
  show ?thesis unfolding rb_clean_eof_def using p [of "rb_flush a"] p [of "rb_flush b"] assms by simp
qed

lemma read_settled:
  assumes "rb_sse b" "\<not> rb_ended b" "settled (rb_observe b s) = settled (rb_observe b t)"
  shows "rb_log (fst (rb_read v b s EOF)) = rb_log (fst (rb_read v b t EOF))"
proof -
  have "rb_sse (rb_observe b u)" for u using calm_observe [of b u] assms(1) by (simp add: calm_def)
  then have "pend False True (rb_flush ((note_field_skip (rb_observe b s))\<lparr>rb_ended := True\<rparr>)) =
      pend False True (rb_flush ((note_field_skip (rb_observe b t))\<lparr>rb_ended := True\<rparr>))"
    using flush_settled [of "rb_observe b s"] flush_settled [of "rb_observe b t"] assms(3) by simp
  from eof_log [OF this] assms(2) show ?thesis by (simp add: rb_read_def)
qed

lemma line_endings_read:
  assumes s: "cr \<notin> set s" and t: "text \<in> {s, crlf s, cr_only s}"
  shows "rb_log (fst (rb_read v (new_response_body True) text EOF)) =
    rb_log (fst (rb_read v (new_response_body True) s EOF))"
proof -
  let ?b = "new_response_body True"
  have b: "rb_sse ?b" "\<not> rb_ended ?b" "\<not> rb_pending_cr ?b" by (simp_all add: new_response_body_def)
  have "settled (foldl sse_byte ?b s) = foldl sse_byte ?b s" for s
  proof -
    have "\<not> rb_pending_cr i \<Longrightarrow> \<not> rb_pending_cr (foldl sse_byte i s)" for i
      by (induction s arbitrary: i) simp_all
    then show ?thesis using b(3) by (simp add: settled_def)
  qed
  then have "settled (rb_observe ?b text) = foldl sse_byte ?b s" "settled (rb_observe ?b s) = foldl sse_byte ?b s"
    using t lf_run [OF s b(3)] crlf_run [OF s b(3)] cr_run [OF s, of ?b] b
    by (auto simp: rb_observe_def) (simp_all add: settled_def)
  then show ?thesis by (intro read_settled b) simp
qed

text \<open>An event stream is read the same whichever line ending it uses: LF, CR LF or a lone CR, all
  three of which the event stream format allows, lead to the same callbacks, also when the line
  endings are split between reads and when the stream ends in the middle of one.\<close>

theorem line_endings_equivalent:
  assumes "CHR 0x0D \<notin> set s" "text \<in> {s, crlf s, cr_only s}" "concat ds @ d = text"
  shows "rb_log (rb_ops v (new_response_body True) (map (\<lambda>d. OpRead d NoErr) ds @ [OpRead d EOF])) =
    rb_log (fst (rb_read v (new_response_body True) s EOF))"
proof -
  have "\<not> rb_ended (new_response_body True)" by (simp add: new_response_body_def)
  from reads_concat [OF this, of v ds d EOF] line_endings_read [of s "text" v] assms show ?thesis
    by (simp add: cr_def)
qed

theorem line_endings_equivalent_witness:
  "rb_log (rb_ops (\<lambda>_. (''a'', ''b'')) (new_response_body True) [OpRead (''data: {}'' @ [CHR 0x0D]) NoErr, OpRead [CHR 0x0A] EOF]) =
   rb_log (fst (rb_read (\<lambda>_. (''a'', ''b'')) (new_response_body True) (''data: {}'' @ [CHR 0x0A]) EOF))"
  using line_endings_equivalent [of "''data: {}'' @ [CHR 0x0A]" "''data: {}'' @ [CHR 0x0D, CHR 0x0A]"
      "[''data: {}'' @ [CHR 0x0D]]" "[CHR 0x0A]" "\<lambda>_. (''a'', ''b'')"]
  by (simp add: crlf_def nl_def cr_def)

end
