(* ===== verification/EndToEnd.thy ===== *)
theory EndToEnd
  imports ResponseCorrect Proxy
begin

text \<open>
  The proxy as a whole: from the bytes of a response, however the server reads them, through the
  response hook, the recognizer and the extraction, to the calls on the metrics.
\<close>

lemma observed_response:
  assumes "rq_method (rs_request resp) = ''POST''" "inference_path (rq_path (rs_request resp))"
    and "rq_path (rs_request resp) \<notin> set exclude_paths" "200 \<le> rs_status resp" "rs_status resp < 300"
  shows "modify_response exclude_paths resp = Observed (compat_path (rq_path (rs_request resp)))
    (new_response_body (compat_path (rq_path (rs_request resp)) \<and> has_prefix (rs_content_type resp) ''text/event-stream''))"
  using assms by (simp add: modify_response_def Let_def)

lemma callbacks_append:
  "callbacks_calls uni s cp rq mc (xs @ ys) =
     (let (mc1, as) = callbacks_calls uni s cp rq mc xs; (mc2, bs) = callbacks_calls uni s cp rq mc1 ys
      in (mc2, as @ bs))"
  by (induction xs arbitrary: mc) (simp_all add: Let_def split_def)

text \<open>C2. From the bytes to the metrics: a successful response to an observed request that is not an event
  stream, whose body is the text of a sequence of JSON objects within the limits, makes exactly these
  metric calls, however its bytes are split into reads: one for a field name that was too long; then
  either the one result for an error object or an empty body, or what the merged fields of all the
  objects record, followed by the verdict on them.\<close>

theorem response_bytes_to_metric_calls:
  assumes "json_stream os (concat ds @ d)" "list_all within_limits os"
    and "rq_method (rs_request resp) = ''POST''" "inference_path (rq_path (rs_request resp))"
    and "rq_path (rs_request resp) \<notin> set exclude_paths" "200 \<le> rs_status resp" "rs_status resp < 300"
    and "compat_path (rq_path (rs_request resp)) \<longrightarrow> \<not> has_prefix (rs_content_type resp) ''text/event-stream''"
  shows "snd (exchange uni s exclude_paths mc resp (map (\<lambda>d. OpRead d NoErr) ds @ [OpRead d EOF])) =
    (if list_ex skips_members os then [MInc ExtractionFieldSkips [''field_name_limit'']] else [])
    @ (if list_ex (has_error \<circ> selected) os then [MInc ExtractionResults [''failed'', ''upstream_error'']]
       else if os = [] then [MInc ExtractionResults [''skipped'', ''incomplete'']]
       else let (mc', calls, outcome, reason) = record_sample uni s mc (compat_path (rq_path (rs_request resp)))
                  (rq_model (rs_request resp)) (rq_path (rs_request resp)) (merged (map selected os))
            in calls @ [MInc ExtractionResults [outcome, reason]])"
proof -
  let ?cp = "compat_path (rq_path (rs_request resp))" and ?f = "merged (map selected os)"
  let ?v = "sample_verdict ?cp" and ?b = "new_response_body False"
  have m: "modify_response exclude_paths resp = Observed ?cp ?b"
  proof -
    have "(?cp \<and> has_prefix (rs_content_type resp) ''text/event-stream'') = False" using assms(8) by blast
    from observed_response [OF assms(3-7), unfolded this] show ?thesis .
  qed
  have "\<not> rb_ended ?b" by (simp add: new_response_body_def)
  from reads_concat [OF this, of ?v ds d EOF] native_read [OF assms(1,2), of ?v]
  have log: "rb_log (rb_ops ?v ?b (map (\<lambda>d. OpRead d NoErr) ds @ [OpRead d EOF])) =
      (if list_ex skips_members os then [CallNotice] else []) @
      (if list_ex (has_error \<circ> selected) os then [CallResult ''failed'' ''upstream_error'']
       else if os = [] then [CallResult ''skipped'' ''incomplete''] else [CallEmit ?f, call_of (?v ?f)])"
    by simp
  have "?v ?f = snd (snd (record_sample uni s mc ?cp (rq_model (rs_request resp)) (rq_path (rs_request resp)) ?f))"
    by (simp add: record_sample_verdict)
  then show ?thesis
    by (simp add: exchange_def m log callbacks_append call_of_def Let_def split_def)
qed

theorem response_bytes_to_metric_calls_witness:
  "last (snd (exchange id (\<lambda>_. None) [] new_model_cache (demo_response ''/api/chat'')
     [OpRead ''{'' NoErr, OpRead (quote ''done'' @ '':true} '') EOF])) = MInc ExtractionResults [''success'', ''none'']"
proof -
  have "decode_generate [''done'' \<mapsto> ''true''] = Some \<lparr>g_model = [], g_done = True, g_load_duration = 0,
      g_prompt_eval_count = 0, g_prompt_eval_duration = 0, g_eval_count = 0, g_eval_duration = 0\<rparr>"
    by code_simp
  moreover have "rs_request (demo_response ''/api/chat'') = demo_request ''/api/chat''"
    "rs_status (demo_response ''/api/chat'') = 200" "rq_path (demo_request ''/api/chat'') = ''/api/chat''"
    "rq_method (demo_request ''/api/chat'') = ''POST''" "inference_path ''/api/chat''" "\<not> compat_path ''/api/chat''"
    by (simp_all add: demo_response_def demo_request_def inference_path_def compat_path_def)
  ultimately show ?thesis
    using response_bytes_to_metric_calls [of "[[(''done'', JTok ''true'')]]" "[''{'']" "quote ''done'' @ '':true} ''"
        "demo_response ''/api/chat''" "[]" id "\<lambda>_. None" new_model_cache] demo_stream demo_selected
    by (simp add: has_error_def merged_def record_sample_def split_def Let_def)
qed

end
