(* ===== verification/EventStream.thy ===== *)
theory EventStream
  imports EndToEnd
begin

text \<open>
  Event streams of the compatibility endpoints: what the response observer extracts from a well-formed
  stream of server-sent events, and the metric calls that follow. An event is a block of lines that a
  blank line ends; its \<open>data\<close> lines together hold one JSON object or the marker \<^verbatim>\<open>[DONE]\<close>, other lines
  (\<open>event:\<close>, \<open>id:\<close>, comments) are free.
\<close>

section \<open>The grammar of a stream\<close>

datatype sse_line = DataLine string | OtherLine string

primrec render_line :: "sse_line \<Rightarrow> string" where
  "render_line (DataLine d) = ''data:'' @ d @ [CHR 0x0A]"
| "render_line (OtherLine l) = l @ [CHR 0x0A]"

primrec line_payload :: "sse_line \<Rightarrow> string" where
  "line_payload (DataLine d) = d @ [CHR 0x0A]"
| "line_payload (OtherLine l) = []"

definition one_line :: "string \<Rightarrow> bool" where
  "one_line s \<longleftrightarrow> CHR 0x0A \<notin> set s \<and> CHR 0x0D \<notin> set s"

primrec line_ok :: "sse_line \<Rightarrow> bool" where
  "line_ok (DataLine d) \<longleftrightarrow> one_line d"
| "line_ok (OtherLine l) \<longleftrightarrow> one_line l \<and> l \<noteq> [] \<and> take 5 l \<noteq> ''data:''"

definition render :: "sse_line list \<Rightarrow> string" where
  "render ls = concat (map render_line ls)"

definition payload :: "sse_line list \<Rightarrow> string" where
  "payload ls = concat (map line_payload ls)"

text \<open>An event with an object, the end marker, or no data at all.\<close>

datatype sse_event = ObjectEvent "(string \<times> json) list" | DoneEvent | EmptyEvent

inductive event_block :: "sse_event \<Rightarrow> string \<Rightarrow> bool" where
  object: "list_all line_ok ls \<Longrightarrow> payload ls = a @ s @ b \<Longrightarrow> ws a \<Longrightarrow> ws b \<Longrightarrow> json_text (JObj ms) s \<Longrightarrow>
    event_block (ObjectEvent ms) (render ls @ [CHR 0x0A])"
| marker: "list_all line_ok (ls @ DataLine (a @ ''[DONE]'' @ replicate n CHR 0x20) # ls') \<Longrightarrow> payload ls = [] \<Longrightarrow>
    payload ls' = [] \<Longrightarrow> ws a \<Longrightarrow> n \<le> 26 \<Longrightarrow>
    event_block DoneEvent (render (ls @ DataLine (a @ ''[DONE]'' @ replicate n CHR 0x20) # ls') @ [CHR 0x0A])"
| empty: "list_all line_ok ls \<Longrightarrow> payload ls = [] \<Longrightarrow> event_block EmptyEvent (render ls @ [CHR 0x0A])"

inductive event_stream :: "sse_event list \<Rightarrow> string \<Rightarrow> bool" where
  no_event: "event_stream [] []"
| next_event: "event_block e s \<Longrightarrow> event_stream es t \<Longrightarrow> event_stream (e # es) (s @ t)"

fun objects :: "sse_event list \<Rightarrow> (string \<times> json) list list" where
  "objects [] = []"
| "objects (ObjectEvent ms # es) = ms # objects es"
| "objects (DoneEvent # es) = objects es"
| "objects (EmptyEvent # es) = objects es"

section \<open>Lines\<close>

text \<open>The fields that only the line decoder reads.\<close>

definition lined :: "string \<Rightarrow> bool \<Rightarrow> bool \<Rightarrow> rbody \<Rightarrow> rbody" where
  "lined p d n b = b\<lparr>rb_prefix := p, rb_line_data := d, rb_line_bytes := n\<rparr>"

lemma lined_sel [simp]:
  "rb_prefix (lined p d n b) = p" "rb_line_data (lined p d n b) = d" "rb_line_bytes (lined p d n b) = n"
  "rb_marker (lined p d n b) = rb_marker b" "rb_parser (lined p d n b) = rb_parser b"
  "rb_event_fields (lined p d n b) = rb_event_fields b" "rb_sse (lined p d n b) = rb_sse b"
  "lined p d n (lined p' d' n' b) = lined p d n b"
  by (simp_all add: lined_def)

lemma lined_upd [simp]:
  "(lined p d n b)\<lparr>rb_line_bytes := n'\<rparr> = lined p d n' b" "(lined p d n b)\<lparr>rb_prefix := p'\<rparr> = lined p' d n b"
  "(lined p d n b)\<lparr>rb_line_data := d'\<rparr> = lined p d' n b"
  by (simp_all add: lined_def)

lemma lined_merge: "rb_merge f (lined p d n b) = lined p d n (rb_merge f b)"
  by (simp add: rb_merge_def rb_fail_def lined_def Let_def)

lemma lined_emit: "parser_emit (lined p d n b) f = lined p d n (parser_emit b f)"
proof (cases "rb_sse b")
  case True
  then show ?thesis by (simp add: parser_emit_def lined_def rb_fail_def Let_def)
next
  case False
  have "(lined p d n b)\<lparr>rb_seen := True\<rparr> = lined p d n (b\<lparr>rb_seen := True\<rparr>)" by (simp add: lined_def)
  with False show ?thesis by (simp add: parser_emit_def lined_merge Let_def)
qed

lemma lined_emits: "foldl parser_emit (lined p d n b) fs = lined p d n (foldl parser_emit b fs)"
  by (induction fs arbitrary: b) (simp_all add: lined_emit)

lemma lined_byte: "parser_byte (lined p d n b) c = lined p d n (parser_byte b c)"
proof -
  have "(lined p d n b)\<lparr>rb_parser := q\<rparr> = lined p d n (b\<lparr>rb_parser := q\<rparr>)" for q by (simp add: lined_def)
  then show ?thesis by (simp add: parser_byte_def lined_emits Let_def)
qed

lemma lined_bytes: "foldl parser_byte (lined p d n b) s = lined p d n (foldl parser_byte b s)"
  by (induction s arbitrary: b) (simp_all add: lined_byte)

text \<open>At the start of a line, outside a marker.\<close>

definition line_start :: "rbody \<Rightarrow> bool" where
  "line_start b \<longleftrightarrow> rb_prefix b = [] \<and> \<not> rb_line_data b \<and> \<not> rb_line_bytes b \<and> rb_marker b = []"

lemma line_start_lined: "line_start b \<longleftrightarrow> lined [] False False b = b \<and> rb_marker b = []"
proof
  assume "line_start b"
  then show "lined [] False False b = b \<and> rb_marker b = []" by (simp add: lined_def line_start_def)
next
  assume "lined [] False False b = b \<and> rb_marker b = []"
  then show "line_start b" unfolding line_start_def by (metis lined_sel(1-3))
qed

lemma emits_marker: "rb_marker (foldl parser_emit b fs) = rb_marker b"
proof -
  have "rb_marker (parser_emit b f) = rb_marker b" for b f
    by (simp add: parser_emit_def rb_merge_def rb_fail_def Let_def)
  then show ?thesis by (induction fs arbitrary: b) simp_all
qed

lemma bytes_marker [simp]: "rb_marker (foldl parser_byte b s) = rb_marker b"
  by (induction s arbitrary: b) (simp_all add: parser_byte_def emits_marker Let_def)

lemma bytes_parser: "rb_parser (foldl parser_byte b s) = json_feed (rb_parser b) s"
  by (induction s arbitrary: b) simp_all

lemma line_start_bytes: "line_start b \<Longrightarrow> line_start (foldl parser_byte b s)"
  using lined_bytes [of "[]" False False b s] by (simp add: line_start_lined)

text \<open>A line that is not a data line changes nothing.\<close>

fun prefix_after :: "string \<Rightarrow> string \<Rightarrow> string" where
  "prefix_after p [] = p"
| "prefix_after p (c # s) = prefix_after (if length p < 6 then p @ encode_rune (byte c) else p) s"

lemma prefix_after_grows: "length p \<le> length (prefix_after p s)"
proof (induction p s rule: prefix_after.induct)
  case (2 p c s)
  then show ?case by (cases "length p < 6") auto
qed simp

lemma ascii_rune: "list_all (\<lambda>c. byte c < 128) (encode_rune (byte c)) \<Longrightarrow> encode_rune (byte c) = [c]"
proof -
  have "byte c < 256" by (simp add: byte_def)
  moreover have "byte (char_of (192 + byte c div 64)) = 192 + byte c div 64" if "byte c < 256"
    using that by (subst byte_char_of) simp
  ultimately show "list_all (\<lambda>c. byte c < 128) (encode_rune (byte c)) \<Longrightarrow> encode_rune (byte c) = [c]"
    by (auto simp: encode_rune_def eq_char_of split: if_splits) (simp add: byte_def)
qed

lemma prefix_after_ascii:
  "prefix_after p s = q \<Longrightarrow> length q \<le> 5 \<Longrightarrow> list_all (\<lambda>c. byte c < 128) q \<Longrightarrow> p @ s = q"
proof (induction p s rule: prefix_after.induct)
  case (2 p c s)
  have "length p < 6" using 2(2,3) prefix_after_grows [of p "c # s"] by simp
  with 2 have q: "(p @ encode_rune (byte c)) @ s = q" by simp
  with 2(4) have "encode_rune (byte c) = [c]" by (intro ascii_rune) auto
  with q show ?case by simp
qed simp


lemma other_bytes:
  "CHR 0x0A \<notin> set s \<Longrightarrow> (\<And>u v. s = u @ v \<Longrightarrow> u \<noteq> [] \<Longrightarrow> prefix_after p u \<noteq> ''data:'') \<Longrightarrow>
   foldl sse_byte (lined p False n b) s = lined (prefix_after p s) False (n \<or> s \<noteq> []) b"
proof (induction s arbitrary: p n)
  case (Cons c s)
  let ?p = "if length p < 6 then p @ encode_rune (byte c) else p"
  have "?p \<noteq> ''data:''" using Cons.prems(2) [of "[c]" s] by simp
  then have "sse_byte (lined p False n b) c = lined ?p False True b"
    using Cons.prems(1) by (auto simp: sse_byte_def Let_def)
  moreover have "prefix_after ?p u \<noteq> ''data:''" if "s = u @ v" "u \<noteq> []" for u v
    using Cons.prems(2) [of "c # u" v] that by simp
  ultimately show ?case using Cons.IH [of ?p True] Cons.prems(1) by simp
qed simp

lemma other_line:
  assumes b: "lined [] False False b = b" and "line_ok (OtherLine l)"
  shows "foldl sse_byte b (l @ [CHR 0x0A]) = b"
proof -
  have "prefix_after [] u \<noteq> ''data:''" if "l = u @ v" for u v
  proof
    assume "prefix_after [] u = ''data:''"
    then have "u = ''data:''" using prefix_after_ascii [of "[]" u "''data:''"] by (simp add: byte_def)
    with that assms(2) show False by simp
  qed
  then have "foldl sse_byte b l = lined (prefix_after [] l) False True b"
    using other_bytes [of l "[]" False b] assms(2) b by (simp add: one_line_def)
  then show ?thesis by (simp add: sse_byte_def sse_newline_def b)
qed

lemma data_prefix: "foldl sse_byte (lined [] False False b) ''data:'' = lined ''data:'' True True b"
proof -
  have "encode_rune (byte c) = [c]" if "c \<in> set ''data:''" for c
    using that by (auto simp: encode_rune_def byte_def)
  then show ?thesis by (simp add: sse_byte_def Let_def)
qed

text \<open>Where the recognizer is complete an opening bracket would start a marker. It spoils the
  recognizer for good, so it does not occur there in a payload that is recognized.\<close>

definition unmarked :: "jfields \<Rightarrow> string \<Rightarrow> bool" where
  "unmarked j s \<longleftrightarrow> (\<forall>u v. s = u @ CHR ''['' # v \<longrightarrow> \<not> json_complete (json_feed j u))"

lemma feed_bad: "jf_bad j \<Longrightarrow> json_feed j s = j"
  by (induction s) (simp_all add: json_byte_def)

lemma complete_unmarked:
  assumes "json_complete (json_feed j s)"
  shows "unmarked j s"
  unfolding unmarked_def
proof (intro allI impI notI)
  fix u v
  assume s: "s = u @ CHR ''['' # v" and c: "json_complete (json_feed j u)"
  have "jf_bad (json_byte (json_feed j u) (CHR ''[''))"
    using c by (simp add: json_complete_def json_byte_def struct_byte_def mark_bad_def)
  then have "jf_bad (json_feed j s)" by (simp add: s json_feed_append feed_bad)
  with assms show False by (simp add: json_complete_def)
qed

lemma unmarked_append: "unmarked j (s @ t) \<Longrightarrow> unmarked j s \<and> unmarked (json_feed j s) t"
  unfolding unmarked_def by (metis append.assoc append_Cons json_feed_append)

lemma data_bytes:
  "CHR 0x0A \<notin> set s \<Longrightarrow> rb_marker b = [] \<Longrightarrow> unmarked (rb_parser b) s \<Longrightarrow>
   foldl sse_byte (lined p True True b) s = lined p True True (foldl parser_byte b s)"
proof (induction s arbitrary: b)
  case (Cons c s)
  have u: "unmarked (rb_parser b) [c]" "unmarked (json_byte (rb_parser b) c) s"
    using unmarked_append [of "rb_parser b" "[c]" s] Cons.prems(3) by simp_all
  have "sse_byte (lined p True True b) c = sse_data (lined p True True b) c"
    using Cons.prems(1) by (auto simp: sse_byte_def Let_def)
  also have "\<dots> = lined p True True (parser_byte b c)"
    using spec [OF u(1) [unfolded unmarked_def], of "[]"] Cons.prems(2) by (auto simp: sse_data_def lined_byte)
  finally show ?case using Cons.IH [of "parser_byte b c"] Cons.prems u(2) bytes_marker [of b "[c]"] by simp
qed simp

lemma data_line:
  assumes "line_start b" "one_line d" "unmarked (rb_parser b) d"
  shows "foldl sse_byte b (''data:'' @ d @ [CHR 0x0A]) = foldl parser_byte b (d @ [CHR 0x0A])"
proof -
  have b: "lined [] False False b = b" "rb_marker b = []" using assms(1) by (simp_all add: line_start_lined)
  have "foldl sse_byte b (''data:'' @ d) = lined ''data:'' True True (foldl parser_byte b d)"
    using data_prefix [of b] data_bytes [of d b "''data:''"] assms b by (simp add: one_line_def)
  then have "foldl sse_byte b (''data:'' @ d @ [CHR 0x0A]) = sse_newline (lined ''data:'' True True (foldl parser_byte b d))"
    by (simp add: sse_byte_def)
  also have "\<dots> = lined [] False False (foldl parser_byte b (d @ [CHR 0x0A]))"
    by (simp add: sse_newline_def b(2) lined_byte)
  also have "\<dots> = foldl parser_byte b (d @ [CHR 0x0A])" using b(1) by (simp only: lined_bytes [symmetric])
  finally show ?thesis .
qed

lemma lines_run:
  "line_start b \<Longrightarrow> list_all line_ok ls \<Longrightarrow> unmarked (rb_parser b) (payload ls) \<Longrightarrow>
   foldl sse_byte b (render ls) = foldl parser_byte b (payload ls)"
proof (induction ls arbitrary: b)
  case (Cons l ls)
  have u: "unmarked (rb_parser b) (line_payload l)" "unmarked (json_feed (rb_parser b) (line_payload l)) (payload ls)"
    using unmarked_append [of "rb_parser b" "line_payload l" "payload ls"] Cons.prems(3) by (simp_all add: payload_def)
  have "foldl sse_byte b (render_line l) = foldl parser_byte b (line_payload l)"
  proof (cases l)
    case (DataLine d)
    then have "unmarked (rb_parser b) d" using unmarked_append [of "rb_parser b" d "[CHR 0x0A]"] u(1) by simp
    with data_line [OF Cons.prems(1) _ this] DataLine Cons.prems(2) show ?thesis by simp
  next
    case (OtherLine l')
    with other_line [of b l'] Cons.prems(1,2) show ?thesis by (simp add: line_start_lined)
  qed
  moreover have "rb_parser (foldl parser_byte b (line_payload l)) = json_feed (rb_parser b) (line_payload l)"
    by (rule bytes_parser)
  ultimately show ?case
    using Cons.IH [OF line_start_bytes [OF Cons.prems(1)]] Cons.prems(2) u(2) by (simp add: render_def payload_def)
qed (simp add: render_def payload_def)

section \<open>Events\<close>

text \<open>The state between two events, and what an event does to it.\<close>

definition between :: "rbody \<Rightarrow> bool" where
  "between b \<longleftrightarrow> line_start b \<and> rb_parser b = new_jfields \<and> rb_event_fields b = None \<and> rb_sse b"

definition note_if :: "bool \<Rightarrow> rbody \<Rightarrow> rbody" where
  "note_if k b = (if k \<and> \<not> rb_noticed b then b\<lparr>rb_noticed := True, rb_log := rb_log b @ [CallNotice]\<rparr> else b)"

primrec event_step :: "rbody \<Rightarrow> sse_event \<Rightarrow> rbody" where
  "event_step b (ObjectEvent ms) = rb_merge (selected ms) (note_if (skips_members ms) (b\<lparr>rb_seen := True\<rparr>))"
| "event_step b DoneEvent = b\<lparr>rb_terminal := True\<rparr>"
| "event_step b EmptyEvent = b"

lemma between_event: "between b \<Longrightarrow> between (event_step b e)"
  by (cases e) (simp_all add: between_def line_start_def lined_def note_if_def rb_merge_def rb_fail_def Let_def)


lemma blank_line: "line_start b \<Longrightarrow> sse_byte b (CHR 0x0A) = lined [] False False (rb_dispatch b)"
  by (simp add: sse_byte_def sse_newline_def line_start_def lined_def Let_def)

lemma reset_between: "between b \<Longrightarrow>
    lined [] False False (b\<lparr>rb_parser := j, rb_event_fields := None, rb_marker := [], rb_parser := new_jfields\<rparr>) = b"
  by (simp add: between_def line_start_def lined_def)

lemma dispatch_object:
  assumes "rb_marker b = []" "json_complete j" "jf_key_skipped j = k" "rb_event_fields b = None"
  shows "rb_dispatch ((b\<lparr>rb_event_fields := Some f\<rparr>)\<lparr>rb_parser := j\<rparr>) =
    (rb_merge f (note_if k b))\<lparr>rb_parser := j, rb_event_fields := None, rb_marker := [], rb_parser := new_jfields\<rparr>"
proof -
  let ?b = "(b\<lparr>rb_event_fields := Some f\<rparr>)\<lparr>rb_parser := j\<rparr>"
  have n: "note_field_skip ?b = ((note_if k b)\<lparr>rb_event_fields := Some f\<rparr>)\<lparr>rb_parser := j\<rparr>"
    by (simp add: note_field_skip_def note_if_def assms(3))
  have m: "rb_merge f ((x\<lparr>rb_event_fields := Some f\<rparr>)\<lparr>rb_parser := j\<rparr>) = ((rb_merge f x)\<lparr>rb_event_fields := Some f\<rparr>)\<lparr>rb_parser := j\<rparr>" for x
    by (simp add: rb_merge_def rb_fail_def Let_def)
  have "rb_marker (note_if k b) = []" by (simp add: note_if_def assms(1))
  then show ?thesis unfolding rb_dispatch_def n by (simp add: Let_def assms(2) m)
qed

lemma object_event:
  assumes b: "between b" and ls: "list_all line_ok ls" "payload ls = w @ s @ x" "ws w" "ws x"
    and s: "json_text (JObj ms) s" "within_limits ms"
  shows "foldl sse_byte b (render ls @ [CHR 0x0A]) = event_step b (ObjectEvent ms)"
proof -
  have l: "line_start b" and p: "rb_parser b = new_jfields" and e: "rb_event_fields b = None" "rb_sse b"
    using b by (simp_all add: between_def)
  obtain kt where "json_feed (rdy [] Map.empty [] False False) s = rdy [] (selected ms) ([] @ [selected ms]) (False \<or> skips_members ms) kt"
    by (rule feed_top [OF s])
  then have f: "json_feed new_jfields (payload ls) = rdy [] (selected ms) [selected ms] (skips_members ms) kt" (is "_ = ?j")
    by (simp add: ls(2) json_feed_append new_jfields_rdy feed_space ls(3,4))
  have j: "json_complete ?j" "jf_emitted ?j = [selected ms]" "jf_key_skipped ?j = skips_members ms"
    by (simp_all add: json_complete_def)
  have "jf_emitted new_jfields = []" by (simp add: new_jfields_def)
  then have run: "foldl parser_byte b (payload ls) =
      (b\<lparr>rb_seen := True, rb_event_fields := Some (selected ms)\<rparr>)\<lparr>rb_parser := ?j\<rparr>" (is "_ = ?b1")
    using parser_bytes [of b "payload ls"] e p f by (simp add: parser_emit_def)
  have "foldl sse_byte b (render ls) = ?b1"
    using lines_run [OF l ls(1)] complete_unmarked [of "rb_parser b" "payload ls"] run f j(1) p by simp
  moreover have "line_start ?b1" using l by (simp add: line_start_def)
  moreover have "lined [] False False (rb_dispatch ?b1) = event_step b (ObjectEvent ms)"
    using dispatch_object [of "b\<lparr>rb_seen := True\<rparr>" ?j "skips_members ms" "selected ms"] j l e
      reset_between [OF between_event [OF b, of "ObjectEvent ms"], of ?j] by (simp add: line_start_def)
  ultimately show ?thesis using blank_line [of ?b1] by simp
qed

lemma payload_simps [simp]: "payload [] = []" "payload (l # ls) = line_payload l @ payload ls"
    "payload (ls @ ls') = payload ls @ payload ls'" "render [] = []" "render (l # ls) = render_line l @ render ls"
    "render (ls @ ls') = render ls @ render ls'"
  by (simp_all add: payload_def render_def)

lemma unmarked_Nil [simp]: "unmarked j []"
  by (simp add: unmarked_def)

lemma dispatch_idle:
  assumes "between b"
  shows "lined [] False False (rb_dispatch b) = b"
proof -
  have "note_field_skip b = b" using assms by (simp add: between_def note_field_skip_def new_jfields_def)
  then show ?thesis using assms
    by (simp add: between_def line_start_def rb_dispatch_def lined_def json_complete_def new_jfields_def Let_def)
qed

lemma empty_event:
  assumes b: "between b" and ls: "list_all line_ok ls" "payload ls = []"
  shows "foldl sse_byte b (render ls @ [CHR 0x0A]) = event_step b EmptyEvent"
proof -
  have l: "line_start b" using b by (simp add: between_def)
  then show ?thesis using lines_run [OF l ls(1)] ls(2) blank_line dispatch_idle [OF b] by simp
qed

lemma other_lines:
  "lined [] False False b = b \<Longrightarrow> list_all line_ok ls \<Longrightarrow> payload ls = [] \<Longrightarrow> foldl sse_byte b (render ls) = b"
proof (induction ls)
  case (Cons l ls)
  then obtain l' where "l = OtherLine l'" by (cases l) simp_all
  with Cons other_line [of b l'] show ?case by simp
qed simp

lemma marker_bytes:
  "list_all (\<lambda>c. c \<noteq> CHR 0x0A \<and> byte c < 128) s \<Longrightarrow> rb_marker b \<noteq> [] \<Longrightarrow> length (rb_marker b) + length s \<le> 32 \<Longrightarrow>
   foldl sse_byte (lined p True True b) s = lined p True True (b\<lparr>rb_marker := rb_marker b @ s\<rparr>)"
proof (induction s arbitrary: b)
  case (Cons c s)
  have "encode_rune (byte c) = [c]" using Cons.prems(1) by (simp add: encode_rune_def) (simp add: byte_def)
  then have "sse_byte (lined p True True b) c = lined p True True (b\<lparr>rb_marker := rb_marker b @ [c]\<rparr>)"
    using Cons.prems by (simp add: sse_byte_def sse_data_def Let_def) (simp add: lined_def)
  then show ?case using Cons.IH [of "b\<lparr>rb_marker := rb_marker b @ [c]\<rparr>"] Cons.prems by simp
qed simp

lemma done_event:
  assumes b: "between b" and ls: "list_all line_ok (ls @ DataLine (a @ ''[DONE]'' @ replicate n CHR 0x20) # ls')"
    and p: "payload ls = []" "payload ls' = []" and a: "ws a" "n \<le> 26"
  shows "foldl sse_byte b (render (ls @ DataLine (a @ ''[DONE]'' @ replicate n CHR 0x20) # ls') @ [CHR 0x0A]) = event_step b DoneEvent"
proof -
  have l: "line_start b" and parser: "rb_parser b = new_jfields" and e: "rb_event_fields b = None"
    using b by (simp_all add: between_def)
  have id: "lined [] False False b = b" "rb_marker b = []" using l by (simp_all add: line_start_lined)
  let ?t = "''DONE]'' @ replicate n CHR 0x20"
  let ?m = "b\<lparr>rb_marker := CHR ''['' # ?t\<rparr>" and ?p = "''data:''"
  have c: "json_complete (rb_parser b)" by (simp add: parser json_complete_def new_jfields_def)
  have fa: "json_feed (rb_parser b) a = rb_parser b" using feed_space [OF a(1)] by (simp add: parser new_jfields_rdy)
  have "foldl parser_byte b a = b" using parser_bytes [of b a] fa by simp
  then have "foldl sse_byte (lined ?p True True b) a = lined ?p True True b"
    using data_bytes [of a b ?p] ls id(2) complete_unmarked [of "rb_parser b" a] fa c by (simp add: one_line_def)
  moreover have "sse_byte (lined ?p True True b) (CHR ''['') = lined ?p True True (b\<lparr>rb_marker := ''[''\<rparr>)"
    using c by (simp add: sse_byte_def sse_data_def id(2) e Let_def) (simp add: lined_def)
  moreover have "foldl sse_byte (lined ?p True True (b\<lparr>rb_marker := ''[''\<rparr>)) ?t = lined ?p True True ?m"
    using marker_bytes [of ?t "b\<lparr>rb_marker := ''[''\<rparr>" ?p] a(2)
    by (simp add: list_all_iff byte_def del: foldl_append foldl_Cons)
  moreover have "foldl sse_byte b ?p = lined ?p True True b" using data_prefix [of b] by (simp only: id(1))
  ultimately have "foldl sse_byte b (?p @ a @ CHR ''['' # ?t) = lined ?p True True ?m"
    by (simp only: foldl_append foldl_Cons)
  moreover have "sse_byte (lined ?p True True ?m) (CHR 0x0A) = lined [] False False ?m"
    by (simp add: sse_byte_def sse_newline_def)
  ultimately have "foldl sse_byte b (render_line (DataLine (a @ ''[DONE]'' @ replicate n CHR 0x20))) = lined [] False False ?m"
    by (simp only: render_line.simps append_assoc append_Cons append_Nil foldl_append foldl_Cons foldl_Nil)
  moreover have m: "lined [] False False ?m = ?m" using l by (simp add: line_start_def lined_def)
  ultimately have run: "foldl sse_byte b (render (ls @ DataLine (a @ ''[DONE]'' @ replicate n CHR 0x20) # ls')) = ?m"
    using other_lines [OF id(1), of ls] other_lines [OF m, of ls'] ls p
    by (simp only: payload_simps foldl_append list_all_append list.pred_inject)
  have "trim_space (CHR ''['' # ?t) = ''[DONE]''"
    using trim_space_trailing [of "''[DONE]''" n] by (simp add: visible_def byte_def)
  moreover have "note_field_skip ?m = ?m" by (simp add: note_field_skip_def parser new_jfields_def)
  ultimately have "rb_dispatch ?m = b\<lparr>rb_terminal := True\<rparr>"
    using c e id(2) parser by (simp add: rb_dispatch_def Let_def)
  moreover have "sse_byte ?m (CHR 0x0A) = lined [] False False (rb_dispatch ?m)"
    using l by (simp add: sse_byte_def sse_newline_def line_start_def lined_def Let_def)
  moreover have "lined [] False False (b\<lparr>rb_terminal := True\<rparr>) = b\<lparr>rb_terminal := True\<rparr>"
    using l by (simp add: line_start_def lined_def)
  ultimately show ?thesis by (simp only: foldl_append foldl_Cons foldl_Nil run event_step.simps)
qed


lemma event_run:
  assumes "event_block e t" "between b" "list_all within_limits (objects [e])"
  shows "foldl sse_byte b t = event_step b e"
  using assms(1)
proof cases
  case (object ls a s x ms)
  then show ?thesis using object_event [OF assms(2), of ls a s x ms] assms(3) by simp
next
  case (marker ls a n ls')
  then show ?thesis using done_event [OF assms(2), of ls a n ls'] by simp
next
  case (empty ls)
  then show ?thesis using empty_event [OF assms(2), of ls] by simp
qed

lemma objects_Cons: "objects (e # es) = objects [e] @ objects es"
  by (cases e) simp_all

lemma stream_run:
  "event_stream es t \<Longrightarrow> between b \<Longrightarrow> list_all within_limits (objects es) \<Longrightarrow>
   foldl sse_byte b t = foldl event_step b es \<and> between (foldl event_step b es)"
proof (induction arbitrary: b rule: event_stream.induct)
  case (next_event e s es t)
  have l: "list_all within_limits (objects [e])" "list_all within_limits (objects es)"
    using next_event.prems(2) by (subst (asm) objects_Cons, simp)+
  show ?case
    using event_run [OF next_event.hyps(1) next_event.prems(1) l(1)]
      next_event.IH [OF between_event [OF next_event.prems(1)] l(2)] by simp
qed simp

lemma render_no_cr: "list_all line_ok ls \<Longrightarrow> cr \<notin> set (render ls)"
proof (induction ls)
  case (Cons l ls)
  then show ?case by (cases l) (auto simp: one_line_def cr_def)
qed simp

lemma stream_no_cr: "event_stream es t \<Longrightarrow> cr \<notin> set t"
proof (induction rule: event_stream.induct)
  case (next_event e s es t)
  from next_event(1) have "cr \<notin> set s"
    by cases (use render_no_cr in \<open>auto simp: cr_def one_line_def\<close>)
  with next_event(3) show ?case by simp
qed simp

section \<open>The outcome of a stream\<close>

text \<open>The events that end a stream: the marker, or an object that says so.\<close>

definition final_fields :: "fields \<Rightarrow> bool" where
  "final_fields f \<longleftrightarrow> f ''done'' = Some ''true'' \<or> unmarshal_string (f ''type'') = Some ''message_stop''"

definition stream_ends :: "sse_event list \<Rightarrow> bool" where
  "stream_ends es \<longleftrightarrow> DoneEvent \<in> set es
     \<or> list_ex (\<lambda>ms. \<not> has_error (selected ms) \<and> final_fields (selected ms)) (objects es)"

lemma object_step:
  "rb_sample (event_step b (ObjectEvent ms)) = (if has_error (selected ms) then rb_sample b else rb_sample b ++ selected ms)"
  "rb_failed (event_step b (ObjectEvent ms)) = (rb_failed b \<or> has_error (selected ms))"
  "rb_failure (event_step b (ObjectEvent ms)) =
     (if has_error (selected ms) \<and> rb_failure b = [] then ''upstream_error'' else rb_failure b)"
  "rb_terminal (event_step b (ObjectEvent ms)) =
     (rb_terminal b \<or> \<not> has_error (selected ms) \<and> final_fields (selected ms))"
  "rb_reported (event_step b (ObjectEvent ms)) = rb_reported b"
  "rb_noticed (event_step b (ObjectEvent ms)) = (rb_noticed b \<or> skips_members ms)"
  "rb_log (event_step b (ObjectEvent ms)) =
     rb_log b @ (if \<not> rb_noticed b \<and> skips_members ms then [CallNotice] else [])"
proof -
  have q: "quiet x (rb_merge f x)" for f x by (rule quiet_merge)
  have t: "rb_terminal (rb_merge f x) = (rb_terminal x \<or> \<not> has_error f \<and> final_fields f)" for f x
    by (auto simp: rb_merge_def rb_fail_def has_error_def final_fields_def Let_def)
  show "rb_sample (event_step b (ObjectEvent ms)) = (if has_error (selected ms) then rb_sample b else rb_sample b ++ selected ms)"
    "rb_failed (event_step b (ObjectEvent ms)) = (rb_failed b \<or> has_error (selected ms))"
    "rb_failure (event_step b (ObjectEvent ms)) =
       (if has_error (selected ms) \<and> rb_failure b = [] then ''upstream_error'' else rb_failure b)"
    "rb_terminal (event_step b (ObjectEvent ms)) =
       (rb_terminal b \<or> \<not> has_error (selected ms) \<and> final_fields (selected ms))"
    by (simp_all add: merge_facts t note_if_def)
  show "rb_reported (event_step b (ObjectEvent ms)) = rb_reported b"
    "rb_noticed (event_step b (ObjectEvent ms)) = (rb_noticed b \<or> skips_members ms)"
    "rb_log (event_step b (ObjectEvent ms)) =
       rb_log b @ (if \<not> rb_noticed b \<and> skips_members ms then [CallNotice] else [])"
    using q by (auto simp: quiet_def note_if_def)
qed

lemma events_outcome:
  "rb_sample (foldl event_step b es)
      = foldl (++) (rb_sample b) (filter (\<lambda>f. \<not> has_error f) (map selected (objects es)))
    \<and> rb_failed (foldl event_step b es) = (rb_failed b \<or> list_ex (has_error \<circ> selected) (objects es))
    \<and> rb_failure (foldl event_step b es) =
        (if list_ex (has_error \<circ> selected) (objects es) \<and> rb_failure b = [] then ''upstream_error'' else rb_failure b)
    \<and> rb_terminal (foldl event_step b es) = (rb_terminal b \<or> stream_ends es)
    \<and> rb_reported (foldl event_step b es) = rb_reported b
    \<and> rb_noticed (foldl event_step b es) = (rb_noticed b \<or> list_ex skips_members (objects es))
    \<and> rb_log (foldl event_step b es) =
        rb_log b @ (if \<not> rb_noticed b \<and> list_ex skips_members (objects es) then [CallNotice] else [])"
proof (induction es arbitrary: b)
  case Nil
  then show ?case by (simp add: stream_ends_def)
next
  case (Cons e es)
  note IH = Cons.IH [of "event_step b e"]
  show ?case
  proof (cases e)
    case (ObjectEvent ms)
    have "stream_ends (e # es) \<longleftrightarrow> \<not> has_error (selected ms) \<and> final_fields (selected ms) \<or> stream_ends es"
      by (auto simp: ObjectEvent stream_ends_def)
    with IH show ?thesis
      by (cases "has_error (selected ms)"; cases "skips_members ms"; cases "rb_noticed b")
        (simp_all add: ObjectEvent object_step del: event_step.simps)
  qed (use IH in \<open>simp_all add: stream_ends_def\<close>)
qed

text \<open>The end of the body, once everything has been dispatched.\<close>

lemma eof_verdict:
  assumes "rb_flush b = b" "json_complete (rb_parser b)" "rb_sse b" "\<not> rb_reported b"
  shows "rb_log (rb_clean_eof v b) = rb_log b @
    (if rb_failed b then [CallResult ''failed'' (rb_failure b)]
     else if rb_terminal b then [CallEmit (rb_sample b), call_of (v (rb_sample b))]
     else [CallResult ''skipped'' ''incomplete''])"
  using assms
  by (simp add: rb_clean_eof_def rb_success_def call_emit_def call_of_def rb_report_def Let_def case_prod_beta)

lemma between_new: "between (new_response_body True)"
  by (simp add: between_def line_start_def new_response_body_def)

text \<open>A stream read to its end in one piece.\<close>

lemma stream_read:
  assumes "event_stream es t" "list_all within_limits (objects es)"
  shows "rb_log (fst (rb_read v (new_response_body True) t EOF)) =
    (if list_ex skips_members (objects es) then [CallNotice] else []) @
    (if list_ex (has_error \<circ> selected) (objects es) then [CallResult ''failed'' ''upstream_error'']
     else if stream_ends es
       then [CallEmit (merged (map selected (objects es))), call_of (v (merged (map selected (objects es))))]
     else [CallResult ''skipped'' ''incomplete''])"
proof -
  let ?b = "new_response_body True"
  define o1 where "o1 = foldl event_step ?b es"
  have new: "rb_sample ?b = Map.empty" "\<not> rb_failed ?b" "rb_failure ?b = []" "\<not> rb_terminal ?b" "rb_log ?b = []"
    "\<not> rb_noticed ?b" "\<not> rb_reported ?b" "\<not> rb_ended ?b" "rb_sse ?b" "\<not> rb_pending_cr ?b"
    by (simp_all add: new_response_body_def)
  have o1: "rb_observe ?b t = o1" "between o1"
    using stream_run [OF assms(1) between_new assms(2)] lf_run [OF stream_no_cr [OF assms(1)] new(10)] new(9)
    by (simp_all add: rb_observe_def o1_def)
  have facts: "rb_sample o1 = merged (map selected (objects es))"
    "rb_failed o1 = list_ex (has_error \<circ> selected) (objects es)"
    "list_ex (has_error \<circ> selected) (objects es) \<Longrightarrow> rb_failure o1 = ''upstream_error''"
    "rb_terminal o1 = stream_ends es" "\<not> rb_reported o1"
    "rb_log o1 = (if list_ex skips_members (objects es) then [CallNotice] else [])"
    using events_outcome [of ?b es] new by (simp_all add: o1_def merged_def)
  let ?n = "o1\<lparr>rb_ended := True\<rparr>"
  have n: "between ?n" "note_field_skip o1 = o1"
    using o1(2) by (simp_all add: between_def line_start_def note_field_skip_def new_jfields_def)
  have "\<not> rb_pending_cr (foldl sse_byte ?b t)" using new(10) by (induction t rule: rev_induct) simp_all
  then have pcr: "\<not> rb_pending_cr o1"
    using stream_run [OF assms(1) between_new assms(2)] by (simp add: o1_def)
  have "lined [] False False (rb_dispatch ?n) = ?n" by (rule dispatch_idle [OF n(1)])
  moreover have "lined [] False False (rb_dispatch ?n) = rb_dispatch ?n"
    using n(1) by (simp add: between_def line_start_def rb_dispatch_def lined_def json_complete_def new_jfields_def
        note_field_skip_def Let_def)
  ultimately have fl: "rb_flush ?n = ?n"
    using o1(2) pcr by (simp add: rb_flush_def between_def line_start_def)
  have "fst (rb_read v ?b t EOF) = rb_clean_eof v ?n"
    using new(8) by (simp add: rb_read_def o1(1) n(2))
  moreover have "json_complete (rb_parser o1)" "rb_sse o1"
    using o1(2) by (simp_all add: between_def json_complete_def new_jfields_def)
  ultimately show ?thesis using eof_verdict [of ?n v] fl facts by simp
qed


section \<open>Properties\<close>

text \<open>C3. From the bytes of an event stream to the metrics: a successful streaming response of a compatibility
  endpoint, whose body is a well-formed event stream with any of the three line endings and any
  free lines around the data, split into any reads, makes exactly these metric calls: one for a field
  name that was too long; then the error result if an event carried an \<open>error\<close>; otherwise, if the
  stream has reached its end (the marker, or an object that says so), what the merged fields of all the
  events record, followed by the verdict; otherwise the result \<open>skipped\<close>/\<open>incomplete\<close>.\<close>

theorem event_stream_to_metric_calls:
  assumes "event_stream es t" "list_all within_limits (objects es)"
    and "body \<in> {t, crlf t, cr_only t}" "concat ds @ d = body"
    and "rq_method (rs_request resp) = ''POST''" "inference_path (rq_path (rs_request resp))"
    and "compat_path (rq_path (rs_request resp))" "rq_path (rs_request resp) \<notin> set exclude_paths"
    and "200 \<le> rs_status resp" "rs_status resp < 300" "has_prefix (rs_content_type resp) ''text/event-stream''"
  shows "snd (exchange uni s exclude_paths mc resp (map (\<lambda>d. OpRead d NoErr) ds @ [OpRead d EOF])) =
    (if list_ex skips_members (objects es) then [MInc ExtractionFieldSkips [''field_name_limit'']] else [])
    @ (if list_ex (has_error \<circ> selected) (objects es) then [MInc ExtractionResults [''failed'', ''upstream_error'']]
       else if \<not> stream_ends es then [MInc ExtractionResults [''skipped'', ''incomplete'']]
       else let (mc', calls, outcome, reason) = record_sample uni s mc True (rq_model (rs_request resp))
                  (rq_path (rs_request resp)) (merged (map selected (objects es)))
            in calls @ [MInc ExtractionResults [outcome, reason]])"
proof -
  let ?f = "merged (map selected (objects es))" and ?v = "sample_verdict True" and ?b = "new_response_body True"
  have m: "modify_response exclude_paths resp = Observed True ?b"
    using observed_response [OF assms(5,6,8-10)] assms(7,11) by simp
  have "\<not> rb_ended ?b" by (simp add: new_response_body_def)
  from reads_concat [OF this, of ?v ds d EOF] line_endings_read [OF stream_no_cr [OF assms(1)] assms(3), of ?v]
    stream_read [OF assms(1,2), of ?v] assms(4)
  have log: "rb_log (rb_ops ?v ?b (map (\<lambda>d. OpRead d NoErr) ds @ [OpRead d EOF])) =
      (if list_ex skips_members (objects es) then [CallNotice] else []) @
      (if list_ex (has_error \<circ> selected) (objects es) then [CallResult ''failed'' ''upstream_error'']
       else if stream_ends es then [CallEmit ?f, call_of (?v ?f)] else [CallResult ''skipped'' ''incomplete''])"
    by simp
  have "?v ?f = snd (snd (record_sample uni s mc True (rq_model (rs_request resp)) (rq_path (rs_request resp)) ?f))"
    by (simp add: record_sample_verdict)
  then show ?thesis
    by (simp add: exchange_def m log callbacks_append call_of_def Let_def split_def)
qed

theorem event_stream_to_metric_calls_witness:
  "last (snd (exchange id (\<lambda>_. None) [] new_model_cache ((demo_response ''/v1/messages'')\<lparr>rs_content_type := ''text/event-stream''\<rparr>)
     [OpRead (''event: x'' @ [CHR 0x0D]) NoErr,
      OpRead ([CHR 0x0A] @ ''data: {'' @ quote ''done'' @ '':true}'' @ [CHR 0x0D, CHR 0x0A, CHR 0x0D, CHR 0x0A]) EOF]))
   = MInc ExtractionResults [''skipped'', ''usage_absent'']"
proof -
  let ?ls = "[OtherLine ''event: x'', DataLine ('' {'' @ quote ''done'' @ '':true}'')]"
  have "json_text (JTok ''true'') ''true''" by (rule text_tok) (simp add: json_literal_def)
  moreover have "valid_body ''done''" by (simp add: byte_def)
  ultimately have t: "json_text (JObj [(''done'', JTok ''true'')]) (''{'' @ ([] @ quote ''done'' @ [] @ '':'' @ [] @ ''true'' @ []) @ ''}'')"
    by (intro text_obj members_one) simp_all
  have "event_block (ObjectEvent [(''done'', JTok ''true'')]) (render ?ls @ [CHR 0x0A])"
    by (rule event_block.object [OF _ _ _ _ t, of _ "'' ''" "[CHR 0x0A]"])
      (simp_all add: one_line_def json_space_def byte_def quote_def)
  from next_event [OF this no_event] have st: "event_stream [ObjectEvent [(''done'', JTok ''true'')]] (render ?ls @ [CHR 0x0A])"
    by simp
  let ?resp = "(demo_response ''/v1/messages'')\<lparr>rs_content_type := ''text/event-stream''\<rparr>"
  have "rs_request ?resp = demo_request ''/v1/messages''" "rs_status ?resp = 200"
    "rq_path (demo_request ''/v1/messages'') = ''/v1/messages''" "rq_method (demo_request ''/v1/messages'') = ''POST''"
    "inference_path ''/v1/messages''" "compat_path ''/v1/messages''"
    by (simp_all add: demo_response_def demo_request_def inference_path_def compat_path_def)
  moreover have "stream_ends [ObjectEvent [(''done'', JTok ''true'')]]"
    by (simp add: stream_ends_def demo_selected has_error_def final_fields_def)
  moreover have "sample_verdict True [''done'' \<mapsto> ''true''] = (''skipped'', ''usage_absent'')"
    by code_simp
  ultimately show ?thesis
    using event_stream_to_metric_calls [OF st, of "crlf (render ?ls @ [CHR 0x0A])" "[''event: x'' @ [CHR 0x0D]]"
        "[CHR 0x0A] @ ''data: {'' @ quote ''done'' @ '':true}'' @ [CHR 0x0D, CHR 0x0A, CHR 0x0D, CHR 0x0A]"
        ?resp "[]" id "\<lambda>_. None" new_model_cache] demo_selected
      record_sample_verdict [where cp = True and f = "[''done'' \<mapsto> ''true'']"]
    by (simp add: quote_def has_error_def merged_def split_def Let_def crlf_def nl_def cr_def)
qed

end
