(* ===== verification/Spec2Isabelle.thy ===== *)
theory Spec2Isabelle
  imports Lifecycle Receiver Labels EventStream
begin

text \<open>
  Verification of ollama-exporter, a Prometheus exporter for Ollama. The program polls an Ollama
  server, proxies its clients while reading the token usage out of the responses that pass, reads GPU
  sensors, serves the resulting metrics and pushes them to a remote write receiver.

  \<^bold>\<open>The program and its model.\<close> \<^verbatim>\<open>main\<close> loads the configuration, builds the collector (poller, proxy, GPU
  backend) and the pusher, and starts their goroutines; they meet only in the shared model cache, in
  the metrics registry and in the queue between the pusher and its sender. The theories follow that
  structure; definitions keep the names of the functions they model, and their state records the
  fields of the structs.

    \<^item> \<open>GoBase\<close>, \<open>GoStrings\<close>, \<open>GoDuration\<close>, \<open>JsonText\<close>, \<open>Utf8\<close>: the parts of Go's standard library that the
      code calls. A string is a list of bytes; an \<open>int64\<close> is an \<open>int\<close> wrapped where the code can
      overflow; an instant is an \<open>int\<close> of nanoseconds.
    \<^item> \<open>Yaml\<close>, \<open>Config\<close> (\<^verbatim>\<open>internal/config\<close>): the YAML subset parser with its stack of frames, line by line; the
      application of every key; defaults, environment, validation.
    \<^item> \<open>StreamJson\<close>, \<open>JsonScalar\<close>, \<open>JsonCorrect\<close> (\<^verbatim>\<open>internal/collector/streamjson.go\<close>): the streaming JSON
      recognizer byte by byte, and its agreement with a recursive reading of the document.
    \<^item> \<open>ResponseBody\<close>, \<open>ResponseCorrect\<close> (\<^verbatim>\<open>responsebody.go\<close>): the observing body wrapper, native and
      server-sent events.
    \<^item> \<open>ModelCache\<close>, \<open>Metrics\<close>, \<open>Proxy\<close>, \<open>Poller\<close> (\<^verbatim>\<open>modelcache.go\<close>, \<^verbatim>\<open>metrics/registry.go\<close>, \<^verbatim>\<open>proxy.go\<close>, \<^verbatim>\<open>usage.go\<close>,
      \<^verbatim>\<open>poller.go\<close>): state passing functions whose calls on metrics are entries of a log, in the order
      of the code. \<open>OllamaClient\<close> (\<^verbatim>\<open>internal/ollama\<close>): requests, answers and the encoding of a body.
    \<^item> \<open>EndToEnd\<close>, \<open>EventStream\<close>, \<open>Labels\<close>: the proxy as a whole, from the bytes of a plain response or of an
      event stream (a grammar of lines and blocks) to the metric calls, and the label values that these
      calls carry.
    \<^item> \<open>Gpu\<close>, \<open>AppleGpu\<close> (\<^verbatim>\<open>internal/gpu\<close>): discovery and polling of AMD cards, the macOS sampler.
    \<^item> \<open>RWQueue\<close>, \<open>Breaker\<close>, \<open>Wire\<close>, \<open>Sender\<close>, \<open>Convert\<close>, \<open>Pusher\<close>, \<open>Build\<close> (\<^verbatim>\<open>internal/remotewrite\<close>): the ring
      buffer, the circuit breaker, the protocol, the delivery of a batch, the conversion of gathered
      metrics, the concurrent run of pusher and senders as a step relation, and the assembly.
    \<^item> \<open>Receiver\<close> (\<^verbatim>\<open>remotewrite/testutil\<close>): the receiver that the integration tests run the sender against,
      with its injected failures, and the two of them together.
    \<^item> \<open>Exporter\<close> (\<^verbatim>\<open>collector.go\<close>, \<^verbatim>\<open>cmd/exporter/main.go\<close>): from a loaded configuration to the running
      goroutines.
    \<^item> \<open>Lifecycle\<close> (\<^verbatim>\<open>main.go\<close>, \<^verbatim>\<open>Proxy.Start\<close>, \<^verbatim>\<open>Poller.Start\<close>): the process from there to its exit, one step of a
      goroutine, of a client or of the signal at a time: \<^verbatim>\<open>main\<close>, the two HTTP servers in the states
      that \<open>net/http\<close> documents, the wait group, and the pusher's own steps from \<open>Pusher\<close>. \<open>Progress\<close> holds
      runs, fairness and the locale by which a measure gives that a state is left; \<open>PushProgress\<close> the
      measure of a pusher that has been told to stop.
    \<^item> \<open>QueueSpec\<close>, \<open>GateSpec\<close>, \<open>MetadataSpec\<close>: the contracts of the queue (a bounded FIFO that drops its
      oldest element), of the breaker (a gate that closes after a full window of failures) and of the
      metadata cache, as locales that \<open>RWQueue\<close>, \<open>Breaker\<close> and \<open>ModelCache\<close> interpret on their own operations.

  \<^bold>\<open>What the lemmas show.\<close> For the recognizer: equivalence with the tree of the document, bounded memory,
  independence of how the bytes are split. For the body wrapper and the proxy: exactly one result per
  response, exactly the metric calls that the merged fields stand for, bodies forwarded byte for byte,
  valid labels from any response. For the poller: loads and unloads balance, pruning removes exactly
  what is gone, failed scrapes change nothing. For remote write: the queue refines its specification;
  every sample offered is accounted for exactly once under every interleaving, also in the exposed
  counters; the shutdown terminates; retries, waits and the breaker respect their configuration;
  converted series are acceptable to a receiver. For the configuration: what is printed in the
  supported subset is read back, what Load accepts satisfies the documented constraints and consists
  of 64-bit values, and plaintext credentials in the tree are refused. Across components: the
  credentials of a loaded configuration are on every request, a started exporter has an output and
  positive intervals, startup fails only for unusable files, no two metrics share a name; after a
  signal the process exits on every fair run, and by then everything that was gathered has been
  handed over or counted; a transient failure of the receiver loses no batch that the attempts cover.

  \<^bold>\<open>Inputs and bounds.\<close> Everything the program obtains from outside is an argument: clock readings, random
  draws, map iteration orders (the theorems hold for every order), file and \<open>sysfs\<close> contents, the
  outcome of each HTTP exchange, the sequence of reads on a body. Loops are structural recursion or
  have a measure; \<open>retry_loop\<close> recurses over the configured number of attempts and is total, its
  \<open>None\<close> being the panic of the random source. The step relation of the pusher has no fuel: the
  termination theorem bounds the steps of a shutdown by the work that is left. The liveness theorem is
  about infinite runs, under the fairness of the scheduler for the goroutines it names: a goroutine
  that can always step does, and a \<open>select\<close> does not ignore a ready branch for ever.

  \<^bold>\<open>Not modelled.\<close> Third-party code: the protobuf and snappy encoding (its result is the argument
  \<open>enc_err\<close>), the Prometheus client (a call is a log entry; its documented panics are \<open>call_ok\<close> and
  \<open>call_valid\<close>). Library code behind arguments: the HTTP client, the forwarding of the reverse proxy, the routes of the muxes,
  \<open>http.ParseTime\<close>, \<open>url.Parse\<close> (\<open>url_scheme\<close>), \<open>strconv.FormatFloat\<close> (\<open>fmt\<close>), the floating point part
  of \<open>time.ParseDuration\<close> (\<open>frac\<close>), the Unicode tables of \<open>strings.ToLower\<close> (\<open>uni\<close>), certificate
  parsing, the decoding of the client's JSON answers into their types. Floating point is kept as the
  expression the code computes, so no rounding is claimed. Log output is kept as levels or named
  warnings. The request path is the one the server decodes; a target URL with a base path of its own
  is not modelled. An error of an inbound body is delivered by a separate read. Flag parsing is left
  out. The process model has no timing: that \<open>Shutdown\<close> gives up after its deadline is a step it may take.

  \<^bold>\<open>Further work.\<close> The poller's goroutine and the proxy's handlers as steps of the process with their own
  effects on the shared cache, in the way the pusher's steps already are.
\<close>

end
